(* ===== verification/Prelude.thy ===== *)
theory Prelude
  imports Main "HOL-Library.Word"
begin

unbundle bit_operations_syntax

section \<open>Shared vocabulary of the development\<close>

text \<open>
  The types and the automation every component theory builds on. Machine integers are words of
  the C type's width, or \<open>int\<close> where the code stays far from the type's limits and the theory
  says so. A C function that can run into undefined behaviour (a null dereference, an access
  outside an object, a use of freed memory, a shift by the width of its operand or more, a number
  that its type cannot hold) returns a value of type \<open>'a ub\<close>, whose left
  summand says what went wrong; the absence of such a fault is a theorem, never an assumption.
\<close>

type_synonym u8 = "8 word"
type_synonym u16 = "16 word"
type_synonym u32 = "32 word"
type_synonym u64 = "64 word"

datatype fault = NullDeref | OutOfBounds | UseAfterFree | Uninitialised | BadShift | IntOverflow

type_synonym 'a ub = "fault + 'a"

named_theorems frame_simps \<open>which parts of a state an operation leaves alone\<close>
named_theorems inv_intros \<open>operations keep the component's invariant\<close>
named_theorems spec_simps \<open>operations in terms of the component's abstract view\<close>

subsection \<open>Sequencing computations that may fault\<close>

definition bind_ub :: "'a ub \<Rightarrow> ('a \<Rightarrow> 'b ub) \<Rightarrow> 'b ub" where
  "bind_ub m f = (case m of Inl e \<Rightarrow> Inl e | Inr x \<Rightarrow> f x)"

lemma bind_ub_simps [simp]:
  "bind_ub (Inl e) f = Inl e"
  "bind_ub (Inr x) f = f x"
  by (simp_all add: bind_ub_def)

lemma bind_ub_Inr [simp]: "bind_ub m Inr = m"
  by (cases m) simp_all

lemma bind_ub_cong [fundef_cong]:
  "m = m' \<Longrightarrow> (\<And>x. m' = Inr x \<Longrightarrow> f x = g x) \<Longrightarrow> bind_ub m f = bind_ub m' g"
  by (cases m') auto

lemma bind_ub_eq_Inr: "bind_ub m f = Inr y \<longleftrightarrow> (\<exists>x. m = Inr x \<and> f x = Inr y)"
  by (cases m) auto

lemma bind_ub_eq_Inl:
  "bind_ub m f = Inl e \<longleftrightarrow> m = Inl e \<or> (\<exists>x. m = Inr x \<and> f x = Inl e)"
  by (cases m) auto

subsection \<open>Byte blocks\<close>

text \<open>
  A block of memory is the list of its bytes; a pointer into it is an integer offset, which may
  have been computed out of range. Only the access decides: outside the block it is a fault.
\<close>

definition peek :: "'a list \<Rightarrow> int \<Rightarrow> 'a ub" where
  "peek mem p = (if 0 \<le> p \<and> p < int (length mem) then Inr (mem ! nat p) else Inl OutOfBounds)"

definition poke :: "'a list \<Rightarrow> int \<Rightarrow> 'a \<Rightarrow> 'a list ub" where
  "poke mem p x = (if 0 \<le> p \<and> p < int (length mem) then Inr (mem[nat p := x]) else Inl OutOfBounds)"

lemma peek_in [simp]: "i < length mem \<Longrightarrow> peek mem (int i) = Inr (mem ! i)"
  by (simp add: peek_def)

lemma poke_in [simp]: "i < length mem \<Longrightarrow> poke mem (int i) x = Inr (mem[i := x])"
  by (simp add: poke_def)

lemma peek_out: "peek mem p = Inl e \<longleftrightarrow> e = OutOfBounds \<and> (p < 0 \<or> int (length mem) \<le> p)"
  by (auto simp: peek_def)

subsection \<open>Words\<close>

lemma xor_word_eq_0 [simp]: "a XOR b = 0 \<longleftrightarrow> a = b" for a b :: "'a::len word"
  by (auto simp: bit_eq_iff bit_xor_iff)

lemma bit_u8_high: "8 \<le> i \<Longrightarrow> \<not> bit b i" for b :: u8
  by (auto dest: bit_imp_le_length)

lemma exp_minus_1_mask [simp]: "2 ^ n - 1 = (mask n :: 'a::len word)"
  by (simp add: mask_eq_exp_minus_1)

text \<open>Shifts of a 64-bit operand: C leaves a shift by 64 or more undefined.\<close>

definition shl64 :: "u64 \<Rightarrow> nat \<Rightarrow> u64 ub" where
  "shl64 x n = (if n < 64 then Inr (push_bit n x) else Inl BadShift)"

definition shr64 :: "u64 \<Rightarrow> nat \<Rightarrow> u64 ub" where
  "shr64 x n = (if n < 64 then Inr (drop_bit n x) else Inl BadShift)"

lemma shl64_in [simp]: "n < 64 \<Longrightarrow> shl64 x n = Inr (push_bit n x)"
  by (simp add: shl64_def)

lemma shr64_in [simp]: "n < 64 \<Longrightarrow> shr64 x n = Inr (drop_bit n x)"
  by (simp add: shr64_def)

lemma top_bit_int:
  fixes k :: int
  assumes "0 \<le> k" and "k < 2 * 2 ^ m"
  shows "bit k m \<longleftrightarrow> 2 ^ m \<le> k"
proof (cases "2 ^ m \<le> k")
  case True
  then have "k div 2 ^ m = 1 + (k - 2 ^ m) div 2 ^ m" using div_add_self1 [of "2 ^ m" "k - 2 ^ m"] by simp
  also have "(k - 2 ^ m) div 2 ^ m = 0" using True assms(2) by (intro div_pos_pos_trivial) simp_all
  finally show ?thesis using True by (simp add: bit_iff_odd)
next
  case False
  with assms(1) have "k div 2 ^ m = 0" by (intro div_pos_pos_trivial) simp_all
  with False show ?thesis by (simp add: bit_iff_odd)
qed

lemma signed_range_mod:
  fixes v :: int
  assumes "- (2 ^ m) \<le> v" and "v < 2 ^ m"
  shows "v mod (2 * 2 ^ m) = (if v < 0 then v + 2 * 2 ^ m else v)"
proof (cases "v < 0")
  case True
  have "v mod (2 * 2 ^ m) = (v + 2 * 2 ^ m) mod (2 * 2 ^ m)" by simp
  also have "\<dots> = v + 2 * 2 ^ m" using True assms by (intro mod_pos_pos_trivial) simp_all
  finally show ?thesis using True by simp
qed (use assms in \<open>simp add: mod_pos_pos_trivial\<close>)

lemma unat_pred: "i \<noteq> 0 \<Longrightarrow> unat (i - 1) < unat i" for i :: "'a::len word"
  by (metis diff_less unat_gt_0 unat_minus_one word_neq_0_conv zero_less_one)

lemma unat_incr: "unat (a + 1) = Suc (unat a)" if "a < b" for a b :: "'a::len word"
proof -
  have "Suc (unat a) \<le> unat b" using that by (simp add: word_less_nat_alt)
  also have "\<dots> < 2 ^ LENGTH('a)" by (rule unsigned_less)
  finally show ?thesis by (simp add: unat_word_ariths)
qed

lemma incr_le: "a < b \<Longrightarrow> a + 1 \<le> b" for a b :: "'a::len word"
  by (simp add: word_le_nat_alt word_less_nat_alt unat_incr)

end
