(* ===== verification/Message.thy ===== *)
theory Message
  imports Prelude
begin

unbundle bit_operations_syntax

section \<open>Bit fields of a message\<close>

text \<open>
  lib/sf/message.c: fields of any width up to 64 bits at any bit offset of a message, in both bit orders, signed and
  unsigned, with a range check that runs a hook. The contract of a pair of accessors is the locale
  \<open>field_codec\<close>: fields behave as independent variables. It is interpreted for both orders, and the accessors of
  theory SensorMsg and the floats of theory MessageFloat rest on it.
\<close>

subsection \<open>Definitions\<close>

record failenv =
  failfn :: "nat option"
  fail_log :: "nat list"

record tmsg =
  msg_data :: "u8 list"
  msg_len :: u64

definition new_tmsg :: "bool \<Rightarrow> u8 list \<Rightarrow> u64 \<Rightarrow> tmsg option" where
  "new_tmsg malloc_ok packet len =
     (if malloc_ok then Some \<lparr>msg_data = packet, msg_len = len\<rparr> else None)"

definition reset_tmsg :: "tmsg option \<Rightarrow> u8 list \<Rightarrow> u64 \<Rightarrow> tmsg option" where
  "reset_tmsg msg packet len =
     (case msg of None \<Rightarrow> None | Some m \<Rightarrow> Some (m\<lparr>msg_data := packet, msg_len := len\<rparr>))"

definition tmsg_data :: "tmsg \<Rightarrow> u8 list" where
  "tmsg_data msg = msg_data msg"

definition tmsg_length :: "tmsg \<Rightarrow> u64" where
  "tmsg_length msg = msg_len msg"

definition tmsg_fail :: "failenv \<Rightarrow> failenv" where
  "tmsg_fail env =
     (case failfn env of None \<Rightarrow> env | Some fn \<Rightarrow> env\<lparr>fail_log := fail_log env @ [fn]\<rparr>)"

definition tmsg_set_fail :: "failenv \<Rightarrow> nat option \<Rightarrow> failenv \<times> nat option" where
  "tmsg_set_fail env fn = (let oldfn = failfn env in (env\<lparr>failfn := fn\<rparr>, oldfn))"

definition boundsp :: "failenv \<Rightarrow> tmsg \<Rightarrow> u64 \<Rightarrow> u64 \<Rightarrow> failenv \<times> bool" where
  "boundsp env msg offset len =
     (if offset + len \<le> msg_len msg * 8 then (env, True) else (tmsg_fail env, False))"

definition u2s :: "u64 \<Rightarrow> u64 \<Rightarrow> int ub" where
  "u2s x len =
     bind_ub (shl64 1 (unat (len - 1))) (\<lambda>top.
       if x AND top \<noteq> 0 then
         if len < 63 then Inr (sint x - 2 ^ unat len) else Inl BadShift
       else Inr (sint x))"

text \<open>Big-endian fields.\<close>

function read_ube_loop :: "u8 list \<Rightarrow> nat \<Rightarrow> nat \<Rightarrow> u64 \<Rightarrow> u64 ub" where
  "read_ube_loop data byte_offset len x =
     (if 8 \<le> len then
        bind_ub (peek data (int byte_offset)) (\<lambda>b.
        bind_ub (shl64 (ucast b) (len - 8)) (\<lambda>y.
          read_ube_loop data (byte_offset + 1) (len - 8) (x OR y)))
      else if 0 < len then
        bind_ub (peek data (int byte_offset)) (\<lambda>b. Inr (x OR drop_bit (8 - len) (ucast b)))
      else Inr x)"
  by pat_completeness auto
termination
  by (relation "measure (\<lambda>(data, byte_offset, len, x). len)") auto

definition read_ube_field :: "u8 list \<Rightarrow> u64 \<Rightarrow> u64 \<Rightarrow> u64 ub" where
  "read_ube_field data offset len =
     (let byte_offset = unat (drop_bit 3 offset); bit_offset = unat (offset AND 7);
          n = unat len
      in if len + (offset AND 7) \<le> 8 then
           bind_ub (peek data (int byte_offset)) (\<lambda>b.
             Inr (drop_bit (8 - bit_offset - n) (ucast b) AND (push_bit n 1 - 1)))
         else if 0 < bit_offset then
           bind_ub (peek data (int byte_offset)) (\<lambda>b.
           bind_ub (shl64 (ucast b AND (push_bit (8 - bit_offset) 1 - 1)) (n - (8 - bit_offset))) (\<lambda>x.
             read_ube_loop data (byte_offset + 1) (n - (8 - bit_offset)) x))
         else read_ube_loop data byte_offset n 0)"

definition tmsg_read_ube :: "failenv \<Rightarrow> tmsg \<Rightarrow> u64 \<Rightarrow> u64 \<Rightarrow> (failenv \<times> u64) ub" where
  "tmsg_read_ube env msg offset len =
     (let (env', ok) = boundsp env msg offset len
      in if ok then bind_ub (read_ube_field (msg_data msg) offset len) (\<lambda>x. Inr (env', x))
         else Inr (env', 0))"

function write_ube_loop :: "u8 list \<Rightarrow> nat \<Rightarrow> nat \<Rightarrow> u64 \<Rightarrow> u8 list ub" where
  "write_ube_loop data byte_offset len x =
     (if 8 \<le> len then
        bind_ub (shr64 x (len - 8)) (\<lambda>y.
        bind_ub (poke data (int byte_offset) (ucast y)) (\<lambda>data'.
          write_ube_loop data' (byte_offset + 1) (len - 8) x))
      else if 0 < len then
        bind_ub (peek data (int byte_offset)) (\<lambda>b.
          poke data (int byte_offset)
            (ucast ((ucast b AND (push_bit (8 - len) 1 - 1)) OR push_bit (8 - len) x)))
      else Inr data)"
  by pat_completeness auto
termination
  by (relation "measure (\<lambda>(data, byte_offset, len, x). len)") auto

definition write_ube_field :: "u8 list \<Rightarrow> u64 \<Rightarrow> u64 \<Rightarrow> u64 \<Rightarrow> u8 list ub" where
  "write_ube_field data offset len x =
     (let byte_offset = unat (drop_bit 3 offset); bit_offset = unat (offset AND 7);
          n = unat len
      in if len + (offset AND 7) \<le> 8 then
           (let mask = push_bit (8 - bit_offset - n) (push_bit n 1 - 1)
            in bind_ub (peek data (int byte_offset)) (\<lambda>b.
                 poke data (int byte_offset)
                   (ucast ((ucast b AND NOT mask) OR push_bit (8 - bit_offset - n) x))))
         else if 0 < bit_offset then
           (let mask = push_bit (8 - bit_offset) 1 - 1
            in bind_ub (peek data (int byte_offset)) (\<lambda>b.
               bind_ub (shr64 x (n - (8 - bit_offset))) (\<lambda>y.
               bind_ub (poke data (int byte_offset) (ucast ((ucast b AND NOT mask) OR y))) (\<lambda>data'.
                 write_ube_loop data' (byte_offset + 1) (n - (8 - bit_offset)) x))))
         else write_ube_loop data byte_offset n x)"

definition tmsg_write_ube ::
  "failenv \<Rightarrow> tmsg \<Rightarrow> u64 \<Rightarrow> u64 \<Rightarrow> u64 \<Rightarrow> (failenv \<times> tmsg) ub" where
  "tmsg_write_ube env msg offset len x =
     (let (env', ok) = boundsp env msg offset len
      in if ok then bind_ub (write_ube_field (msg_data msg) offset len x)
                      (\<lambda>data'. Inr (env', msg\<lparr>msg_data := data'\<rparr>))
         else Inr (env', msg))"

text \<open>Little-endian fields.\<close>

function read_ule_loop :: "u8 list \<Rightarrow> nat \<Rightarrow> nat \<Rightarrow> nat \<Rightarrow> u64 \<Rightarrow> u64 ub" where
  "read_ule_loop data byte_offset len shift x =
     (if 8 \<le> len then
        bind_ub (peek data (int byte_offset)) (\<lambda>b.
        bind_ub (shl64 (ucast b) shift) (\<lambda>y.
          read_ule_loop data (byte_offset + 1) (len - 8) (shift + 8) (x OR y)))
      else if 0 < len then
        bind_ub (peek data (int byte_offset)) (\<lambda>b.
        bind_ub (shl64 (ucast b AND (push_bit len 1 - 1)) shift) (\<lambda>y. Inr (x OR y)))
      else Inr x)"
  by pat_completeness auto
termination
  by (relation "measure (\<lambda>(data, byte_offset, len, shift, x). len)") auto

definition read_ule_field :: "u8 list \<Rightarrow> u64 \<Rightarrow> u64 \<Rightarrow> u64 ub" where
  "read_ule_field data offset len =
     (let byte_offset = unat (drop_bit 3 offset); bit_offset = unat (offset AND 7);
          n = unat len
      in if len + (offset AND 7) \<le> 8 then
           bind_ub (peek data (int byte_offset)) (\<lambda>b.
             Inr (drop_bit bit_offset (ucast b) AND (push_bit n 1 - 1)))
         else if 0 < offset then
           bind_ub (peek data (int byte_offset)) (\<lambda>b.
             read_ule_loop data (byte_offset + 1) (n - (8 - bit_offset)) (8 - bit_offset)
               (drop_bit bit_offset (ucast b)))
         else read_ule_loop data byte_offset n 0 0)"

definition tmsg_read_ule :: "failenv \<Rightarrow> tmsg \<Rightarrow> u64 \<Rightarrow> u64 \<Rightarrow> (failenv \<times> u64) ub" where
  "tmsg_read_ule env msg offset len =
     (let (env', ok) = boundsp env msg offset len
      in if ok then bind_ub (read_ule_field (msg_data msg) offset len) (\<lambda>x. Inr (env', x))
         else Inr (env', 0))"

function write_ule_loop :: "u8 list \<Rightarrow> nat \<Rightarrow> nat \<Rightarrow> nat \<Rightarrow> u64 \<Rightarrow> u8 list ub" where
  "write_ule_loop data byte_offset len shift x =
     (if 8 \<le> len then
        bind_ub (shr64 x shift) (\<lambda>y.
        bind_ub (poke data (int byte_offset) (ucast y)) (\<lambda>data'.
          write_ule_loop data' (byte_offset + 1) (len - 8) (shift + 8) x))
      else if 0 < len then
        bind_ub (peek data (int byte_offset)) (\<lambda>b.
        bind_ub (shr64 x shift) (\<lambda>y.
          poke data (int byte_offset) (ucast ((ucast b AND NOT (push_bit len 1 - 1)) OR y))))
      else Inr data)"
  by pat_completeness auto
termination
  by (relation "measure (\<lambda>(data, byte_offset, len, shift, x). len)") auto

definition write_ule_field :: "u8 list \<Rightarrow> u64 \<Rightarrow> u64 \<Rightarrow> u64 \<Rightarrow> u8 list ub" where
  "write_ule_field data offset len x =
     (let byte_offset = unat (drop_bit 3 offset); bit_offset = unat (offset AND 7);
          n = unat len
      in if len + (offset AND 7) \<le> 8 then
           bind_ub (peek data (int byte_offset)) (\<lambda>b.
             poke data (int byte_offset)
               (ucast ((ucast b AND NOT (push_bit bit_offset (push_bit n 1 - 1)))
                        OR push_bit bit_offset x)))
         else if 0 < bit_offset then
           bind_ub (peek data (int byte_offset)) (\<lambda>b.
           bind_ub (poke data (int byte_offset)
               (ucast ((ucast b AND (push_bit bit_offset 1 - 1)) OR push_bit bit_offset x))) (\<lambda>data'.
             write_ule_loop data' (byte_offset + 1) (n - (8 - bit_offset)) (8 - bit_offset) x))
         else write_ule_loop data byte_offset n 0 x)"

definition tmsg_write_ule ::
  "failenv \<Rightarrow> tmsg \<Rightarrow> u64 \<Rightarrow> u64 \<Rightarrow> u64 \<Rightarrow> (failenv \<times> tmsg) ub" where
  "tmsg_write_ule env msg offset len x =
     (let (env', ok) = boundsp env msg offset len
      in if ok then bind_ub (write_ule_field (msg_data msg) offset len x)
                      (\<lambda>data'. Inr (env', msg\<lparr>msg_data := data'\<rparr>))
         else Inr (env', msg))"

text \<open>The signed variants: reads convert, writes pass the bits on.\<close>

definition tmsg_read_be :: "failenv \<Rightarrow> tmsg \<Rightarrow> u64 \<Rightarrow> u64 \<Rightarrow> (failenv \<times> int) ub" where
  "tmsg_read_be env msg offset len =
     bind_ub (tmsg_read_ube env msg offset len) (\<lambda>(env', x).
       bind_ub (u2s x len) (\<lambda>v. Inr (env', v)))"

definition tmsg_read_le :: "failenv \<Rightarrow> tmsg \<Rightarrow> u64 \<Rightarrow> u64 \<Rightarrow> (failenv \<times> int) ub" where
  "tmsg_read_le env msg offset len =
     bind_ub (tmsg_read_ule env msg offset len) (\<lambda>(env', x).
       bind_ub (u2s x len) (\<lambda>v. Inr (env', v)))"

definition tmsg_write_be :: "failenv \<Rightarrow> tmsg \<Rightarrow> u64 \<Rightarrow> u64 \<Rightarrow> int \<Rightarrow> (failenv \<times> tmsg) ub" where
  "tmsg_write_be env msg offset len v = tmsg_write_ube env msg offset len (word_of_int v)"

definition tmsg_write_le :: "failenv \<Rightarrow> tmsg \<Rightarrow> u64 \<Rightarrow> u64 \<Rightarrow> int \<Rightarrow> (failenv \<times> tmsg) ub" where
  "tmsg_write_le env msg offset len v = tmsg_write_ule env msg offset len (word_of_int v)"

declare read_ule_loop.simps [simp del] write_ule_loop.simps [simp del]
declare read_ube_loop.simps [simp del] write_ube_loop.simps [simp del]

lemma unat_and_7: "unat (x AND 7) = unat x mod 8" for x :: u64
proof -
  have "x AND 7 = take_bit 3 x" by (simp add: take_bit_eq_mask mask_eq_exp_minus_1)
  then show ?thesis by (simp add: take_bit_eq_mod unat_mod_distrib)
qed

lemma unat_drop_3: "unat (drop_bit 3 x) = unat x div 8" for x :: u64
  by (simp add: drop_bit_eq_div unat_div_distrib)

definition be_bit :: "u8 list \<Rightarrow> nat \<Rightarrow> bool" where
  "be_bit data k = bit (data ! (k div 8)) (7 - k mod 8)"

lemma be_bit_in_byte:
  assumes "8 * bo \<le> k" and "k < 8 * bo + 8" and "j = 8 * bo + 7 - k"
  shows "be_bit data k = bit (data ! bo) j"
proof -
  from assms(1,2) obtain p where "k = 8 * bo + p" "p < 8"
    by (metis add_less_cancel_left le_Suc_ex)
  with assms(3) show ?thesis by (simp add: be_bit_def)
qed

lemma loop_byte_be:
  assumes full: "8 \<le> n"
  shows "bit (x OR push_bit (n - 8) (ucast (data ! bo) :: u64)) i \<or> i < 64 \<and> i < n - 8 \<and> be_bit data (8 * (bo + 1) + (n - 8) - 1 - i) \<longleftrightarrow>
    bit x i \<or> i < 64 \<and> i < n \<and> be_bit data (8 * bo + n - 1 - i)"
proof (cases "i < n - 8")
  case True
  then have "8 * (bo + 1) + (n - 8) - 1 - i = 8 * bo + n - 1 - i" using assms by simp
  with True show ?thesis
    by (auto simp: bit_or_iff bit_push_bit_iff)
next
  case False
  show ?thesis
  proof (cases "i < n")
    case True
    then have "be_bit data (8 * bo + n - 1 - i) = bit (data ! bo) (i - (n - 8))"
      using False assms by (intro be_bit_in_byte) arith+
    with True False show ?thesis
      by (auto simp: bit_or_iff bit_push_bit_iff bit_ucast_iff)
  next
    case ni: False
    then have "\<not> bit (data ! bo) (i - (n - 8))"
      using assms by (intro bit_u8_high) simp
    with False ni show ?thesis
      by (auto simp: bit_or_iff bit_push_bit_iff bit_ucast_iff)
  qed
qed

lemma last_byte_be:
  assumes "0 < n" "n < 8"
  shows "bit (drop_bit (8 - n) (ucast (data ! bo) :: u64)) i \<longleftrightarrow> i < 64 \<and> i < n \<and> be_bit data (8 * bo + n - 1 - i)"
proof (cases "i < n")
  case True
  with assms have "be_bit data (8 * bo + n - 1 - i) = bit (data ! bo) (8 - n + i)"
    by (intro be_bit_in_byte) arith+
  with True assms show ?thesis by (auto simp: bit_drop_bit_eq bit_ucast_iff)
next
  case False
  then have "\<not> bit (data ! bo) (8 - n + i)"
    using assms by (intro bit_u8_high) simp
  with False show ?thesis by (auto simp: bit_drop_bit_eq bit_ucast_iff)
qed

lemma read_ube_loop_bits:
  "8 * bo + n \<le> 8 * length data \<Longrightarrow> n \<le> 64 \<Longrightarrow>
   \<exists>r. read_ube_loop data bo n x = Inr r \<and>
     (\<forall>i. bit r i \<longleftrightarrow> bit x i \<or> i < 64 \<and> i < n \<and> be_bit data (8 * bo + n - 1 - i))"
proof (induction data bo n x rule: read_ube_loop.induct)
  case (1 data bo n x)
  consider (full) "8 \<le> n" | (part) "0 < n" "n < 8" | (none) "n = 0" by linarith
  then show ?case
  proof cases
    case full
    with "1.prems" have bo: "bo < length data" by linarith
    let ?x = "x OR push_bit (n - 8) (ucast (data ! bo))"
    have "peek data (int bo) = Inr (data ! bo)"
      "shl64 (ucast (data ! bo)) (n - 8) = Inr (push_bit (n - 8) (ucast (data ! bo)))"
      "8 * (bo + 1) + (n - 8) \<le> 8 * length data" "n - 8 \<le> 64"
      using full "1.prems" bo by simp_all
    from "1.IH"(1) [OF full this] obtain r where
      r: "read_ube_loop data (bo + 1) (n - 8) ?x = Inr r"
      and bits: "\<And>i. bit r i \<longleftrightarrow> bit ?x i \<or> i < 64 \<and> i < n - 8 \<and>
          be_bit data (8 * (bo + 1) + (n - 8) - 1 - i)"
      by auto
    have "bit r i \<longleftrightarrow> bit x i \<or> i < 64 \<and> i < n \<and> be_bit data (8 * bo + n - 1 - i)" for i
      unfolding bits by (rule loop_byte_be [OF full])
    with r full bo "1.prems"(2) show ?thesis by (subst read_ube_loop.simps) simp
  next
    case part
    with "1.prems" have bo: "bo < length data" by linarith
    note last_byte_be [OF part, of data bo]
    with part bo show ?thesis
      by (subst read_ube_loop.simps) (simp add: bit_or_iff)
  next
    case none
    then show ?thesis by (subst read_ube_loop.simps) simp
  qed
qed


lemma one_byte_iff:
  fixes offset len :: u64
  assumes "unat offset + unat len < 2 ^ 64"
  shows "len + (offset AND 7) \<le> 8 \<longleftrightarrow> unat len + unat offset mod 8 \<le> 8"
proof -
  have "unat len + unat (offset AND 7) < 2 ^ 64"
    using assms mod_less_eq_dividend [of "unat offset" 8] unfolding unat_and_7 by linarith
  then have "unat (len + (offset AND 7)) = unat len + unat offset mod 8"
    by (simp add: unat_add_lem [THEN iffD1] unat_and_7)
  then show ?thesis by (simp add: word_le_nat_alt)
qed

lemma field_split:
  fixes offset len :: u64
  assumes "unat offset + unat len \<le> 8 * L" and "L < 2 ^ 61"
  obtains bo s n where "unat (drop_bit 3 offset) = bo" "unat (offset AND 7) = s" "unat len = n"
    "unat offset = 8 * bo + s" "s < 8" "8 * bo + s + n \<le> 8 * L"
    "len + (offset AND 7) \<le> 8 \<longleftrightarrow> n + s \<le> 8"
proof (rule that)
  show "unat (drop_bit 3 offset) = unat offset div 8" "unat (offset AND 7) = unat offset mod 8"
    by (simp_all add: unat_and_7 unat_drop_3)
  show "(len + (offset AND 7) \<le> 8) = (unat len + unat offset mod 8 \<le> 8)"
    using assms by (intro one_byte_iff) simp
qed (use assms in simp_all)

lemma read_ube_field_bits:
  assumes "unat offset + unat len \<le> 8 * length data" and "length data < 2 ^ 61" and "0 < unat len"
    and "unat len \<le> 64"
  shows "\<exists>r. read_ube_field data offset len = Inr r \<and>
    (\<forall>i. bit r i \<longleftrightarrow> i < 64 \<and> i < unat len \<and> be_bit data (unat offset + unat len - 1 - i))"
proof -
  obtain bo s n where w [simp]: "unat (drop_bit 3 offset) = bo" "unat (offset AND 7) = s" "unat len = n"
      "unat offset = 8 * bo + s"
    and s: "s < 8" and le: "8 * bo + s + n \<le> 8 * length data"
    and one_iff: "len + (offset AND 7) \<le> 8 \<longleftrightarrow> n + s \<le> 8"
    using field_split [OF assms(1,2)] by blast
  have n: "0 < n" "n \<le> 64" using assms(3,4) by simp_all
  consider (one) "n + s \<le> 8" | (high) "8 < n + s" "0 < s" | (aligned) "8 < n" "s = 0" by linarith
  then show ?thesis
  proof cases
    case one
    with le n have bo: "bo < length data" by linarith
    have "bit (drop_bit (8 - s - n) (ucast (data ! bo)) AND mask n :: u64) i \<longleftrightarrow>
        i < 64 \<and> i < n \<and> be_bit data (8 * bo + s + n - 1 - i)" for i
    proof (cases "i < n")
      case True
      with one have "be_bit data (8 * bo + s + n - 1 - i) = bit (data ! bo) (8 - s - n + i)"
        by (intro be_bit_in_byte) arith+
      with True one show ?thesis
        by (auto simp: bit_and_iff bit_mask_iff bit_drop_bit_eq bit_ucast_iff)
    qed (simp add: bit_and_iff bit_mask_iff)
    with bo one one_iff show ?thesis by (simp add: read_ube_field_def Let_def)
  next
    case high
    with le have bo: "bo < length data" by linarith
    define m where "m = n - (8 - s)"
    with high s have n_eq: "n = m + (8 - s)" and end_eq: "8 * bo + s + n = 8 * bo + 8 + m" by simp_all
    let ?x = "push_bit m (ucast (data ! bo) AND mask (8 - s)) :: u64"
    have "8 * (bo + 1) + m \<le> 8 * length data" using le end_eq by simp
    from read_ube_loop_bits [OF this, of ?x] n(2) n_eq obtain r where
      r: "read_ube_loop data (bo + 1) m ?x = Inr r"
      and bits: "\<And>i. bit r i \<longleftrightarrow> bit ?x i \<or> i < 64 \<and> i < m \<and> be_bit data (8 * bo + 8 + m - 1 - i)"
      by (auto simp: add.commute)
    have first: "be_bit data (8 * bo + 8 + m - 1 - i) = bit (data ! bo) (i - m)" if "m \<le> i" "i < m + 8" for i
      using that by (intro be_bit_in_byte) arith+
    have "bit r i \<longleftrightarrow> i < 64 \<and> i < n \<and> be_bit data (8 * bo + 8 + m - 1 - i)" for i
    proof (cases "i < m")
      case True
      then show ?thesis by (auto simp: bits bit_push_bit_iff bit_and_iff n_eq)
    next
      case False
      with first [of i] s show ?thesis
        by (auto simp: bits bit_push_bit_iff bit_and_iff bit_mask_iff bit_ucast_iff n_eq)
    qed
    with r high bo one_iff n(2) s show ?thesis
      by (simp add: read_ube_field_def Let_def m_def end_eq)
  next
    case aligned
    with le have "8 * bo + n \<le> 8 * length data" by linarith
    from read_ube_loop_bits [OF this n(2), of 0] aligned one_iff show ?thesis
      by (simp add: read_ube_field_def Let_def)
  qed
qed

lemma be_bit_update:
  assumes "bo < length data"
  shows "be_bit (data[bo := b]) k =
    (if 8 * bo \<le> k \<and> k < 8 * bo + 8 then bit b (8 * bo + 7 - k) else be_bit data k)"
proof (cases "8 * bo \<le> k \<and> k < 8 * bo + 8")
  case True
  with be_bit_in_byte [of bo k _ "data[bo := b]"] assms show ?thesis by simp
next
  case False
  then have "k div 8 \<noteq> bo" by auto
  with False show ?thesis by (auto simp: be_bit_def)
qed

definition field_be :: "u8 list \<Rightarrow> u8 list \<Rightarrow> nat \<Rightarrow> nat \<Rightarrow> u64 \<Rightarrow> bool" where
  "field_be data' data off n x \<longleftrightarrow> length data' = length data \<and>
     (\<forall>k. be_bit data' k \<longleftrightarrow> (if off \<le> k \<and> k < off + n then bit x (off + n - 1 - k) else be_bit data k))"

lemma write_ube_loop_bits:
  "8 * bo + n \<le> 8 * length data \<Longrightarrow> n \<le> 64 \<Longrightarrow>
   \<exists>data'. write_ube_loop data bo n x = Inr data' \<and> field_be data' data (8 * bo) n x"
proof (induction data bo n x rule: write_ube_loop.induct)
  case (1 data bo n x)
  consider (full) "8 \<le> n" | (part) "0 < n" "n < 8" | (none) "n = 0" by linarith
  then show ?case
  proof cases
    case full
    with "1.prems" have bo: "bo < length data" by linarith
    let ?d = "data[bo := ucast (drop_bit (n - 8) x)]"
    have "shr64 x (n - 8) = Inr (drop_bit (n - 8) x)"
      "poke data (int bo) (ucast (drop_bit (n - 8) x)) = Inr ?d"
      "8 * (bo + 1) + (n - 8) \<le> 8 * length ?d" "n - 8 \<le> 64"
      using full "1.prems" bo by simp_all
    from "1.IH"(1) [OF full this] obtain d' where
      d': "write_ube_loop ?d (bo + 1) (n - 8) x = Inr d'" "field_be d' ?d (8 * (bo + 1)) (n - 8) x"
      by auto
    have "field_be d' data (8 * bo) n x"
      unfolding field_be_def
    proof (intro conjI allI)
      show "length d' = length data" using d'(2) by (simp add: field_be_def)
      fix k
      show "be_bit d' k = (if 8 * bo \<le> k \<and> k < 8 * bo + n then bit x (8 * bo + n - 1 - k) else be_bit data k)"
        using d'(2) bo full
        by (auto simp: field_be_def be_bit_update bit_ucast_iff bit_drop_bit_eq add.commute [of n])
    qed
    with d'(1) full bo "1.prems"(2) show ?thesis by (subst write_ube_loop.simps) simp
  next
    case part
    with "1.prems" have bo: "bo < length data" by linarith
    let ?b = "ucast ((ucast (data ! bo) AND mask (8 - n)) OR push_bit (8 - n) x) :: u8"
    have "field_be (data[bo := ?b]) data (8 * bo) n x"
      unfolding field_be_def
    proof (intro conjI allI)
      fix k
      have "be_bit data k = bit (data ! bo) (8 * bo + 7 - k)" if "8 * bo \<le> k" "k < 8 * bo + 8"
        using that by (intro be_bit_in_byte) simp_all
      then show "be_bit (data[bo := ?b]) k =
          (if 8 * bo \<le> k \<and> k < 8 * bo + n then bit x (8 * bo + n - 1 - k) else be_bit data k)"
        using part bo
        by (auto simp: be_bit_update bit_ucast_iff bit_or_iff bit_and_iff bit_mask_iff bit_push_bit_iff)
    qed simp
    with part bo show ?thesis by (subst write_ube_loop.simps) simp
  next
    case none
    then show ?thesis by (subst write_ube_loop.simps) (auto simp: field_be_def)
  qed
qed


lemma fits_bits: "take_bit n x = x \<Longrightarrow> bit x i \<Longrightarrow> i < n" for x :: u64
  by (metis bit_take_bit_iff)

lemma field_be_byte:
  assumes "bo < length data" and "s + n \<le> 8"
    and "\<And>p. p < 8 \<Longrightarrow> bit b (7 - p) =
      (if s \<le> p \<and> p < s + n then bit x (s + n - 1 - p) else bit (data ! bo) (7 - p))"
  shows "field_be (data[bo := b]) data (8 * bo + s) n x"
  unfolding field_be_def
proof (intro conjI allI)
  fix k
  show "be_bit (data[bo := b]) k = (if 8 * bo + s \<le> k \<and> k < 8 * bo + s + n
      then bit x (8 * bo + s + n - 1 - k) else be_bit data k)"
  proof (cases "8 * bo \<le> k \<and> k < 8 * bo + 8")
    case True
    then obtain p where p: "k = 8 * bo + p" "p < 8" by (metis add_less_cancel_left le_Suc_ex)
    moreover have "be_bit data k = bit (data ! bo) (7 - p)"
      using p by (intro be_bit_in_byte) simp_all
    ultimately show ?thesis using assms(1) assms(3) [of p] by (simp add: be_bit_update)
  next
    case False
    with assms(1,2) show ?thesis by (auto simp: be_bit_update)
  qed
qed simp

lemma field_be_append:
  assumes "field_be d1 d0 off n (drop_bit m x)" and "field_be d2 d1 (off + n) m x"
  shows "field_be d2 d0 off (n + m) x"
proof -
  have "be_bit d2 k = (if off \<le> k \<and> k < off + (n + m) then bit x (off + (n + m) - 1 - k) else be_bit d0 k)" for k
  proof -
    have 1: "be_bit d1 k = (if off \<le> k \<and> k < off + n then bit x (m + (off + n - 1 - k)) else be_bit d0 k)"
      using assms(1) by (simp add: field_be_def bit_drop_bit_eq)
    have 2: "be_bit d2 k = (if off + n \<le> k \<and> k < off + n + m then bit x (off + n + m - 1 - k) else be_bit d1 k)"
      using assms(2) by (simp add: field_be_def)
    consider "k < off" | "off \<le> k" "k < off + n" | "off + n \<le> k" by linarith
    then show ?thesis
    proof cases
      case 2
      then have "m + (off + n - 1 - k) = off + (n + m) - 1 - k" by simp
      with 2 show ?thesis unfolding \<open>be_bit d2 k = _\<close> 1 by (simp only: if_True if_False) auto
    qed (auto simp: 1 2 add.assoc)
  qed
  with assms show ?thesis by (simp add: field_be_def)
qed

text \<open>A field inside one byte, and the part of a field in its first byte.\<close>

lemma field_be_inside:
  assumes "bo < length data" "s + n + t = 8" "\<And>i. bit x i \<Longrightarrow> i < n"
  shows "field_be (data[bo := ucast ((ucast (data ! bo) AND NOT (push_bit t (mask n))) OR push_bit t x)]) data (8 * bo + s) n x"
proof (rule field_be_byte [OF assms(1)])
  let ?b = "ucast ((ucast (data ! bo) AND NOT (push_bit t (mask n))) OR push_bit t x) :: u8"
  fix p :: nat assume "p < 8"
  have b: "bit ?b j = (if t \<le> j \<and> j < t + n then bit x (j - t) else bit (data ! bo) j)" if "j < 8" for j
    using that assms(3) [of "j - t"]
    by (auto simp: bit_ucast_iff bit_or_iff bit_and_iff bit_not_iff bit_push_bit_iff bit_mask_iff)
  have c: "(s \<le> p \<and> p < s + n) = (t \<le> 7 - p \<and> 7 - p < t + n)" and e: "s + n - 1 - p = 7 - p - t"
    using assms(2) \<open>p < 8\<close> by arith+
  show "bit ?b (7 - p) = (if s \<le> p \<and> p < s + n then bit x (s + n - 1 - p) else bit (data ! bo) (7 - p))"
    unfolding c e using b [of "7 - p"] by simp
qed (use assms(2) in simp)

lemma field_be_first:
  assumes "bo < length data" "s + t = 8" "\<And>i. bit x i \<Longrightarrow> i < m + t"
  shows "field_be (data[bo := ucast ((ucast (data ! bo) AND NOT (mask t)) OR drop_bit m x)]) data (8 * bo + s) t (drop_bit m x)"
proof (rule field_be_byte [OF assms(1)])
  let ?b = "ucast ((ucast (data ! bo) AND NOT (mask t)) OR drop_bit m x) :: u8"
  fix p :: nat assume "p < 8"
  have b: "bit ?b j = (if j < t then bit x (m + j) else bit (data ! bo) j)" if "j < 8" for j
    using that assms(3) [of "m + j"]
    by (auto simp: bit_ucast_iff bit_or_iff bit_and_iff bit_not_iff bit_drop_bit_eq bit_mask_iff)
  have c: "(s \<le> p \<and> p < s + t) = (7 - p < t)" and e: "s + t - 1 - p = 7 - p"
    using assms(2) \<open>p < 8\<close> by arith+
  show "bit ?b (7 - p) = (if s \<le> p \<and> p < s + t then bit (drop_bit m x) (s + t - 1 - p) else bit (data ! bo) (7 - p))"
    unfolding c e using b [of "7 - p"] by (simp add: bit_drop_bit_eq)
qed (use assms(2) in simp)

lemma write_ube_field_bits:
  assumes "unat offset + unat len \<le> 8 * length data" and "length data < 2 ^ 61" and "0 < unat len"
    and "unat len \<le> 64" and "take_bit (unat len) x = x"
  shows "\<exists>data'. write_ube_field data offset len x = Inr data' \<and>
    field_be data' data (unat offset) (unat len) x"
proof -
  obtain bo s n where w [simp]: "unat (drop_bit 3 offset) = bo" "unat (offset AND 7) = s" "unat len = n"
      "unat offset = 8 * bo + s"
    and s: "s < 8" and le: "8 * bo + s + n \<le> 8 * length data"
    and one_iff: "len + (offset AND 7) \<le> 8 \<longleftrightarrow> n + s \<le> 8"
    using field_split [OF assms(1,2)] by blast
  have n: "0 < n" "n \<le> 64" and fits: "\<And>i. bit x i \<Longrightarrow> i < n"
    using assms(3-5) fits_bits [of n x] by simp_all
  consider (one) "n + s \<le> 8" | (high) "8 < n + s" "0 < s" | (aligned) "8 < n" "s = 0" by linarith
  then show ?thesis
  proof cases
    case one
    with le n have bo: "bo < length data" by linarith
    define t where "t = 8 - s - n"
    with one have "s + n + t = 8" by simp
    from field_be_inside [OF bo this fits] bo one one_iff show ?thesis by (simp add: write_ube_field_def Let_def t_def)
  next
    case high
    with le have bo: "bo < length data" by linarith
    define m t where "m = n - (8 - s)" and "t = 8 - s"
    with high s have t: "s + t = 8" "n = m + t" by simp_all
    let ?b = "ucast ((ucast (data ! bo) AND NOT (mask t)) OR drop_bit m x) :: u8"
    have 1: "field_be (data[bo := ?b]) data (8 * bo + s) t (drop_bit m x)" using field_be_first [OF bo t(1)] fits t(2) by blast
    have "8 * (bo + 1) + m \<le> 8 * length (data[bo := ?b])" using le t by simp
    from write_ube_loop_bits [OF this, of x] n(2) t obtain d' where
      d': "write_ube_loop (data[bo := ?b]) (bo + 1) m x = Inr d'"
        "field_be d' (data[bo := ?b]) (8 * (bo + 1)) m x" by auto
    moreover have "8 * (bo + 1) = 8 * bo + s + t" using t by simp
    ultimately have "field_be d' data (8 * bo + s) (t + m) x"
      using field_be_append [OF 1] by metis
    moreover have "t + m = n" "n - t = m" using t by simp_all
    ultimately show ?thesis
      using d'(1) bo high one_iff n(2) s t(1) by (simp add: write_ube_field_def Let_def flip: t_def)
  next
    case aligned
    with le have "8 * bo + n \<le> 8 * length data" by linarith
    from write_ube_loop_bits [OF this n(2), of x] aligned one_iff show ?thesis
      by (simp add: write_ube_field_def Let_def)
  qed
qed

subsection \<open>Little-endian fields\<close>

definition le_bit :: "u8 list \<Rightarrow> nat \<Rightarrow> bool" where
  "le_bit data k = bit (data ! (k div 8)) (k mod 8)"

lemma le_bit_in_byte: "p < 8 \<Longrightarrow> le_bit data (8 * bo + p) = bit (data ! bo) p"
  by (simp add: le_bit_def)

lemma read_ule_loop_bits:
  "8 * bo + n \<le> 8 * length data \<Longrightarrow> sh + n \<le> 64 \<Longrightarrow>
   \<exists>r. read_ule_loop data bo n sh x = Inr r \<and>
     (\<forall>i. bit r i \<longleftrightarrow> bit x i \<or> i < 64 \<and> sh \<le> i \<and> i < sh + n \<and> le_bit data (8 * bo + (i - sh)))"
proof (induction data bo n sh x rule: read_ule_loop.induct)
  case (1 data bo n sh x)
  consider (full) "8 \<le> n" | (part) "0 < n" "n < 8" | (none) "n = 0" by linarith
  then show ?case
  proof cases
    case full
    with "1.prems" have bo: "bo < length data" by linarith
    let ?x = "x OR push_bit sh (ucast (data ! bo))"
    have "peek data (int bo) = Inr (data ! bo)"
      "shl64 (ucast (data ! bo)) sh = Inr (push_bit sh (ucast (data ! bo)))"
      "8 * (bo + 1) + (n - 8) \<le> 8 * length data" "sh + 8 + (n - 8) \<le> 64"
      using full "1.prems" bo by simp_all
    from "1.IH"(1) [OF full this] obtain r where
      r: "read_ule_loop data (bo + 1) (n - 8) (sh + 8) ?x = Inr r"
      and bits: "\<And>i. bit r i \<longleftrightarrow> bit ?x i \<or> i < 64 \<and> sh + 8 \<le> i \<and> i < sh + 8 + (n - 8) \<and>
          le_bit data (8 * (bo + 1) + (i - (sh + 8)))"
      by auto
    have "bit r i \<longleftrightarrow> bit x i \<or> i < 64 \<and> sh \<le> i \<and> i < sh + n \<and> le_bit data (8 * bo + (i - sh))" for i
    proof (cases "sh + 8 \<le> i")
      case True
      then have "8 * (bo + 1) + (i - (sh + 8)) = 8 * bo + (i - sh)" by simp
      with True full bit_u8_high [of "i - sh" "data ! bo"] show ?thesis
        by (auto simp: bits bit_or_iff bit_push_bit_iff bit_ucast_iff)
    next
      case False
      with full le_bit_in_byte [of "i - sh" data bo] show ?thesis
        by (auto simp: bits bit_or_iff bit_push_bit_iff bit_ucast_iff)
    qed
    with r full bo "1.prems"(2) show ?thesis by (subst read_ule_loop.simps) simp
  next
    case part
    with "1.prems" have bo: "bo < length data" by linarith
    have "bit (push_bit sh (ucast (data ! bo) AND mask n) :: u64) i \<longleftrightarrow>
       i < 64 \<and> sh \<le> i \<and> i < sh + n \<and> le_bit data (8 * bo + (i - sh))" for i
      using part le_bit_in_byte [of "i - sh" data bo]
      by (auto simp: bit_push_bit_iff bit_and_iff bit_mask_iff bit_ucast_iff)
    with part bo "1.prems"(2) show ?thesis
      by (subst read_ule_loop.simps) (simp add: bit_or_iff del: push_bit_and)
  next
    case none
    then show ?thesis by (subst read_ule_loop.simps) auto
  qed
qed

lemma read_ule_field_bits:
  assumes "unat offset + unat len \<le> 8 * length data" and "length data < 2 ^ 61" and "0 < unat len"
    and "unat len \<le> 64"
  shows "\<exists>r. read_ule_field data offset len = Inr r \<and>
    (\<forall>i. bit r i \<longleftrightarrow> i < 64 \<and> i < unat len \<and> le_bit data (unat offset + i))"
proof -
  obtain bo s n where w [simp]: "unat (drop_bit 3 offset) = bo" "unat (offset AND 7) = s" "unat len = n"
      "unat offset = 8 * bo + s"
    and s: "s < 8" and le: "8 * bo + s + n \<le> 8 * length data"
    and one_iff: "len + (offset AND 7) \<le> 8 \<longleftrightarrow> n + s \<le> 8"
    using field_split [OF assms(1,2)] by blast
  have n: "0 < n" "n \<le> 64" using assms(3,4) by simp_all
  consider (one) "n + s \<le> 8" | (high) "8 < n + s" "0 < offset" | (start) "8 < n" "offset = 0"
    by (metis add.right_neutral add_eq_0_iff_both_eq_0 leI unat_0 w(4) word_neq_0_conv)
  then show ?thesis
  proof cases
    case one
    with le n have bo: "bo < length data" by linarith
    have "bit (drop_bit s (ucast (data ! bo)) AND mask n :: u64) i \<longleftrightarrow>
        i < 64 \<and> i < n \<and> le_bit data (8 * bo + s + i)" for i
      using one le_bit_in_byte [of "s + i" data bo]
      by (auto simp: bit_and_iff bit_mask_iff bit_drop_bit_eq bit_ucast_iff add.assoc)
    with bo one one_iff show ?thesis by (simp add: read_ule_field_def Let_def)
  next
    case high
    with le have bo: "bo < length data" by linarith
    define t m where "t = 8 - s" and "m = n - t"
    with high s have t: "s + t = 8" "t + m = n" by simp_all
    let ?x = "drop_bit s (ucast (data ! bo)) :: u64"
    have "8 * (bo + 1) + m \<le> 8 * length data" using le t by simp
    from read_ule_loop_bits [OF this, of t ?x] n(2) t obtain r where
      r: "read_ule_loop data (bo + 1) m t ?x = Inr r"
      and bits: "\<And>i. bit r i \<longleftrightarrow> bit ?x i \<or> i < 64 \<and> t \<le> i \<and> i < t + m \<and> le_bit data (8 * (bo + 1) + (i - t))"
      by auto
    have "bit r i \<longleftrightarrow> i < 64 \<and> i < n \<and> le_bit data (8 * bo + s + i)" for i
    proof (cases "t \<le> i")
      case True
      then have "8 * (bo + 1) + (i - t) = 8 * bo + s + i" using t by simp
      with True t bit_u8_high [of "s + i" "data ! bo"] show ?thesis
        by (auto simp: bits bit_drop_bit_eq bit_ucast_iff)
    next
      case False
      with t le_bit_in_byte [of "s + i" data bo] show ?thesis
        by (auto simp: bits bit_drop_bit_eq bit_ucast_iff add.assoc)
    qed
    with r high bo one_iff show ?thesis
      by (simp add: read_ule_field_def Let_def flip: t_def m_def)
  next
    case start
    then have "bo = 0" "s = 0" using w(4) by simp_all
    with le have "8 * bo + n \<le> 8 * length data" by linarith
    from read_ule_loop_bits [OF this, of 0 0] n(2) start one_iff \<open>s = 0\<close> \<open>bo = 0\<close> show ?thesis
      by (simp add: read_ule_field_def Let_def)
  qed
qed


lemma le_bit_update:
  assumes "bo < length data"
  shows "le_bit (data[bo := b]) k =
    (if 8 * bo \<le> k \<and> k < 8 * bo + 8 then bit b (k - 8 * bo) else le_bit data k)"
proof (cases "8 * bo \<le> k \<and> k < 8 * bo + 8")
  case True
  then obtain p where "k = 8 * bo + p" "p < 8" by (metis add_less_cancel_left le_Suc_ex)
  with assms show ?thesis by (simp add: le_bit_in_byte)
next
  case False
  then have "k div 8 \<noteq> bo" by auto
  with False show ?thesis by (auto simp: le_bit_def)
qed

definition field_le :: "u8 list \<Rightarrow> u8 list \<Rightarrow> nat \<Rightarrow> nat \<Rightarrow> u64 \<Rightarrow> bool" where
  "field_le data' data off n x \<longleftrightarrow> length data' = length data \<and>
     (\<forall>k. le_bit data' k \<longleftrightarrow> (if off \<le> k \<and> k < off + n then bit x (k - off) else le_bit data k))"

lemma field_le_byte:
  assumes "bo < length data" and "s + n \<le> 8"
    and "\<And>p. p < 8 \<Longrightarrow> bit b p =
      (if s \<le> p \<and> p < s + n then bit x (p - s) else bit (data ! bo) p)"
  shows "field_le (data[bo := b]) data (8 * bo + s) n x"
  unfolding field_le_def
proof (intro conjI allI)
  fix k
  show "le_bit (data[bo := b]) k = (if 8 * bo + s \<le> k \<and> k < 8 * bo + s + n
      then bit x (k - (8 * bo + s)) else le_bit data k)"
  proof (cases "8 * bo \<le> k \<and> k < 8 * bo + 8")
    case True
    then obtain p where p: "k = 8 * bo + p" "p < 8" by (metis add_less_cancel_left le_Suc_ex)
    then show ?thesis using assms(1) assms(3) [of p] by (simp add: le_bit_update le_bit_in_byte)
  next
    case False
    with assms(1,2) show ?thesis by (auto simp: le_bit_update)
  qed
qed simp

lemma field_le_append:
  assumes "field_le d1 d0 off n x" and "field_le d2 d1 (off + n) m (drop_bit n x)"
  shows "field_le d2 d0 off (n + m) x"
proof -
  have "le_bit d2 k = (if off \<le> k \<and> k < off + (n + m) then bit x (k - off) else le_bit d0 k)" for k
    using assms by (cases "off + n \<le> k") (auto simp: field_le_def bit_drop_bit_eq)
  with assms show ?thesis by (simp add: field_le_def)
qed

lemma field_le_0: "field_le data data off 0 x"
  by (auto simp: field_le_def)

lemma write_ule_loop_bits:
  "8 * bo + n \<le> 8 * length data \<Longrightarrow> sh + n \<le> 64 \<Longrightarrow> (\<And>i. bit x i \<Longrightarrow> i < sh + n) \<Longrightarrow>
   \<exists>data'. write_ule_loop data bo n sh x = Inr data' \<and> field_le data' data (8 * bo) n (drop_bit sh x)"
proof (induction data bo n sh x rule: write_ule_loop.induct)
  case (1 data bo n sh x)
  consider (full) "8 \<le> n" | (part) "0 < n" "n < 8" | (none) "n = 0" by linarith
  then show ?case
  proof cases
    case full
    with "1.prems" have bo: "bo < length data" by linarith
    let ?d = "data[bo := ucast (drop_bit sh x)]"
    have "8 * (bo + 1) + (n - 8) \<le> 8 * length ?d" "\<And>i. bit x i \<Longrightarrow> i < sh + 8 + (n - 8)"
      using full "1.prems" by simp_all
    with "1.IH"(1) [OF full, of _ ?d] bo full "1.prems"(2) obtain d' where
      d': "write_ule_loop ?d (bo + 1) (n - 8) (sh + 8) x = Inr d'"
        "field_le d' ?d (8 * (bo + 1)) (n - 8) (drop_bit (sh + 8) x)"
      by auto
    have "field_le ?d data (8 * bo + 0) 8 (drop_bit sh x)"
      by (rule field_le_byte [OF bo]) (auto simp: bit_ucast_iff bit_drop_bit_eq)
    from field_le_append [OF this, of d' "n - 8"] d'(2) full
    have "field_le d' data (8 * bo) n (drop_bit sh x)"
      by (simp add: add.commute)
    with d'(1) full bo "1.prems"(2) show ?thesis by (subst write_ule_loop.simps) simp
  next
    case part
    with "1.prems" have bo: "bo < length data" by linarith
    let ?b = "ucast ((ucast (data ! bo) AND NOT (mask n)) OR drop_bit sh x) :: u8"
    have "field_le (data[bo := ?b]) data (8 * bo + 0) n (drop_bit sh x)"
      using part
      by (intro field_le_byte [OF bo])
        (auto simp: bit_ucast_iff bit_or_iff bit_and_iff bit_not_iff bit_mask_iff bit_drop_bit_eq
          dest: "1.prems"(3))
    with part bo "1.prems"(2) show ?thesis by (subst write_ule_loop.simps) simp
  next
    case none
    then show ?thesis by (subst write_ule_loop.simps) (simp add: field_le_0)
  qed
qed

lemma write_ule_field_bits:
  assumes "unat offset + unat len \<le> 8 * length data" and "length data < 2 ^ 61" and "0 < unat len"
    and "unat len \<le> 64" and "take_bit (unat len) x = x"
  shows "\<exists>data'. write_ule_field data offset len x = Inr data' \<and>
    field_le data' data (unat offset) (unat len) x"
proof -
  obtain bo s n where w [simp]: "unat (drop_bit 3 offset) = bo" "unat (offset AND 7) = s" "unat len = n"
      "unat offset = 8 * bo + s"
    and s: "s < 8" and le: "8 * bo + s + n \<le> 8 * length data"
    and one_iff: "len + (offset AND 7) \<le> 8 \<longleftrightarrow> n + s \<le> 8"
    using field_split [OF assms(1,2)] by blast
  have n: "0 < n" "n \<le> 64" and fits: "\<And>i. bit x i \<Longrightarrow> i < n"
    using assms(3-5) fits_bits [of n x] by simp_all
  consider (one) "n + s \<le> 8" | (high) "8 < n + s" "0 < s" | (aligned) "8 < n" "s = 0" by linarith
  then show ?thesis
  proof cases
    case one
    with le n have bo: "bo < length data" by linarith
    let ?b = "ucast ((ucast (data ! bo) AND NOT (push_bit s (mask n))) OR push_bit s x) :: u8"
    have "field_le (data[bo := ?b]) data (8 * bo + s) n x"
      using one
      by (intro field_le_byte [OF bo])
        (auto simp: bit_ucast_iff bit_or_iff bit_and_iff bit_not_iff bit_mask_iff bit_push_bit_iff
          dest: fits)
    with bo one one_iff show ?thesis by (simp add: write_ule_field_def Let_def)
  next
    case high
    with le have bo: "bo < length data" by linarith
    define t m where "t = 8 - s" and "m = n - t"
    with high s have t: "s + t = 8" "t + m = n" by simp_all
    let ?b = "ucast ((ucast (data ! bo) AND mask s) OR push_bit s x) :: u8"
    have 1: "field_le (data[bo := ?b]) data (8 * bo + s) t x"
      using t
      by (intro field_le_byte [OF bo])
        (auto simp: bit_ucast_iff bit_or_iff bit_and_iff bit_mask_iff bit_push_bit_iff)
    have "8 * (bo + 1) + m \<le> 8 * length (data[bo := ?b])" "t + m \<le> 64" "\<And>i. bit x i \<Longrightarrow> i < t + m"
      using le t fits n(2) by simp_all
    from write_ule_loop_bits [OF this] obtain d' where
      d': "write_ule_loop (data[bo := ?b]) (bo + 1) m t x = Inr d'"
        "field_le d' (data[bo := ?b]) (8 * (bo + 1)) m (drop_bit t x)" by auto
    moreover have "8 * (bo + 1) = 8 * bo + s + t" using t by simp
    ultimately have "field_le d' data (8 * bo + s) (t + m) x"
      using field_le_append [OF 1] by metis
    with d'(1) bo high one_iff t(2) show ?thesis
      by (simp add: write_ule_field_def Let_def flip: t_def m_def)
  next
    case aligned
    with le have "8 * bo + n \<le> 8 * length data" by linarith
    from write_ule_loop_bits [OF this, of 0 x] n(2) fits aligned one_iff show ?thesis
      by (simp add: write_ule_field_def Let_def)
  qed
qed


subsection \<open>Messages\<close>

definition wf_tmsg :: "tmsg \<Rightarrow> bool" where
  "wf_tmsg msg \<longleftrightarrow> unat (msg_len msg) \<le> length (msg_data msg) \<and> length (msg_data msg) < 2 ^ 60"

definition field_in :: "tmsg \<Rightarrow> u64 \<Rightarrow> u64 \<Rightarrow> bool" where
  "field_in msg offset len \<longleftrightarrow>
     0 < unat len \<and> unat len \<le> 64 \<and> unat offset + unat len \<le> 8 * unat (msg_len msg)"

lemma boundsp_iff:
  assumes "wf_tmsg msg" and "unat offset + unat len < 2 ^ 64"
  shows "offset + len \<le> msg_len msg * 8 \<longleftrightarrow> unat offset + unat len \<le> 8 * unat (msg_len msg)"
proof -
  have "unat (offset + len) = unat offset + unat len"
    using assms(2) by (simp add: unat_add_lem [THEN iffD1])
  moreover have "unat (msg_len msg * 8) = 8 * unat (msg_len msg)"
    using assms(1) by (simp add: wf_tmsg_def unat_word_ariths)
  ultimately show ?thesis by (simp add: word_le_nat_alt)
qed

lemma boundsp_in: "wf_tmsg msg \<Longrightarrow> field_in msg offset len \<Longrightarrow> boundsp env msg offset len = (env, True)"
  by (subst boundsp_def, subst boundsp_iff) (auto simp: field_in_def wf_tmsg_def)

lemma field_in_data:
  "wf_tmsg msg \<Longrightarrow> field_in msg offset len \<Longrightarrow>
   unat offset + unat len \<le> 8 * length (msg_data msg) \<and> length (msg_data msg) < 2 ^ 61 \<and>
   0 < unat len \<and> unat len \<le> 64"
  by (auto simp: field_in_def wf_tmsg_def)

lemma tmsg_read_ube_in:
  assumes "wf_tmsg msg" and "field_in msg offset len"
  obtains r where "tmsg_read_ube env msg offset len = Inr (env, r)"
    and "\<And>i. bit r i \<longleftrightarrow> i < unat len \<and> be_bit (msg_data msg) (unat offset + unat len - 1 - i)"
proof -
  from read_ube_field_bits [of offset len "msg_data msg"] field_in_data [OF assms] obtain r where
    r: "read_ube_field (msg_data msg) offset len = Inr r"
      "\<And>i. bit r i \<longleftrightarrow> i < 64 \<and> i < unat len \<and> be_bit (msg_data msg) (unat offset + unat len - 1 - i)"
    by metis
  show thesis
  proof (rule that [of r])
    show "tmsg_read_ube env msg offset len = Inr (env, r)"
      using r(1) assms by (simp add: tmsg_read_ube_def boundsp_in)
    show "bit r i \<longleftrightarrow> i < unat len \<and> be_bit (msg_data msg) (unat offset + unat len - 1 - i)" for i
      using r(2) [of i] assms(2) by (auto simp: field_in_def)
  qed
qed

lemma tmsg_write_ube_in:
  assumes "wf_tmsg msg" and "field_in msg offset len" and "take_bit (unat len) x = x"
  obtains d where "tmsg_write_ube env msg offset len x = Inr (env, msg\<lparr>msg_data := d\<rparr>)"
    and "field_be d (msg_data msg) (unat offset) (unat len) x"
proof -
  from write_ube_field_bits [of offset len "msg_data msg" x] field_in_data [OF assms(1,2)] assms(3)
  obtain d where
    d: "write_ube_field (msg_data msg) offset len x = Inr d" "field_be d (msg_data msg) (unat offset) (unat len) x"
    by metis
  show thesis
    by (rule that [of d]) (use d assms in \<open>auto simp: tmsg_write_ube_def boundsp_in\<close>)
qed

lemma tmsg_read_ule_in:
  assumes "wf_tmsg msg" and "field_in msg offset len"
  obtains r where "tmsg_read_ule env msg offset len = Inr (env, r)"
    and "\<And>i. bit r i \<longleftrightarrow> i < unat len \<and> le_bit (msg_data msg) (unat offset + i)"
proof -
  from read_ule_field_bits [of offset len "msg_data msg"] field_in_data [OF assms] obtain r where
    r: "read_ule_field (msg_data msg) offset len = Inr r"
      "\<And>i. bit r i \<longleftrightarrow> i < 64 \<and> i < unat len \<and> le_bit (msg_data msg) (unat offset + i)"
    by metis
  show thesis
  proof (rule that [of r])
    show "tmsg_read_ule env msg offset len = Inr (env, r)"
      using r(1) assms by (simp add: tmsg_read_ule_def boundsp_in)
    show "bit r i \<longleftrightarrow> i < unat len \<and> le_bit (msg_data msg) (unat offset + i)" for i
      using r(2) [of i] assms(2) by (auto simp: field_in_def)
  qed
qed

lemma tmsg_write_ule_in:
  assumes "wf_tmsg msg" and "field_in msg offset len" and "take_bit (unat len) x = x"
  obtains d where "tmsg_write_ule env msg offset len x = Inr (env, msg\<lparr>msg_data := d\<rparr>)"
    and "field_le d (msg_data msg) (unat offset) (unat len) x"
proof -
  from write_ule_field_bits [of offset len "msg_data msg" x] field_in_data [OF assms(1,2)] assms(3)
  obtain d where
    d: "write_ule_field (msg_data msg) offset len x = Inr d" "field_le d (msg_data msg) (unat offset) (unat len) x"
    by metis
  show thesis
    by (rule that [of d]) (use d assms in \<open>auto simp: tmsg_write_ule_def boundsp_in\<close>)
qed


lemma boundsp_out:
  assumes "wf_tmsg msg" and "unat offset + unat len < 2 ^ 64"
    and "8 * unat (msg_len msg) < unat offset + unat len"
  shows "boundsp env msg offset len = (tmsg_fail env, False)"
  using boundsp_iff [OF assms(1,2)] assms(3) by (simp add: boundsp_def)

subsection \<open>What a bit-field codec promises\<close>

text \<open>
  The contract the message accessors of the tool chain rely on: a field inside the message is
  read without failure, holds what was last written to it, and is untouched by a write to a
  field that shares no bit with it; a field outside the message reads as 0, is not written, and
  the failure hook runs exactly once.
\<close>

definition same_shape :: "tmsg \<Rightarrow> tmsg \<Rightarrow> bool" where
  "same_shape m' m \<longleftrightarrow> msg_len m' = msg_len m \<and> length (msg_data m') = length (msg_data m)"

definition apart :: "u64 \<times> u64 \<Rightarrow> u64 \<times> u64 \<Rightarrow> bool" where
  "apart f g \<longleftrightarrow> unat (fst f) + unat (snd f) \<le> unat (fst g) \<or> unat (fst g) + unat (snd g) \<le> unat (fst f)"

definition fits :: "u64 \<Rightarrow> u64 \<Rightarrow> bool" where
  "fits len x \<longleftrightarrow> take_bit (unat len) x = x"

lemma same_shape_wf: "same_shape m' m \<Longrightarrow> wf_tmsg m' = wf_tmsg m"
  and same_shape_field_in: "same_shape m' m \<Longrightarrow> field_in m' offset len = field_in m offset len"
  by (simp_all add: same_shape_def wf_tmsg_def field_in_def)

lemma same_shape_trans: "same_shape a b \<Longrightarrow> same_shape b c \<Longrightarrow> same_shape a c"
  and same_shape_refl [simp]: "same_shape a a"
  by (simp_all add: same_shape_def)

lemma apart_sym: "apart f g = apart g f"
  by (auto simp: apart_def)

locale field_codec =
  fixes rd :: "failenv \<Rightarrow> tmsg \<Rightarrow> u64 \<Rightarrow> u64 \<Rightarrow> (failenv \<times> u64) ub"
    and wr :: "failenv \<Rightarrow> tmsg \<Rightarrow> u64 \<Rightarrow> u64 \<Rightarrow> u64 \<Rightarrow> (failenv \<times> tmsg) ub"
  assumes rd_in: "wf_tmsg m \<Longrightarrow> field_in m off len \<Longrightarrow>
        \<exists>v. rd env m off len = Inr (env, v) \<and> fits len v"
    and wr_in: "wf_tmsg m \<Longrightarrow> field_in m off len \<Longrightarrow> fits len x \<Longrightarrow>
        \<exists>m'. wr env m off len x = Inr (env, m') \<and> same_shape m' m \<and> rd env m' off len = Inr (env, x)"
    and wr_frame: "wf_tmsg m \<Longrightarrow> field_in m off len \<Longrightarrow> fits len x \<Longrightarrow>
        wr env m off len x = Inr (env, m') \<Longrightarrow> field_in m off' len' \<Longrightarrow> apart (off, len) (off', len') \<Longrightarrow>
        rd env m' off' len' = rd env m off' len'"
    and rd_out: "wf_tmsg m \<Longrightarrow> unat off + unat len < 2 ^ 64 \<Longrightarrow>
        8 * unat (msg_len m) < unat off + unat len \<Longrightarrow> rd env m off len = Inr (tmsg_fail env, 0)"
    and wr_out: "wf_tmsg m \<Longrightarrow> unat off + unat len < 2 ^ 64 \<Longrightarrow>
        8 * unat (msg_len m) < unat off + unat len \<Longrightarrow> wr env m off len x = Inr (tmsg_fail env, m)"
begin

text \<open>Writing the fields of a layout one after the other.\<close>

primrec wr_fields :: "failenv \<Rightarrow> tmsg \<Rightarrow> ((u64 \<times> u64) \<times> u64) list \<Rightarrow> (failenv \<times> tmsg) ub" where
  "wr_fields env m [] = Inr (env, m)"
| "wr_fields env m (fx # fxs) =
     bind_ub (wr env m (fst (fst fx)) (snd (fst fx)) (snd fx)) (\<lambda>(env', m'). wr_fields env' m' fxs)"

lemma wr_fields_frame:
  assumes "wf_tmsg m"
    and "\<forall>(f, x) \<in> set fxs. field_in m (fst f) (snd f) \<and> fits (snd f) x \<and> apart f g"
    and "field_in m (fst g) (snd g)"
  shows "\<exists>m'. wr_fields env m fxs = Inr (env, m') \<and> same_shape m' m \<and>
    rd env m' (fst g) (snd g) = rd env m (fst g) (snd g)"
  using assms
proof (induction fxs arbitrary: m)
  case (Cons fx fxs)
  obtain f x where fx: "fx = (f, x)" by (cases fx)
  with Cons.prems have f: "field_in m (fst f) (snd f)" "fits (snd f) x" "apart f g" by auto
  from wr_in [OF Cons.prems(1) f(1,2)] obtain m1 where
    m1: "wr env m (fst f) (snd f) x = Inr (env, m1)" "same_shape m1 m" by blast
  from wr_frame [OF Cons.prems(1) f(1,2) m1(1) Cons.prems(3)] f(3)
  have "rd env m1 (fst g) (snd g) = rd env m (fst g) (snd g)" by simp
  moreover from Cons.IH [of m1] Cons.prems m1(2) obtain m2 where
    "wr_fields env m1 fxs = Inr (env, m2)" "same_shape m2 m1"
    "rd env m2 (fst g) (snd g) = rd env m1 (fst g) (snd g)"
    by (auto simp: same_shape_wf same_shape_field_in)
  ultimately show ?case using m1 fx by (auto intro: same_shape_trans)
qed simp

lemma wr_fields_read_back:
  assumes "wf_tmsg m" and "\<forall>(f, x) \<in> set fxs. field_in m (fst f) (snd f) \<and> fits (snd f) x"
    and "sorted_wrt (\<lambda>fx gy. apart (fst fx) (fst gy)) fxs"
  shows "\<exists>m'. wr_fields env m fxs = Inr (env, m') \<and> same_shape m' m \<and>
    (\<forall>(f, x) \<in> set fxs. rd env m' (fst f) (snd f) = Inr (env, x))"
  using assms
proof (induction fxs arbitrary: m)
  case (Cons fx fxs)
  obtain f x where fx: "fx = (f, x)" by (cases fx)
  with Cons.prems have f: "field_in m (fst f) (snd f)" "fits (snd f) x" by auto
  from wr_in [OF Cons.prems(1) this] obtain m1 where
    m1: "wr env m (fst f) (snd f) x = Inr (env, m1)" "same_shape m1 m"
      "rd env m1 (fst f) (snd f) = Inr (env, x)" by blast
  from Cons.IH [of m1] Cons.prems m1(2) obtain m2 where
    m2: "wr_fields env m1 fxs = Inr (env, m2)" "same_shape m2 m1"
      "\<forall>(f, x) \<in> set fxs. rd env m2 (fst f) (snd f) = Inr (env, x)"
    by (auto simp: same_shape_wf same_shape_field_in)
  moreover have "\<exists>m'. wr_fields env m1 fxs = Inr (env, m') \<and> same_shape m' m1 \<and>
      rd env m' (fst f) (snd f) = rd env m1 (fst f) (snd f)"
    using Cons.prems m1(2) fx f(1)
    by (intro wr_fields_frame) (auto simp: same_shape_wf same_shape_field_in apart_sym)
  ultimately have "rd env m2 (fst f) (snd f) = Inr (env, x)" using m1(3) by auto
  with m1 m2 fx show ?case by (auto intro: same_shape_trans)
qed simp

end

subsection \<open>The two codecs of message.c\<close>

lemma field_be_reads:
  assumes "field_be d (msg_data msg) (unat off) (unat len) x" and "wf_tmsg msg" and "fits len x"
    and "field_in msg off len" and "m' = msg\<lparr>msg_data := d\<rparr>"
  shows "tmsg_read_ube env m' off len = Inr (env, x)"
proof -
  have wf: "wf_tmsg m'" "field_in m' off len"
    using assms by (simp_all add: wf_tmsg_def field_in_def field_be_def)
  from tmsg_read_ube_in [OF this, of env] obtain r where
    r: "tmsg_read_ube env m' off len = Inr (env, r)"
      "\<And>i. bit r i \<longleftrightarrow> i < unat len \<and> be_bit d (unat off + unat len - 1 - i)"
    using assms(5) by auto
  have "bit r i = bit x i" for i
  proof (cases "i < unat len")
    case True
    then have "unat off \<le> unat off + unat len - 1 - i" "unat off + unat len - 1 - i < unat off + unat len"
      "unat off + unat len - 1 - (unat off + unat len - 1 - i) = i" by simp_all
    with True assms(1) show ?thesis by (simp add: r(2) field_be_def)
  next
    case False
    with assms(3) show ?thesis by (metis r(2) fits_def bit_take_bit_iff)
  qed
  then show ?thesis using r(1) by (simp add: bit_eq_iff)
qed

lemma field_be_frame:
  assumes "field_be d (msg_data msg) (unat off) (unat len) x" and "wf_tmsg msg"
    and "field_in msg off' len'" and "apart (off, len) (off', len')" and "m' = msg\<lparr>msg_data := d\<rparr>"
  shows "tmsg_read_ube env m' off' len' = tmsg_read_ube env msg off' len'"
proof -
  have wf: "wf_tmsg m'" "field_in m' off' len'"
    using assms by (simp_all add: wf_tmsg_def field_in_def field_be_def)
  from tmsg_read_ube_in [OF this, of env] obtain r where
    r: "tmsg_read_ube env m' off' len' = Inr (env, r)"
      "\<And>i. bit r i \<longleftrightarrow> i < unat len' \<and> be_bit d (unat off' + unat len' - 1 - i)"
    using assms(5) by auto
  from tmsg_read_ube_in [OF assms(2,3), of env] obtain s where
    s: "tmsg_read_ube env msg off' len' = Inr (env, s)"
      "\<And>i. bit s i \<longleftrightarrow> i < unat len' \<and> be_bit (msg_data msg) (unat off' + unat len' - 1 - i)" by auto
  have "be_bit d (unat off' + unat len' - 1 - i) = be_bit (msg_data msg) (unat off' + unat len' - 1 - i)"
    if "i < unat len'" for i
    using assms(1,4) that by (auto simp: field_be_def apart_def)
  then have "r = s" by (auto simp: bit_eq_iff r(2) s(2))
  with r s show ?thesis by simp
qed

interpretation ube: field_codec tmsg_read_ube tmsg_write_ube
proof
  fix m off len env assume a: "wf_tmsg m" "field_in m off len"
  from tmsg_read_ube_in [OF this, of env] obtain r where
    r: "tmsg_read_ube env m off len = Inr (env, r)"
      "\<And>i. bit r i \<longleftrightarrow> i < unat len \<and> be_bit (msg_data m) (unat off + unat len - 1 - i)" by auto
  then have "fits len r" by (auto simp: fits_def bit_eq_iff bit_take_bit_iff)
  with r(1) show "\<exists>v. tmsg_read_ube env m off len = Inr (env, v) \<and> fits len v" by blast
next
  fix m off len env x assume a: "wf_tmsg m" "field_in m off len" "fits len x"
  from tmsg_write_ube_in [OF a [unfolded fits_def], of env] obtain d where
    d: "tmsg_write_ube env m off len x = Inr (env, m\<lparr>msg_data := d\<rparr>)"
      "field_be d (msg_data m) (unat off) (unat len) x" .
  from field_be_reads [OF d(2) a(1,3,2) refl] d show
    "\<exists>m'. tmsg_write_ube env m off len x = Inr (env, m') \<and> same_shape m' m \<and>
      tmsg_read_ube env m' off len = Inr (env, x)"
    by (auto simp: same_shape_def field_be_def)
next
  fix m off len env x m' off' len'
  assume a: "wf_tmsg m" "field_in m off len" "fits len x"
    and wr: "tmsg_write_ube env m off len x = Inr (env, m')"
    and b: "field_in m off' len'" "apart (off, len) (off', len')"
  from tmsg_write_ube_in [OF a [unfolded fits_def], of env] obtain d where
    d: "tmsg_write_ube env m off len x = Inr (env, m\<lparr>msg_data := d\<rparr>)"
      "field_be d (msg_data m) (unat off) (unat len) x" .
  with wr field_be_frame [OF d(2) a(1) b refl] show
    "tmsg_read_ube env m' off' len' = tmsg_read_ube env m off' len'" by simp
qed (simp_all add: tmsg_read_ube_def tmsg_write_ube_def boundsp_out)

lemma field_le_reads:
  assumes "field_le d (msg_data msg) (unat off) (unat len) x" and "wf_tmsg msg" and "fits len x"
    and "field_in msg off len" and "m' = msg\<lparr>msg_data := d\<rparr>"
  shows "tmsg_read_ule env m' off len = Inr (env, x)"
proof -
  have wf: "wf_tmsg m'" "field_in m' off len"
    using assms by (simp_all add: wf_tmsg_def field_in_def field_le_def)
  from tmsg_read_ule_in [OF this, of env] obtain r where
    r: "tmsg_read_ule env m' off len = Inr (env, r)"
      "\<And>i. bit r i \<longleftrightarrow> i < unat len \<and> le_bit d (unat off + i)"
    using assms(5) by auto
  have "bit r i = bit x i" for i
  proof (cases "i < unat len")
    case True
    with assms(1) show ?thesis by (simp add: r(2) field_le_def)
  next
    case False
    with assms(3) show ?thesis by (metis r(2) fits_def bit_take_bit_iff)
  qed
  then show ?thesis using r(1) by (simp add: bit_eq_iff)
qed

lemma field_le_frame:
  assumes "field_le d (msg_data msg) (unat off) (unat len) x" and "wf_tmsg msg"
    and "field_in msg off' len'" and "apart (off, len) (off', len')" and "m' = msg\<lparr>msg_data := d\<rparr>"
  shows "tmsg_read_ule env m' off' len' = tmsg_read_ule env msg off' len'"
proof -
  have wf: "wf_tmsg m'" "field_in m' off' len'"
    using assms by (simp_all add: wf_tmsg_def field_in_def field_le_def)
  from tmsg_read_ule_in [OF this, of env] obtain r where
    r: "tmsg_read_ule env m' off' len' = Inr (env, r)"
      "\<And>i. bit r i \<longleftrightarrow> i < unat len' \<and> le_bit d (unat off' + i)"
    using assms(5) by auto
  from tmsg_read_ule_in [OF assms(2,3), of env] obtain s where
    s: "tmsg_read_ule env msg off' len' = Inr (env, s)"
      "\<And>i. bit s i \<longleftrightarrow> i < unat len' \<and> le_bit (msg_data msg) (unat off' + i)" by auto
  have "le_bit d (unat off' + i) = le_bit (msg_data msg) (unat off' + i)" if "i < unat len'" for i
    using assms(1,4) that by (auto simp: field_le_def apart_def)
  then have "r = s" by (auto simp: bit_eq_iff r(2) s(2))
  with r s show ?thesis by simp
qed

interpretation ule: field_codec tmsg_read_ule tmsg_write_ule
proof
  fix m off len env assume a: "wf_tmsg m" "field_in m off len"
  from tmsg_read_ule_in [OF this, of env] obtain r where
    r: "tmsg_read_ule env m off len = Inr (env, r)"
      "\<And>i. bit r i \<longleftrightarrow> i < unat len \<and> le_bit (msg_data m) (unat off + i)" by auto
  then have "fits len r" by (auto simp: fits_def bit_eq_iff bit_take_bit_iff)
  with r(1) show "\<exists>v. tmsg_read_ule env m off len = Inr (env, v) \<and> fits len v" by blast
next
  fix m off len env x assume a: "wf_tmsg m" "field_in m off len" "fits len x"
  from tmsg_write_ule_in [OF a [unfolded fits_def], of env] obtain d where
    d: "tmsg_write_ule env m off len x = Inr (env, m\<lparr>msg_data := d\<rparr>)"
      "field_le d (msg_data m) (unat off) (unat len) x" .
  from field_le_reads [OF d(2) a(1,3,2) refl] d show
    "\<exists>m'. tmsg_write_ule env m off len x = Inr (env, m') \<and> same_shape m' m \<and>
      tmsg_read_ule env m' off len = Inr (env, x)"
    by (auto simp: same_shape_def field_le_def)
next
  fix m off len env x m' off' len'
  assume a: "wf_tmsg m" "field_in m off len" "fits len x"
    and wr: "tmsg_write_ule env m off len x = Inr (env, m')"
    and b: "field_in m off' len'" "apart (off, len) (off', len')"
  from tmsg_write_ule_in [OF a [unfolded fits_def], of env] obtain d where
    d: "tmsg_write_ule env m off len x = Inr (env, m\<lparr>msg_data := d\<rparr>)"
      "field_le d (msg_data m) (unat off) (unat len) x" .
  with wr field_le_frame [OF d(2) a(1) b refl] show
    "tmsg_read_ule env m' off' len' = tmsg_read_ule env m off' len'" by simp
qed (simp_all add: tmsg_read_ule_def tmsg_write_ule_def boundsp_out)

subsection \<open>Fields of whole bytes, signed values\<close>

lemma field_be_take_bit:
  "field_be d data off n x \<Longrightarrow> field_be d data off n (take_bit n x)"
  by (auto simp: field_be_def bit_take_bit_iff)

lemma write_ube_field_aligned:
  assumes "unat offset + unat len \<le> 8 * length data" and "length data < 2 ^ 61" and "0 < unat len"
    and "unat len \<le> 64" and "unat offset mod 8 = 0" and "unat len mod 8 = 0"
  shows "\<exists>data'. write_ube_field data offset len x = Inr data' \<and>
    field_be data' data (unat offset) (unat len) x"
proof -
  obtain bo s n where w [simp]: "unat (drop_bit 3 offset) = bo" "unat (offset AND 7) = s" "unat len = n"
      "unat offset = 8 * bo + s"
    and s: "s < 8" and le: "8 * bo + s + n \<le> 8 * length data"
    and one_iff: "len + (offset AND 7) \<le> 8 \<longleftrightarrow> n + s \<le> 8"
    using field_split [OF assms(1,2)] by blast
  have s0: "s = 0" using assms(5) s by simp
  have n: "n = 8 \<or> 8 < n" "n \<le> 64" using assms(3,4,6) by (simp_all only: w) presburger+
  from n(1) show ?thesis
  proof
    assume n8: "n = 8"
    with le s0 have bo: "bo < length data" by simp
    let ?b = "ucast ((ucast (data ! bo) AND NOT (mask 8)) OR x) :: u8"
    have "field_be (data[bo := ?b]) data (8 * bo + 0) 8 x"
      by (rule field_be_byte [OF bo]) (auto simp: bit_ucast_iff bit_or_iff bit_and_iff bit_not_iff bit_mask_iff)
    with bo n8 s0 one_iff show ?thesis by (simp add: write_ube_field_def Let_def)
  next
    assume "8 < n"
    moreover have "8 * bo + n \<le> 8 * length data" using le by linarith
    from write_ube_loop_bits [OF this n(2), of x] s0 one_iff \<open>8 < n\<close> show ?thesis
      by (simp add: write_ube_field_def Let_def)
  qed
qed

lemma u2s_take_bit:
  assumes "0 < unat len" and "unat len < 63" and "- (2 ^ (unat len - 1)) \<le> v" and "v < 2 ^ (unat len - 1)"
  shows "u2s (take_bit (unat len) (word_of_int v)) len = Inr v"
proof -
  define n where "n = unat len"
  define x where "x = (take_bit n (word_of_int v) :: u64)"
  have n: "0 < n" "n < 63" and v: "- (2 ^ (n - 1)) \<le> v" "v < 2 ^ (n - 1)"
    using assms by (simp_all add: n_def)
  have pw: "(2 :: int) ^ n = 2 * 2 ^ (n - 1)" using n by (cases n) simp_all
  have len1: "unat (len - 1) = n - 1"
    using n by (metis n_def unat_minus_one unat_0 less_numeral_extra(3))
  have ux: "uint x = v mod 2 ^ n"
    using n by (simp only: x_def unsigned_take_bit_eq uint_word_of_int_eq take_bit_take_bit flip: take_bit_eq_mod)
      (simp add: min_def)
  have lt: "uint x < 2 ^ n" "0 \<le> uint x" by (simp_all add: ux)
  have "uint x < 2 ^ 63" using lt(1) n by (meson less_trans one_less_numeral_iff power_strict_increasing semiring_norm(76))
  then have sx: "sint x = uint x" 
    using lt(2) by (simp add: sint_uint signed_take_bit_int_eq_self_iff order_trans [of _ 0])
  have vm: "v mod 2 ^ n = (if v < 0 then v + 2 ^ n else v)"
    using signed_range_mod [OF v] by (simp only: pw)
  have "bit x (n - 1) \<longleftrightarrow> bit (uint x) (n - 1)" using n by (auto simp: bit_uint_iff)
  also have "\<dots> \<longleftrightarrow> 2 ^ (n - 1) \<le> uint x"
    using lt by (intro top_bit_int) (simp_all only: pw)
  also have "\<dots> \<longleftrightarrow> v < 0" unfolding ux vm unfolding pw using v by simp
  finally have "bit x (n - 1) \<longleftrightarrow> v < 0" .
  moreover have "x AND push_bit (n - 1) 1 \<noteq> 0 \<longleftrightarrow> bit x (n - 1)"
    by (simp add: and_exp_eq_0_iff_not_bit)
  moreover have "len < 63" using n by (simp add: word_less_nat_alt n_def)
  ultimately show ?thesis
    using n by (simp add: u2s_def len1 sx ux vm flip: n_def x_def)
qed

lemma tmsg_write_be_in:
  assumes "wf_tmsg msg" and "field_in msg offset len"
    and "unat offset mod 8 = 0" and "unat len mod 8 = 0"
  obtains d where "tmsg_write_be env msg offset len v = Inr (env, msg\<lparr>msg_data := d\<rparr>)"
    and "field_be d (msg_data msg) (unat offset) (unat len) (take_bit (unat len) (word_of_int v))"
proof -
  from write_ube_field_aligned [of offset len "msg_data msg" "word_of_int v"] field_in_data [OF assms(1,2)] assms(3,4)
  obtain d where d: "write_ube_field (msg_data msg) offset len (word_of_int v) = Inr d"
      "field_be d (msg_data msg) (unat offset) (unat len) (word_of_int v)"
    by metis
  show thesis
    by (rule that [of d])
      (use d assms in \<open>auto simp: tmsg_write_be_def tmsg_write_ube_def boundsp_in field_be_take_bit\<close>)
qed

subsection \<open>Properties of the message accessors\<close>

text \<open>
  C14: Big-endian fields behave as independent variables: a value that fits, written to a
  field inside the message, is what a later read returns, and every field that shares no bit with
  it, at any bit offset and width up to 64, reads as before. No access leaves the buffer.
\<close>

theorem tmsg_ube_field:
  assumes "wf_tmsg m" and "field_in m off len" and "fits len x"
  shows "\<exists>m'. tmsg_write_ube env m off len x = Inr (env, m') \<and> same_shape m' m \<and>
    tmsg_read_ube env m' off len = Inr (env, x) \<and>
    (\<forall>off' len'. field_in m off' len' \<longrightarrow> apart (off, len) (off', len') \<longrightarrow>
       tmsg_read_ube env m' off' len' = tmsg_read_ube env m off' len')"
  using ube.wr_in [OF assms, of env] ube.wr_frame [OF assms, of env] by blast

theorem tmsg_ube_field_witness:
  "\<exists>m'. tmsg_write_ube \<lparr>failfn = None, fail_log = []\<rparr> \<lparr>msg_data = [1, 2, 3, 4], msg_len = 4\<rparr> 3 13 0x155 =
      Inr (\<lparr>failfn = None, fail_log = []\<rparr>, m') \<and>
    tmsg_read_ube \<lparr>failfn = None, fail_log = []\<rparr> m' 3 13 = Inr (\<lparr>failfn = None, fail_log = []\<rparr>, 0x155)"
proof -
  have "wf_tmsg \<lparr>msg_data = [1, 2, 3, 4], msg_len = 4\<rparr>"
    "field_in \<lparr>msg_data = [1, 2, 3, 4], msg_len = 4\<rparr> 3 13" "fits 13 0x155"
    by (simp_all add: wf_tmsg_def field_in_def fits_def)
  from tmsg_ube_field [OF this, of "\<lparr>failfn = None, fail_log = []\<rparr>"] show ?thesis by blast
qed

text \<open>
  The same for little-endian fields, whose bits are numbered from the low end of each
  byte.
\<close>

theorem tmsg_ule_field:
  assumes "wf_tmsg m" and "field_in m off len" and "fits len x"
  shows "\<exists>m'. tmsg_write_ule env m off len x = Inr (env, m') \<and> same_shape m' m \<and>
    tmsg_read_ule env m' off len = Inr (env, x) \<and>
    (\<forall>off' len'. field_in m off' len' \<longrightarrow> apart (off, len) (off', len') \<longrightarrow>
       tmsg_read_ule env m' off' len' = tmsg_read_ule env m off' len')"
  using ule.wr_in [OF assms, of env] ule.wr_frame [OF assms, of env] by blast

theorem tmsg_ule_field_witness:
  "\<exists>m'. tmsg_write_ule \<lparr>failfn = None, fail_log = []\<rparr> \<lparr>msg_data = [1, 2, 3, 4], msg_len = 4\<rparr> 3 13 0x155 =
      Inr (\<lparr>failfn = None, fail_log = []\<rparr>, m') \<and>
    tmsg_read_ule \<lparr>failfn = None, fail_log = []\<rparr> m' 3 13 = Inr (\<lparr>failfn = None, fail_log = []\<rparr>, 0x155)"
proof -
  have "wf_tmsg \<lparr>msg_data = [1, 2, 3, 4], msg_len = 4\<rparr>"
    "field_in \<lparr>msg_data = [1, 2, 3, 4], msg_len = 4\<rparr> 3 13" "fits 13 0x155"
    by (simp_all add: wf_tmsg_def field_in_def fits_def)
  from tmsg_ule_field [OF this, of "\<lparr>failfn = None, fail_log = []\<rparr>"] show ?thesis by blast
qed

text \<open>
  A signed value in the range of a field of whole bytes survives
  \<open>tmsg_write_be\<close> followed by \<open>tmsg_read_be\<close>: the write drops the sign extension and the read
  restores it.
\<close>

theorem tmsg_signed_roundtrip:
  assumes "wf_tmsg msg" and "field_in msg offset len" and "unat len < 63"
    and "unat offset mod 8 = 0" and "unat len mod 8 = 0"
    and "- (2 ^ (unat len - 1)) \<le> v" and "v < 2 ^ (unat len - 1)"
  shows "\<exists>msg'. tmsg_write_be env msg offset len v = Inr (env, msg') \<and>
    tmsg_read_be env msg' offset len = Inr (env, v)"
proof -
  let ?x = "take_bit (unat len) (word_of_int v) :: u64"
  obtain d where d: "tmsg_write_be env msg offset len v = Inr (env, msg\<lparr>msg_data := d\<rparr>)"
      "field_be d (msg_data msg) (unat offset) (unat len) ?x"
    using tmsg_write_be_in [OF assms(1,2,4,5)] .
  have "fits len ?x" by (simp add: fits_def)
  from field_be_reads [OF d(2) assms(1) this assms(2) refl, of env]
    u2s_take_bit [OF _ assms(3,6,7)] assms(2) d(1) show ?thesis
    by (auto simp: tmsg_read_be_def field_in_def)
qed

theorem tmsg_signed_roundtrip_witness:
  "\<exists>msg'. tmsg_write_be \<lparr>failfn = None, fail_log = []\<rparr> \<lparr>msg_data = [1, 2, 3, 4], msg_len = 4\<rparr> 8 16 (- 300) =
      Inr (\<lparr>failfn = None, fail_log = []\<rparr>, msg') \<and>
    tmsg_read_be \<lparr>failfn = None, fail_log = []\<rparr> msg' 8 16 = Inr (\<lparr>failfn = None, fail_log = []\<rparr>, - 300)"
  by (rule tmsg_signed_roundtrip) (simp_all add: wf_tmsg_def field_in_def)

text \<open>
  A field that ends beyond the message is neither read nor written: reads give 0,
  the buffer keeps its contents, and the hook installed by \<open>tmsg_set_fail\<close> runs once.
\<close>

theorem tmsg_out_of_range:
  assumes "wf_tmsg m" and "unat off + unat len < 2 ^ 64" and "8 * unat (msg_len m) < unat off + unat len"
  shows "tmsg_read_ube env m off len = Inr (tmsg_fail env, 0) \<and>
    tmsg_read_ule env m off len = Inr (tmsg_fail env, 0) \<and>
    tmsg_write_ube env m off len x = Inr (tmsg_fail env, m) \<and>
    tmsg_write_ule env m off len x = Inr (tmsg_fail env, m) \<and>
    fail_log (tmsg_fail (fst (tmsg_set_fail env (Some h)))) = fail_log env @ [h]"
  using ube.rd_out [OF assms] ule.rd_out [OF assms] ube.wr_out [OF assms] ule.wr_out [OF assms]
  by (simp add: tmsg_fail_def tmsg_set_fail_def Let_def)

theorem tmsg_out_of_range_witness:
  "tmsg_read_ube \<lparr>failfn = Some 3, fail_log = []\<rparr> \<lparr>msg_data = [1, 2], msg_len = 2\<rparr> 8 16 =
     Inr (\<lparr>failfn = Some 3, fail_log = [3]\<rparr>, 0)"
  using tmsg_out_of_range [of "\<lparr>msg_data = [1, 2], msg_len = 2\<rparr>" 8 16 "\<lparr>failfn = Some 3, fail_log = []\<rparr>"]
  by (simp add: wf_tmsg_def tmsg_fail_def)

text \<open>
  The range check adds offset and length in \<open>size_t\<close>, so it wraps around: in every
  message that holds a byte, the 16-bit field at offset \<open>2 ^ 64 - 8\<close> passes the check, and reading
  it leaves the buffer.
\<close>

theorem boundsp_wraps:
  assumes "wf_tmsg msg" and "0 < unat (msg_len msg)"
  shows "boundsp env msg (- 8) 16 = (env, True) \<and> tmsg_read_ube env msg (- 8) 16 = Inl OutOfBounds"
proof -
  have "unat (msg_len msg * 8) = 8 * unat (msg_len msg)"
    using assms(1) by (simp add: wf_tmsg_def unat_word_ariths)
  then have 1: "(- 8 :: u64) + 16 \<le> msg_len msg * 8"
    using assms(2) by (simp add: word_le_nat_alt)
  moreover have "peek (msg_data msg) (int (unat (drop_bit 3 (- 8 :: u64)))) = Inl OutOfBounds"
    using assms(1) by (simp add: peek_def wf_tmsg_def)
  ultimately show ?thesis
    by (simp add: boundsp_def tmsg_read_ube_def read_ube_field_def read_ube_loop.simps)
qed

theorem boundsp_wraps_witness:
  "tmsg_read_ube \<lparr>failfn = None, fail_log = []\<rparr> \<lparr>msg_data = [1, 2], msg_len = 2\<rparr> (- 8) 16 = Inl OutOfBounds"
  using boundsp_wraps [of "\<lparr>msg_data = [1, 2], msg_len = 2\<rparr>"] by (simp add: wf_tmsg_def)

end
