(* ===== verification/MessageFloat.thy ===== *)
theory MessageFloat
  imports Message Complex_Main
begin

unbundle bit_operations_syntax

section \<open>Floats in messages\<close>

text \<open>
  The float accessors of lib/sf/message.c and the release of a message. A float is its three parts, as the
  comment before \<open>u2f\<close> says they lie in memory: bit 31 the sign, bits 30 to 23 the exponent, bits
  22 to 0 the mantissa. The contract of an accessor extends the one of a bit-field codec and is
  interpreted for both byte orders.
\<close>

subsection \<open>Definitions\<close>

record float32 =
  fl_sign :: bool
  fl_exp :: u8
  fl_mant :: "23 word"

definition u2f :: "u32 \<Rightarrow> float32" where
  "u2f x = \<lparr>fl_sign = bit x 31, fl_exp = ucast (drop_bit 23 x), fl_mant = ucast x\<rparr>"

definition f2u :: "float32 \<Rightarrow> u32" where
  "f2u f = push_bit 31 (of_bool (fl_sign f)) OR push_bit 23 (ucast (fl_exp f)) OR ucast (fl_mant f)"

definition tmsg_read_float_le :: "failenv \<Rightarrow> tmsg \<Rightarrow> u64 \<Rightarrow> (failenv \<times> float32) ub" where
  "tmsg_read_float_le env msg offset = bind_ub (tmsg_read_ule env msg offset 32) (\<lambda>(env', x). Inr (env', u2f (ucast x)))"

definition tmsg_write_float_le :: "failenv \<Rightarrow> tmsg \<Rightarrow> u64 \<Rightarrow> float32 \<Rightarrow> (failenv \<times> tmsg) ub" where
  "tmsg_write_float_le env msg offset x = tmsg_write_ule env msg offset 32 (ucast (f2u x))"

definition tmsg_read_float_be :: "failenv \<Rightarrow> tmsg \<Rightarrow> u64 \<Rightarrow> (failenv \<times> float32) ub" where
  "tmsg_read_float_be env msg offset = bind_ub (tmsg_read_ube env msg offset 32) (\<lambda>(env', x). Inr (env', u2f (ucast x)))"

definition tmsg_write_float_be :: "failenv \<Rightarrow> tmsg \<Rightarrow> u64 \<Rightarrow> float32 \<Rightarrow> (failenv \<times> tmsg) ub" where
  "tmsg_write_float_be env msg offset x = tmsg_write_ube env msg offset 32 (ucast (f2u x))"

text \<open>The messages that \<open>new_tmsg\<close> allocated and that have not been freed, by their address.\<close>

definition free_tmsg :: "(nat \<Rightarrow> tmsg option) \<Rightarrow> nat option \<Rightarrow> (nat \<Rightarrow> tmsg option) ub" where
  "free_tmsg h msg = (case msg of None \<Rightarrow> Inr h | Some a \<Rightarrow> if h a = None then Inl UseAfterFree else Inr (h(a := None)))"

subsection \<open>The value of a float\<close>

text \<open>The number a float stands for; infinities and results that are not numbers have none.\<close>

definition fl_value :: "float32 \<Rightarrow> real option" where
  "fl_value f =
     (let s = (if fl_sign f then - 1 else 1 :: real); m = real (unat (fl_mant f)) / 2 ^ 23 in
      if fl_exp f = 255 then None
      else if fl_exp f = 0 then Some (s * m / 2 ^ 126)
      else Some (s * (1 + m) * 2 ^ unat (fl_exp f) / 2 ^ 127))"

lemma no_high_bit: "bit w n \<Longrightarrow> n < LENGTH('a)" for w :: "'a :: len word"
  by (rule ccontr) (simp add: bit_imp_le_length linorder_not_less)

lemma u2f_f2u: "u2f (f2u f) = f"
proof (rule float32.equality)
  show "fl_sign (u2f (f2u f)) = fl_sign f"
    using no_high_bit [of "fl_exp f" 8] no_high_bit [of "fl_mant f" 31] by (auto simp: u2f_def f2u_def bit_simps)
  show "fl_exp (u2f (f2u f)) = fl_exp f"
    by (rule bit_eqI) (auto dest: no_high_bit simp: u2f_def f2u_def bit_simps)
  show "fl_mant (u2f (f2u f)) = fl_mant f"
    by (rule bit_eqI) (auto simp: u2f_def f2u_def bit_simps)
qed simp

lemma f2u_u2f: "f2u (u2f x) = x"
proof (rule bit_eqI)
  fix n assume "possible_bit TYPE(32 word) n"
  then have "n < 32" by (simp add: possible_bit_word)
  then consider "n = 31" | "23 \<le> n" "n < 31" | "n < 23" by linarith
  then show "bit (f2u (u2f x)) n = bit x n" by cases (auto simp: u2f_def f2u_def bit_simps)
qed

subsection \<open>The contract of a float accessor\<close>

locale float_codec = field_codec +
  fixes frd :: "failenv \<Rightarrow> tmsg \<Rightarrow> u64 \<Rightarrow> (failenv \<times> float32) ub"
    and fwr :: "failenv \<Rightarrow> tmsg \<Rightarrow> u64 \<Rightarrow> float32 \<Rightarrow> (failenv \<times> tmsg) ub"
  assumes frd_rd: "frd env m off = bind_ub (rd env m off 32) (\<lambda>(env', x). Inr (env', u2f (ucast x)))"
    and fwr_wr: "fwr env m off f = wr env m off 32 (ucast (f2u f))"
begin

lemma bits_fit: "fits 32 (ucast (f2u f))"
  using no_high_bit [of "f2u f"] by (auto simp: fits_def bit_eq_iff bit_simps)

lemma float_stored:
  assumes "wf_tmsg m" "field_in m off 32"
  shows "\<exists>m'. fwr env m off f = Inr (env, m') \<and> same_shape m' m \<and> frd env m' off = Inr (env, f) \<and>
    (\<forall>off' len'. field_in m off' len' \<longrightarrow> apart (off, 32) (off', len') \<longrightarrow> rd env m' off' len' = rd env m off' len')"
proof -
  obtain m' where m': "wr env m off 32 (ucast (f2u f)) = Inr (env, m')" "same_shape m' m" "rd env m' off 32 = Inr (env, ucast (f2u f))"
    using wr_in [OF assms bits_fit] by blast
  have "u2f (ucast (ucast (f2u f) :: u64)) = f" by (simp add: u2f_f2u unsigned_ucast_eq take_bit_word_eq_self)
  with m' have "frd env m' off = Inr (env, f)" by (simp add: frd_rd)
  then show ?thesis using m' wr_frame [OF assms bits_fit m'(1)] by (auto simp: fwr_wr)
qed

lemma float_outside:
  assumes "wf_tmsg m" "unat off + 32 < 2 ^ 64" "8 * unat (msg_len m) < unat off + 32"
  shows "frd env m off = Inr (tmsg_fail env, u2f 0)" "fwr env m off f = Inr (tmsg_fail env, m)"
  using rd_out [of m off 32 env] wr_out [of m off 32 env] assms by (simp_all add: frd_rd fwr_wr)

end

interpretation fle: float_codec tmsg_read_ule tmsg_write_ule tmsg_read_float_le tmsg_write_float_le
  by unfold_locales (simp_all add: tmsg_read_float_le_def tmsg_write_float_le_def)

interpretation fbe: float_codec tmsg_read_ube tmsg_write_ube tmsg_read_float_be tmsg_write_float_be
  by unfold_locales (simp_all add: tmsg_read_float_be_def tmsg_write_float_be_def)

lemma zero_value: "fl_value (u2f 0) = Some 0"
  by (simp add: u2f_def fl_value_def Let_def)

text \<open>
  C39: A float, also an infinity or one that is not a number, written to a place inside the message is read back bit for
  bit in either byte order, and fields that share no bit with it keep their value. Beyond the
  message the hook runs once, nothing is written, and a read gives a float whose value is 0.
\<close>

theorem tmsg_float_roundtrip:
  assumes "wf_tmsg m" "unat off + 32 < 2 ^ 64"
  shows "if unat off + 32 \<le> 8 * unat (msg_len m)
    then (\<exists>m'. tmsg_write_float_le env m off f = Inr (env, m') \<and> tmsg_read_float_le env m' off = Inr (env, f) \<and> same_shape m' m \<and>
        (\<forall>off' len'. field_in m off' len' \<longrightarrow> apart (off, 32) (off', len') \<longrightarrow> tmsg_read_ule env m' off' len' = tmsg_read_ule env m off' len')) \<and>
      (\<exists>m'. tmsg_write_float_be env m off f = Inr (env, m') \<and> tmsg_read_float_be env m' off = Inr (env, f) \<and> same_shape m' m \<and>
        (\<forall>off' len'. field_in m off' len' \<longrightarrow> apart (off, 32) (off', len') \<longrightarrow> tmsg_read_ube env m' off' len' = tmsg_read_ube env m off' len'))
    else (\<exists>z. fl_value z = Some 0 \<and> tmsg_read_float_le env m off = Inr (tmsg_fail env, z) \<and> tmsg_read_float_be env m off = Inr (tmsg_fail env, z)) \<and>
      tmsg_write_float_le env m off f = Inr (tmsg_fail env, m) \<and> tmsg_write_float_be env m off f = Inr (tmsg_fail env, m)"
proof (cases "unat off + 32 \<le> 8 * unat (msg_len m)")
  case True
  then have "field_in m off 32" by (simp add: field_in_def)
  from fle.float_stored [OF assms(1) this, of env f] fbe.float_stored [OF assms(1) this, of env f] True show ?thesis by auto
next
  case False
  then have "8 * unat (msg_len m) < unat off + 32" by simp
  from fle.float_outside [OF assms this] fbe.float_outside [OF assms this] False zero_value show ?thesis by auto
qed

text \<open>The float 1.5 at an offset that is not a whole byte, in a message with room for it.\<close>

theorem tmsg_float_roundtrip_witness:
  "fl_value (u2f 0x3FC00000) = Some 1.5 \<and>
    (\<exists>m'. tmsg_write_float_be \<lparr>failfn = None, fail_log = []\<rparr> \<lparr>msg_data = [1, 2, 3, 4, 5], msg_len = 5\<rparr> 3 (u2f 0x3FC00000) =
      Inr (\<lparr>failfn = None, fail_log = []\<rparr>, m') \<and>
    tmsg_read_float_be \<lparr>failfn = None, fail_log = []\<rparr> m' 3 = Inr (\<lparr>failfn = None, fail_log = []\<rparr>, u2f 0x3FC00000))"
proof
  have "drop_bit 23 (0x3FC00000 :: u32) = 127" "ucast (0x3FC00000 :: u32) = (0x400000 :: 23 word)" "\<not> bit (0x3FC00000 :: u32) 31"
    by code_simp+
  then show "fl_value (u2f 0x3FC00000) = Some 1.5" by (simp add: u2f_def fl_value_def Let_def)
  have "wf_tmsg \<lparr>msg_data = [1, 2, 3, 4, 5], msg_len = 5\<rparr>" "unat (3 :: u64) + 32 < 2 ^ 64" by (simp_all add: wf_tmsg_def)
  from tmsg_float_roundtrip [OF this, of "\<lparr>failfn = None, fail_log = []\<rparr>" "u2f 0x3FC00000"]
  show "\<exists>m'. tmsg_write_float_be \<lparr>failfn = None, fail_log = []\<rparr> \<lparr>msg_data = [1, 2, 3, 4, 5], msg_len = 5\<rparr> 3 (u2f 0x3FC00000) =
      Inr (\<lparr>failfn = None, fail_log = []\<rparr>, m') \<and>
    tmsg_read_float_be \<lparr>failfn = None, fail_log = []\<rparr> m' 3 = Inr (\<lparr>failfn = None, fail_log = []\<rparr>, u2f 0x3FC00000)"
    by auto
qed

text \<open>Every bit pattern is that of a float, so floats carry any 32-bit value.\<close>

lemma float_bits_bij: "bij f2u"
  by (rule o_bij [of u2f]) (auto simp: fun_eq_iff u2f_f2u f2u_u2f)

text \<open>A message is freed once; no other one is touched, and freeing it again is a fault.\<close>

lemma free_tmsg_once:
  assumes "h a = Some m"
  shows "\<exists>h'. free_tmsg h (Some a) = Inr h' \<and> h' a = None \<and> (\<forall>b. b \<noteq> a \<longrightarrow> h' b = h b) \<and> free_tmsg h' (Some a) = Inl UseAfterFree"
  using assms by (auto simp: free_tmsg_def)

end
