(* ===== verification/SensorMsg.thy ===== *)
theory SensorMsg
  imports Message
begin

unbundle bit_operations_syntax

section \<open>The sample message and the serial packet header\<close>

text \<open>
  The accessors of the two message layouts: the sample a mote sends (src/motes/tgx_serial_msg.c)
  and the active-message header the serial line puts before it (lib/sf/serialpacket.c). Both are
  clients of the big-endian codec of theory Message, whose contract gives the round trips.
\<close>

text \<open>A getter returns \<open>uint16_t\<close> or \<open>uint8_t\<close>: the 64-bit result is truncated; a setter widens.\<close>

definition ret_u16 :: "(failenv \<times> u64) ub \<Rightarrow> (failenv \<times> u16) ub" where
  "ret_u16 r = bind_ub r (\<lambda>(env, x). Inr (env, ucast x))"

definition ret_u8 :: "(failenv \<times> u64) ub \<Rightarrow> (failenv \<times> u8) ub" where
  "ret_u8 r = bind_ub r (\<lambda>(env, x). Inr (env, ucast x))"

subsection \<open>\<open>sensor_msg\<close>\<close>

definition SENSOR_MSG_SIZE :: nat where
  "SENSOR_MSG_SIZE = 24"

definition sensor_msg_nodeId_get :: "failenv \<Rightarrow> tmsg \<Rightarrow> (failenv \<times> u16) ub" where
  "sensor_msg_nodeId_get env msg = ret_u16 (tmsg_read_ube env msg 0 16)"

definition sensor_msg_nodeId_set :: "failenv \<Rightarrow> tmsg \<Rightarrow> u16 \<Rightarrow> (failenv \<times> tmsg) ub" where
  "sensor_msg_nodeId_set env msg value = tmsg_write_ube env msg 0 16 (ucast value)"

definition sensor_msg_parentId_get :: "failenv \<Rightarrow> tmsg \<Rightarrow> (failenv \<times> u16) ub" where
  "sensor_msg_parentId_get env msg = ret_u16 (tmsg_read_ube env msg 16 16)"

definition sensor_msg_parentId_set :: "failenv \<Rightarrow> tmsg \<Rightarrow> u16 \<Rightarrow> (failenv \<times> tmsg) ub" where
  "sensor_msg_parentId_set env msg value = tmsg_write_ube env msg 16 16 (ucast value)"

definition sensor_msg_position_x_get :: "failenv \<Rightarrow> tmsg \<Rightarrow> (failenv \<times> u16) ub" where
  "sensor_msg_position_x_get env msg = ret_u16 (tmsg_read_ube env msg 32 16)"

definition sensor_msg_position_x_set :: "failenv \<Rightarrow> tmsg \<Rightarrow> u16 \<Rightarrow> (failenv \<times> tmsg) ub" where
  "sensor_msg_position_x_set env msg value = tmsg_write_ube env msg 32 16 (ucast value)"

definition sensor_msg_position_y_get :: "failenv \<Rightarrow> tmsg \<Rightarrow> (failenv \<times> u16) ub" where
  "sensor_msg_position_y_get env msg = ret_u16 (tmsg_read_ube env msg 48 16)"

definition sensor_msg_position_y_set :: "failenv \<Rightarrow> tmsg \<Rightarrow> u16 \<Rightarrow> (failenv \<times> tmsg) ub" where
  "sensor_msg_position_y_set env msg value = tmsg_write_ube env msg 48 16 (ucast value)"

definition sensor_msg_sensor_temp_get :: "failenv \<Rightarrow> tmsg \<Rightarrow> (failenv \<times> u16) ub" where
  "sensor_msg_sensor_temp_get env msg = ret_u16 (tmsg_read_ube env msg 64 16)"

definition sensor_msg_sensor_temp_set :: "failenv \<Rightarrow> tmsg \<Rightarrow> u16 \<Rightarrow> (failenv \<times> tmsg) ub" where
  "sensor_msg_sensor_temp_set env msg value = tmsg_write_ube env msg 64 16 (ucast value)"

definition sensor_msg_sensor_photo_get :: "failenv \<Rightarrow> tmsg \<Rightarrow> (failenv \<times> u16) ub" where
  "sensor_msg_sensor_photo_get env msg = ret_u16 (tmsg_read_ube env msg 80 16)"

definition sensor_msg_sensor_photo_set :: "failenv \<Rightarrow> tmsg \<Rightarrow> u16 \<Rightarrow> (failenv \<times> tmsg) ub" where
  "sensor_msg_sensor_photo_set env msg value = tmsg_write_ube env msg 80 16 (ucast value)"

definition sensor_msg_sensor_sound_get :: "failenv \<Rightarrow> tmsg \<Rightarrow> (failenv \<times> u16) ub" where
  "sensor_msg_sensor_sound_get env msg = ret_u16 (tmsg_read_ube env msg 96 16)"

definition sensor_msg_sensor_sound_set :: "failenv \<Rightarrow> tmsg \<Rightarrow> u16 \<Rightarrow> (failenv \<times> tmsg) ub" where
  "sensor_msg_sensor_sound_set env msg value = tmsg_write_ube env msg 96 16 (ucast value)"

definition sensor_msg_sensor_x_acc_get :: "failenv \<Rightarrow> tmsg \<Rightarrow> (failenv \<times> u16) ub" where
  "sensor_msg_sensor_x_acc_get env msg = ret_u16 (tmsg_read_ube env msg 112 16)"

definition sensor_msg_sensor_x_acc_set :: "failenv \<Rightarrow> tmsg \<Rightarrow> u16 \<Rightarrow> (failenv \<times> tmsg) ub" where
  "sensor_msg_sensor_x_acc_set env msg value = tmsg_write_ube env msg 112 16 (ucast value)"

definition sensor_msg_sensor_y_acc_get :: "failenv \<Rightarrow> tmsg \<Rightarrow> (failenv \<times> u16) ub" where
  "sensor_msg_sensor_y_acc_get env msg = ret_u16 (tmsg_read_ube env msg 128 16)"

definition sensor_msg_sensor_y_acc_set :: "failenv \<Rightarrow> tmsg \<Rightarrow> u16 \<Rightarrow> (failenv \<times> tmsg) ub" where
  "sensor_msg_sensor_y_acc_set env msg value = tmsg_write_ube env msg 128 16 (ucast value)"

definition sensor_msg_sensor_x_mag_get :: "failenv \<Rightarrow> tmsg \<Rightarrow> (failenv \<times> u16) ub" where
  "sensor_msg_sensor_x_mag_get env msg = ret_u16 (tmsg_read_ube env msg 144 16)"

definition sensor_msg_sensor_x_mag_set :: "failenv \<Rightarrow> tmsg \<Rightarrow> u16 \<Rightarrow> (failenv \<times> tmsg) ub" where
  "sensor_msg_sensor_x_mag_set env msg value = tmsg_write_ube env msg 144 16 (ucast value)"

definition sensor_msg_sensor_y_mag_get :: "failenv \<Rightarrow> tmsg \<Rightarrow> (failenv \<times> u16) ub" where
  "sensor_msg_sensor_y_mag_get env msg = ret_u16 (tmsg_read_ube env msg 160 16)"

definition sensor_msg_sensor_y_mag_set :: "failenv \<Rightarrow> tmsg \<Rightarrow> u16 \<Rightarrow> (failenv \<times> tmsg) ub" where
  "sensor_msg_sensor_y_mag_set env msg value = tmsg_write_ube env msg 160 16 (ucast value)"

definition sensor_msg_crc_get :: "failenv \<Rightarrow> tmsg \<Rightarrow> (failenv \<times> u16) ub" where
  "sensor_msg_crc_get env msg = ret_u16 (tmsg_read_ube env msg 176 16)"

definition sensor_msg_crc_set :: "failenv \<Rightarrow> tmsg \<Rightarrow> u16 \<Rightarrow> (failenv \<times> tmsg) ub" where
  "sensor_msg_crc_set env msg value = tmsg_write_ube env msg 176 16 (ucast value)"

subsection \<open>\<open>spacket\<close>\<close>

definition spacket_data_offsetbits :: "u64 \<Rightarrow> u64" where
  "spacket_data_offsetbits index1 = 56 + (0 + index1 * 8)"

definition spacket_data_offset :: "u64 \<Rightarrow> u64" where
  "spacket_data_offset index1 = spacket_data_offsetbits index1 div 8"

definition spacket_header_dest_get :: "failenv \<Rightarrow> tmsg \<Rightarrow> (failenv \<times> u16) ub" where
  "spacket_header_dest_get env msg = ret_u16 (tmsg_read_ube env msg 0 16)"

definition spacket_header_dest_set :: "failenv \<Rightarrow> tmsg \<Rightarrow> u16 \<Rightarrow> (failenv \<times> tmsg) ub" where
  "spacket_header_dest_set env msg value = tmsg_write_ube env msg 0 16 (ucast value)"

definition spacket_header_src_get :: "failenv \<Rightarrow> tmsg \<Rightarrow> (failenv \<times> u16) ub" where
  "spacket_header_src_get env msg = ret_u16 (tmsg_read_ube env msg 16 16)"

definition spacket_header_src_set :: "failenv \<Rightarrow> tmsg \<Rightarrow> u16 \<Rightarrow> (failenv \<times> tmsg) ub" where
  "spacket_header_src_set env msg value = tmsg_write_ube env msg 16 16 (ucast value)"

definition spacket_header_length_get :: "failenv \<Rightarrow> tmsg \<Rightarrow> (failenv \<times> u8) ub" where
  "spacket_header_length_get env msg = ret_u8 (tmsg_read_ube env msg 32 8)"

definition spacket_header_length_set :: "failenv \<Rightarrow> tmsg \<Rightarrow> u8 \<Rightarrow> (failenv \<times> tmsg) ub" where
  "spacket_header_length_set env msg value = tmsg_write_ube env msg 32 8 (ucast value)"

definition spacket_header_group_get :: "failenv \<Rightarrow> tmsg \<Rightarrow> (failenv \<times> u8) ub" where
  "spacket_header_group_get env msg = ret_u8 (tmsg_read_ube env msg 40 8)"

definition spacket_header_group_set :: "failenv \<Rightarrow> tmsg \<Rightarrow> u8 \<Rightarrow> (failenv \<times> tmsg) ub" where
  "spacket_header_group_set env msg value = tmsg_write_ube env msg 40 8 (ucast value)"

definition spacket_header_type_get :: "failenv \<Rightarrow> tmsg \<Rightarrow> (failenv \<times> u8) ub" where
  "spacket_header_type_get env msg = ret_u8 (tmsg_read_ube env msg 48 8)"

definition spacket_header_type_set :: "failenv \<Rightarrow> tmsg \<Rightarrow> u8 \<Rightarrow> (failenv \<times> tmsg) ub" where
  "spacket_header_type_set env msg value = tmsg_write_ube env msg 48 8 (ucast value)"

definition spacket_data_get :: "failenv \<Rightarrow> tmsg \<Rightarrow> u64 \<Rightarrow> (failenv \<times> u8) ub" where
  "spacket_data_get env msg index1 = ret_u8 (tmsg_read_ube env msg (spacket_data_offsetbits index1) 8)"

definition spacket_data_set :: "failenv \<Rightarrow> tmsg \<Rightarrow> u64 \<Rightarrow> u8 \<Rightarrow> (failenv \<times> tmsg) ub" where
  "spacket_data_set env msg index1 value =
     tmsg_write_ube env msg (spacket_data_offsetbits index1) 8 (ucast value)"

lemmas sensor_msg_get_defs =
  sensor_msg_nodeId_get_def
  sensor_msg_parentId_get_def
  sensor_msg_position_x_get_def
  sensor_msg_position_y_get_def
  sensor_msg_sensor_temp_get_def
  sensor_msg_sensor_photo_get_def
  sensor_msg_sensor_sound_get_def
  sensor_msg_sensor_x_acc_get_def
  sensor_msg_sensor_y_acc_get_def
  sensor_msg_sensor_x_mag_get_def
  sensor_msg_sensor_y_mag_get_def
  sensor_msg_crc_get_def

lemmas sensor_msg_set_defs =
  sensor_msg_nodeId_set_def
  sensor_msg_parentId_set_def
  sensor_msg_position_x_set_def
  sensor_msg_position_y_set_def
  sensor_msg_sensor_temp_set_def
  sensor_msg_sensor_photo_set_def
  sensor_msg_sensor_sound_set_def
  sensor_msg_sensor_x_acc_set_def
  sensor_msg_sensor_y_acc_set_def
  sensor_msg_sensor_x_mag_set_def
  sensor_msg_sensor_y_mag_set_def
  sensor_msg_crc_set_def

lemmas spacket_get_defs =
  spacket_header_dest_get_def
  spacket_header_src_get_def
  spacket_header_length_get_def
  spacket_header_group_get_def
  spacket_header_type_get_def

lemmas spacket_set_defs =
  spacket_header_dest_set_def
  spacket_header_src_set_def
  spacket_header_length_set_def
  spacket_header_group_set_def
  spacket_header_type_set_def

subsection \<open>A whole sample\<close>

text \<open>The fields of one sample, and a message filled by one call of every setter.\<close>

record sample =
  s_node :: u16
  s_parent :: u16
  s_px :: u16
  s_py :: u16
  s_temp :: u16
  s_photo :: u16
  s_sound :: u16
  s_xacc :: u16
  s_yacc :: u16
  s_xmag :: u16
  s_ymag :: u16
  s_crc :: u16

definition sensor_msg_fill :: "failenv \<Rightarrow> tmsg \<Rightarrow> sample \<Rightarrow> (failenv \<times> tmsg) ub" where
  "sensor_msg_fill env msg s =
     bind_ub (sensor_msg_nodeId_set env msg (s_node s)) (\<lambda>(env, msg).
     bind_ub (sensor_msg_parentId_set env msg (s_parent s)) (\<lambda>(env, msg).
     bind_ub (sensor_msg_position_x_set env msg (s_px s)) (\<lambda>(env, msg).
     bind_ub (sensor_msg_position_y_set env msg (s_py s)) (\<lambda>(env, msg).
     bind_ub (sensor_msg_sensor_temp_set env msg (s_temp s)) (\<lambda>(env, msg).
     bind_ub (sensor_msg_sensor_photo_set env msg (s_photo s)) (\<lambda>(env, msg).
     bind_ub (sensor_msg_sensor_sound_set env msg (s_sound s)) (\<lambda>(env, msg).
     bind_ub (sensor_msg_sensor_x_acc_set env msg (s_xacc s)) (\<lambda>(env, msg).
     bind_ub (sensor_msg_sensor_y_acc_set env msg (s_yacc s)) (\<lambda>(env, msg).
     bind_ub (sensor_msg_sensor_x_mag_set env msg (s_xmag s)) (\<lambda>(env, msg).
     bind_ub (sensor_msg_sensor_y_mag_set env msg (s_ymag s)) (\<lambda>(env, msg).
     sensor_msg_crc_set env msg (s_crc s))))))))))))"

definition sensor_msg_parse :: "failenv \<Rightarrow> tmsg \<Rightarrow> (failenv \<times> sample) ub" where
  "sensor_msg_parse env msg =
     bind_ub (sensor_msg_nodeId_get env msg) (\<lambda>(env, v0).
     bind_ub (sensor_msg_parentId_get env msg) (\<lambda>(env, v1).
     bind_ub (sensor_msg_position_x_get env msg) (\<lambda>(env, v2).
     bind_ub (sensor_msg_position_y_get env msg) (\<lambda>(env, v3).
     bind_ub (sensor_msg_sensor_temp_get env msg) (\<lambda>(env, v4).
     bind_ub (sensor_msg_sensor_photo_get env msg) (\<lambda>(env, v5).
     bind_ub (sensor_msg_sensor_sound_get env msg) (\<lambda>(env, v6).
     bind_ub (sensor_msg_sensor_x_acc_get env msg) (\<lambda>(env, v7).
     bind_ub (sensor_msg_sensor_y_acc_get env msg) (\<lambda>(env, v8).
     bind_ub (sensor_msg_sensor_x_mag_get env msg) (\<lambda>(env, v9).
     bind_ub (sensor_msg_sensor_y_mag_get env msg) (\<lambda>(env, v10).
     bind_ub (sensor_msg_crc_get env msg) (\<lambda>(env, v11).
     Inr (env, \<lparr>s_node = v0, s_parent = v1, s_px = v2, s_py = v3, s_temp = v4, s_photo = v5, s_sound = v6, s_xacc = v7, s_yacc = v8, s_xmag = v9, s_ymag = v10, s_crc = v11\<rparr>)))))))))))))"

definition sample_fields :: "sample \<Rightarrow> ((u64 \<times> u64) \<times> u64) list" where
  "sample_fields s = [((0, 16), ucast (s_node s)),
     ((16, 16), ucast (s_parent s)),
     ((32, 16), ucast (s_px s)),
     ((48, 16), ucast (s_py s)),
     ((64, 16), ucast (s_temp s)),
     ((80, 16), ucast (s_photo s)),
     ((96, 16), ucast (s_sound s)),
     ((112, 16), ucast (s_xacc s)),
     ((128, 16), ucast (s_yacc s)),
     ((144, 16), ucast (s_xmag s)),
     ((160, 16), ucast (s_ymag s)),
     ((176, 16), ucast (s_crc s))]"

lemma sensor_msg_fill_fields: "sensor_msg_fill env msg s = ube.wr_fields env msg (sample_fields s)"
  by (simp add: sensor_msg_fill_def sample_fields_def sensor_msg_set_defs)

lemma fits_ucast16: "fits 16 (ucast (x :: u16))" and fits_ucast8: "fits 8 (ucast (y :: u8))"
  by (auto simp: fits_def bit_eq_iff bit_take_bit_iff bit_ucast_iff dest: bit_imp_le_length)

lemma ret_u16_ucast [simp]: "ret_u16 (Inr (env, ucast (x :: u16))) = Inr (env, x)"
  and ret_u8_ucast [simp]: "ret_u8 (Inr (env, ucast (y :: u8))) = Inr (env, y)"
  by (auto simp: ret_u16_def ret_u8_def bit_eq_iff bit_ucast_iff dest: bit_imp_le_length)

lemma sample_fields_ok:
  assumes "SENSOR_MSG_SIZE \<le> unat (msg_len msg)"
  shows "\<forall>(f, x) \<in> set (sample_fields s). field_in msg (fst f) (snd f) \<and> fits (snd f) x"
    and "sorted_wrt (\<lambda>fx gy. apart (fst fx) (fst gy)) (sample_fields s)"
  using assms
  by (simp_all add: sample_fields_def field_in_def fits_ucast16 apart_def SENSOR_MSG_SIZE_def)

text \<open>
  C40: A message with room for a sample, filled with the twelve setters in turn, reads
  back as exactly that sample; no access leaves the buffer and the failure hook does not run.
\<close>

theorem sensor_msg_roundtrip:
  assumes "wf_tmsg msg" and "SENSOR_MSG_SIZE \<le> unat (msg_len msg)"
  shows "\<exists>msg'. sensor_msg_fill env msg s = Inr (env, msg') \<and> same_shape msg' msg \<and>
    sensor_msg_parse env msg' = Inr (env, s)"
proof -
  from ube.wr_fields_read_back [OF assms(1) sample_fields_ok [OF assms(2), of s], of env]
  obtain msg' where w: "sensor_msg_fill env msg s = Inr (env, msg')" "same_shape msg' msg"
    and r: "\<forall>(f, x) \<in> set (sample_fields s). tmsg_read_ube env msg' (fst f) (snd f) = Inr (env, x)"
    unfolding sensor_msg_fill_fields by blast
  from r have "sensor_msg_parse env msg' = Inr (env, s)"
    by (simp add: sample_fields_def sensor_msg_parse_def sensor_msg_get_defs)
  with w show ?thesis by blast
qed

definition blank_msg :: tmsg where
  "blank_msg = \<lparr>msg_data = replicate 24 0, msg_len = 24\<rparr>"

theorem sensor_msg_roundtrip_witness:
  "\<exists>msg'. sensor_msg_fill \<lparr>failfn = None, fail_log = []\<rparr> blank_msg
      \<lparr>s_node = 1, s_parent = 2, s_px = 3, s_py = 4, s_temp = 5, s_photo = 6, s_sound = 7, s_xacc = 8,
       s_yacc = 9, s_xmag = 10, s_ymag = 11, s_crc = 0xABCD\<rparr> =
      Inr (\<lparr>failfn = None, fail_log = []\<rparr>, msg') \<and> same_shape msg' blank_msg \<and>
    sensor_msg_parse \<lparr>failfn = None, fail_log = []\<rparr> msg' = Inr (\<lparr>failfn = None, fail_log = []\<rparr>,
      \<lparr>s_node = 1, s_parent = 2, s_px = 3, s_py = 4, s_temp = 5, s_photo = 6, s_sound = 7, s_xacc = 8,
       s_yacc = 9, s_xmag = 10, s_ymag = 11, s_crc = 0xABCD\<rparr>)"
  by (rule sensor_msg_roundtrip) (simp_all add: blank_msg_def wf_tmsg_def SENSOR_MSG_SIZE_def)

subsection \<open>The packet header\<close>

record spacket_header =
  h_dest :: u16
  h_src :: u16
  h_length :: u8
  h_group :: u8
  h_type :: u8

definition spacket_fill ::
  "failenv \<Rightarrow> tmsg \<Rightarrow> spacket_header \<Rightarrow> u64 \<Rightarrow> u8 \<Rightarrow> (failenv \<times> tmsg) ub" where
  "spacket_fill env msg h i b =
     bind_ub (spacket_header_dest_set env msg (h_dest h)) (\<lambda>(env, msg).
     bind_ub (spacket_header_src_set env msg (h_src h)) (\<lambda>(env, msg).
     bind_ub (spacket_header_length_set env msg (h_length h)) (\<lambda>(env, msg).
     bind_ub (spacket_header_group_set env msg (h_group h)) (\<lambda>(env, msg).
     bind_ub (spacket_header_type_set env msg (h_type h)) (\<lambda>(env, msg).
     spacket_data_set env msg i b)))))"

definition spacket_fields :: "spacket_header \<Rightarrow> u64 \<Rightarrow> u8 \<Rightarrow> ((u64 \<times> u64) \<times> u64) list" where
  "spacket_fields h i b = [((0, 16), ucast (h_dest h)), ((16, 16), ucast (h_src h)),
     ((32, 8), ucast (h_length h)), ((40, 8), ucast (h_group h)), ((48, 8), ucast (h_type h)),
     ((spacket_data_offsetbits i, 8), ucast b)]"

lemma spacket_fill_fields: "spacket_fill env msg h i b = ube.wr_fields env msg (spacket_fields h i b)"
  by (simp add: spacket_fill_def spacket_fields_def spacket_set_defs spacket_data_set_def)

lemma unat_data_offsetbits:
  assumes "7 + unat i < L" and "L < 2 ^ 60"
  shows "unat (spacket_data_offsetbits i) = 56 + 8 * unat i"
proof -
  have "unat (i * 8) = 8 * unat i" using assms by (simp add: unat_word_ariths)
  with assms show ?thesis by (simp add: spacket_data_offsetbits_def unat_word_ariths)
qed

lemma spacket_fields_ok:
  assumes "wf_tmsg msg" and "7 + unat i < unat (msg_len msg)"
  shows "\<forall>(f, x) \<in> set (spacket_fields h i b). field_in msg (fst f) (snd f) \<and> fits (snd f) x"
    and "sorted_wrt (\<lambda>fx gy. apart (fst fx) (fst gy)) (spacket_fields h i b)"
  using assms unat_data_offsetbits [OF assms(2)]
  by (simp_all add: spacket_fields_def field_in_def fits_ucast16 fits_ucast8 apart_def wf_tmsg_def)

text \<open>
  The header fields and any payload byte of a serial packet are independent: after
  setting all of them, every getter returns what its setter wrote, for every payload index that
  lies in the packet.
\<close>

theorem spacket_roundtrip:
  assumes "wf_tmsg msg" and "7 + unat i < unat (msg_len msg)"
  shows "\<exists>msg'. spacket_fill env msg h i b = Inr (env, msg') \<and> same_shape msg' msg \<and>
    spacket_header_dest_get env msg' = Inr (env, h_dest h) \<and>
    spacket_header_src_get env msg' = Inr (env, h_src h) \<and>
    spacket_header_length_get env msg' = Inr (env, h_length h) \<and>
    spacket_header_group_get env msg' = Inr (env, h_group h) \<and>
    spacket_header_type_get env msg' = Inr (env, h_type h) \<and>
    spacket_data_get env msg' i = Inr (env, b)"
proof -
  from ube.wr_fields_read_back [OF assms(1) spacket_fields_ok [OF assms, of h b], of env]
  obtain msg' where w: "spacket_fill env msg h i b = Inr (env, msg')" "same_shape msg' msg"
    and r: "\<forall>(f, x) \<in> set (spacket_fields h i b). tmsg_read_ube env msg' (fst f) (snd f) = Inr (env, x)"
    unfolding spacket_fill_fields by blast
  from r w show ?thesis
    by (simp add: spacket_fields_def spacket_get_defs spacket_data_get_def)
qed

theorem spacket_roundtrip_witness:
  "\<exists>msg'. spacket_fill \<lparr>failfn = None, fail_log = []\<rparr> blank_msg
      \<lparr>h_dest = 0xFFFF, h_src = 0, h_length = 24, h_group = 0x22, h_type = 43\<rparr> 16 0x7E =
      Inr (\<lparr>failfn = None, fail_log = []\<rparr>, msg') \<and>
    spacket_header_type_get \<lparr>failfn = None, fail_log = []\<rparr> msg' = Inr (\<lparr>failfn = None, fail_log = []\<rparr>, 43) \<and>
    spacket_data_get \<lparr>failfn = None, fail_log = []\<rparr> msg' 16 = Inr (\<lparr>failfn = None, fail_log = []\<rparr>, 0x7E)"
proof -
  have "wf_tmsg blank_msg" "7 + unat (16 :: u64) < unat (msg_len blank_msg)"
    by (simp_all add: blank_msg_def wf_tmsg_def)
  from spacket_roundtrip [OF this, of "\<lparr>failfn = None, fail_log = []\<rparr>"
      "\<lparr>h_dest = 0xFFFF, h_src = 0, h_length = 24, h_group = 0x22, h_type = 43\<rparr>" "0x7E"]
  show ?thesis by auto
qed

end
