(* ===== verification/Crc.thy ===== *)
theory Crc
  imports Prelude
begin

unbundle bit_operations_syntax

section \<open>The CRC-16 of the serial protocol\<close>

text \<open>
  The checksum that guards every frame on the serial line (\<open>crc_byte\<close> and \<open>crc_packet\<close> in
  lib/sf/serialsource.c) and every sample that the motes send (\<open>crcByte\<close> in src/motes/crc.h and
  in src/sensor/tgx_sensor_client.c). The definitions follow the bit loop of the C code; the
  lemmas show that the register is linear, that it is the bit-serial division by the ITU-T
  polynomial, and which transmission errors it is sure to detect.
\<close>

subsection \<open>The code\<close>

text \<open>One pass of the loop body of \<open>crc_byte\<close>.\<close>

definition crc_shift :: "u16 \<Rightarrow> u16" where
  "crc_shift crc =
     (if crc AND 0x8000 \<noteq> 0 then push_bit 1 crc XOR 0x1021 else push_bit 1 crc)"

text \<open>The loop \<open>do ... while (--i)\<close>, with its 8-bit counter.\<close>

function crc_loop :: "u8 \<Rightarrow> u16 \<Rightarrow> u16" where
  "crc_loop i crc =
     (if i - 1 = 0 then crc_shift crc else crc_loop (i - 1) (crc_shift crc))"
  by pat_completeness auto
termination
proof (relation "measure (\<lambda>(i, crc). unat (i - 1))", goal_cases)
  case (2 i crc)
  then have "i - 1 \<noteq> 0" by simp
  then have "unat (i - 1 - 1) < unat (i - 1)" by (rule unat_pred)
  then show ?case by simp
qed simp

declare crc_loop.simps [simp del]

definition crc_byte :: "u16 \<Rightarrow> u8 \<Rightarrow> u16" where
  "crc_byte crc b = crc_loop 8 (crc XOR push_bit 8 (ucast b))"

text \<open>\<open>crc_packet\<close> walks \<open>data\<close> with \<open>while (len-- > 0)\<close>; an access outside the buffer faults.\<close>

function crc_packet_loop :: "u8 list \<Rightarrow> int \<Rightarrow> int \<Rightarrow> u16 \<Rightarrow> u16 ub" where
  "crc_packet_loop mem data len crc =
     (if 0 < len
      then bind_ub (peek mem data) (\<lambda>b. crc_packet_loop mem (data + 1) (len - 1) (crc_byte crc b))
      else Inr crc)"
  by pat_completeness auto
termination
  by (relation "measure (\<lambda>(mem, data, len, crc). nat len)") auto

declare crc_packet_loop.simps [simp del]

definition crc_packet :: "u8 list \<Rightarrow> int \<Rightarrow> u16 ub" where
  "crc_packet mem len = crc_packet_loop mem 0 len 0"

text \<open>
  The loop-free variant that src/motes/crc.h documents next to the loop, as computing the same
  polynomial.
\<close>

definition swap_bytes :: "u16 \<Rightarrow> u16" where
  "swap_bytes crc = drop_bit 8 crc OR push_bit 8 crc"

definition crcByte_fast :: "u16 \<Rightarrow> u8 \<Rightarrow> u16" where
  "crcByte_fast crc0 b =
     (let crc1 = swap_bytes crc0;
          crc2 = crc1 XOR ucast b;
          crc3 = crc2 XOR drop_bit 4 (crc2 AND 0xff);
          crc4 = crc3 XOR push_bit 12 crc3
      in crc4 XOR push_bit 5 (crc4 AND 0xff))"

text \<open>The checksum of a byte string, the reference for every loop above.\<close>

primrec crc_run :: "u16 \<Rightarrow> u8 list \<Rightarrow> u16" where
  "crc_run crc [] = crc"
| "crc_run crc (b # bs) = crc_run (crc_byte crc b) bs"

subsection \<open>Linearity and injectivity\<close>

lemma crc_shift_alt: "crc_shift c = push_bit 1 c XOR (if bit c 15 then 0x1021 else 0)"
proof -
  have "(c AND 0x8000 = 0) = (\<not> bit c 15)"
    using and_exp_eq_0_iff_not_bit [of c 15] by simp
  then show ?thesis by (simp add: crc_shift_def)
qed

lemma crc_shift_0 [simp]: "crc_shift 0 = 0"
  by (simp add: crc_shift_alt)

lemma crc_shift_xor: "crc_shift (a XOR b) = crc_shift a XOR crc_shift b"
  by (simp add: crc_shift_alt bit_xor_iff push_bit_xor ac_simps)

lemma bit_crc_shift:
  "bit (crc_shift c) i \<longleftrightarrow>
     (1 \<le> i \<and> i < 16 \<and> bit c (i - 1)) \<noteq> (bit c 15 \<and> bit (0x1021 :: u16) i)"
  by (simp only: crc_shift_alt bit_xor_iff bit_push_bit_iff) (auto simp: bit_simps)

lemma crc_shift_eq_0: "crc_shift c = 0 \<longleftrightarrow> c = 0"
proof
  assume z: "crc_shift c = 0"
  have "\<not> bit (crc_shift c) 0" by (simp add: z)
  then have b15: "\<not> bit c 15" by (simp add: bit_crc_shift)
  show "c = 0"
  proof (rule bit_eqI)
    fix i assume "possible_bit TYPE(u16) i"
    then have "i < 16" by simp
    show "bit c i = bit (0 :: u16) i"
    proof (cases "i = 15")
      case False
      with \<open>i < 16\<close> have "bit (crc_shift c) (Suc i) = bit c i" using b15 by (simp add: bit_crc_shift)
      then show ?thesis by (simp add: z)
    qed (simp add: b15)
  qed
qed simp

lemma crc_loop_8: "crc_loop 8 c = (crc_shift ^^ 8) c"
proof -
  have "crc_loop 8 c = crc_shift (crc_shift (crc_shift (crc_shift
      (crc_shift (crc_shift (crc_shift (crc_shift c)))))))"
    by (simp add: crc_loop.simps)
  then show ?thesis by (simp add: eval_nat_numeral)
qed

lemma crc_shifts_xor: "(crc_shift ^^ n) (a XOR b) = (crc_shift ^^ n) a XOR (crc_shift ^^ n) b"
  by (induction n) (simp_all add: crc_shift_xor)

lemma crc_shifts_0 [simp]: "(crc_shift ^^ n) 0 = 0"
  by (induction n) simp_all

lemma crc_shifts_eq_0: "(crc_shift ^^ n) c = 0 \<longleftrightarrow> c = 0"
  by (induction n) (simp_all add: crc_shift_eq_0)

lemma crc_byte_alt: "crc_byte c b = (crc_shift ^^ 8) (c XOR push_bit 8 (ucast b))"
  by (simp add: crc_byte_def crc_loop_8)

lemma crc_byte_xor: "crc_byte (c XOR d) (a XOR b) = crc_byte c a XOR crc_byte d b"
  by (simp add: crc_byte_alt unsigned_xor_eq push_bit_xor crc_shifts_xor ac_simps)

lemma crc_run_xor:
  "length as = length bs \<Longrightarrow>
   crc_run (c XOR d) (map2 (XOR) as bs) = crc_run c as XOR crc_run d bs"
  by (induction as bs arbitrary: c d rule: list_induct2) (simp_all add: crc_byte_xor)

lemma crc_run_append: "crc_run c (as @ bs) = crc_run (crc_run c as) bs"
  by (induction as arbitrary: c) simp_all

subsection \<open>The register as a bit-serial divider\<close>

definition crc_bit :: "u16 \<Rightarrow> bool \<Rightarrow> u16" where
  "crc_bit c b = crc_shift (c XOR (if b then 0x8000 else 0))"

definition msb_bits :: "u8 \<Rightarrow> bool list" where
  "msb_bits b = map (bit b) [7, 6, 5, 4, 3, 2, 1, 0]"

definition packet_bits :: "u8 list \<Rightarrow> bool list" where
  "packet_bits bs = concat (map msb_bits bs)"

primrec top_aligned :: "bool list \<Rightarrow> u16" where
  "top_aligned [] = 0"
| "top_aligned (b # bs) = (if b then 0x8000 else 0) XOR drop_bit 1 (top_aligned bs)"

lemma bit_0x8000 [simp]: "bit (0x8000 :: int) i \<longleftrightarrow> i = 15"
  using bit_exp_iff [where 'a = int, of 15 i] by auto

lemma bit_top_aligned:
  "bit (top_aligned bs) i \<longleftrightarrow> i < 16 \<and> 15 - i < length bs \<and> bs ! (15 - i)"
proof (induction bs arbitrary: i)
  case (Cons b bs)
  show ?case
  proof (cases "i < 15")
    case True
    then have "15 - i = Suc (15 - Suc i)" by simp
    with True show ?thesis
      by (cases b) (simp_all add: bit_xor_iff bit_drop_bit_eq Cons.IH)
  next
    case False
    then show ?thesis by (cases "i = 15") (auto simp: bit_xor_iff bit_drop_bit_eq Cons.IH)
  qed
qed simp

lemma top_aligned_eq_0: "length bs \<le> 16 \<Longrightarrow> top_aligned bs = 0 \<longleftrightarrow> True \<notin> set bs"
proof -
  assume len: "length bs \<le> 16"
  have "top_aligned bs = 0 \<longleftrightarrow> (\<forall>i<16. \<not> bit (top_aligned bs) i)"
    by (auto intro!: bit_eqI)
  also have "\<dots> \<longleftrightarrow> (\<forall>j<length bs. \<not> bs ! j)"
  proof (intro iffI allI impI)
    fix j assume a: "\<forall>i<16. \<not> bit (top_aligned bs) i" and j: "j < length bs"
    from a have "\<not> bit (top_aligned bs) (15 - j)" by simp
    with j len show "\<not> bs ! j" by (simp add: bit_top_aligned)
  qed (simp add: bit_top_aligned)
  also have "\<dots> \<longleftrightarrow> True \<notin> set bs" by (auto simp: in_set_conv_nth)
  finally show ?thesis .
qed

lemma crc_shift_top_aligned:
  assumes "length bs < 16"
  shows "crc_shift (top_aligned (b # bs)) = crc_shift (if b then 0x8000 else 0) XOR top_aligned bs"
proof -
  have "\<not> bit (drop_bit 1 (top_aligned bs)) 15"
    by (simp add: bit_drop_bit_eq bit_top_aligned)
  then have "crc_shift (drop_bit 1 (top_aligned bs)) = push_bit 1 (drop_bit 1 (top_aligned bs))"
    by (simp only: crc_shift_alt if_False xor.right_neutral)
  also have "\<dots> = top_aligned bs"
    using assms by (intro bit_eqI) (auto simp only: bit_push_bit_iff bit_drop_bit_eq bit_top_aligned
        o_def possible_bit_word less_one le_add_diff_inverse split: nat.splits)
  finally show ?thesis by (simp add: crc_shift_xor)
qed

lemma foldl_crc_bit:
  "length bs \<le> 16 \<Longrightarrow>
   foldl crc_bit c bs = (crc_shift ^^ length bs) (c XOR top_aligned bs)"
proof (induction bs arbitrary: c)
  case (Cons b bs)
  then have "foldl crc_bit c (b # bs) =
      (crc_shift ^^ length bs) (crc_bit c b XOR top_aligned bs)" by simp
  also have "crc_bit c b XOR top_aligned bs = crc_shift (c XOR top_aligned (b # bs))"
    using Cons.prems crc_shift_top_aligned [of bs b]
    by (simp add: crc_bit_def crc_shift_xor ac_simps del: top_aligned.simps)
  also have "(crc_shift ^^ length bs) \<dots> = (crc_shift ^^ length (b # bs)) (c XOR top_aligned (b # bs))"
    by (simp add: funpow_swap1 del: top_aligned.simps)
  finally show ?case .
qed simp

lemma length_msb_bits [simp]: "length (msb_bits b) = 8"
  by (simp add: msb_bits_def)

lemma top_aligned_msb_bits: "top_aligned (msb_bits b) = push_bit 8 (ucast b)"
proof (rule bit_eqI)
  fix i assume "possible_bit TYPE(u16) i"
  then have "i < 16" by simp
  have nth: "j < 8 \<Longrightarrow> msb_bits b ! j = bit b (7 - j)" for j
    by (auto simp: msb_bits_def less_Suc_eq numeral_eq_Suc nth_Cons')
  show "bit (top_aligned (msb_bits b)) i = bit (push_bit 8 (ucast b :: u16)) i"
    using \<open>i < 16\<close>
    by (cases "8 \<le> i") (auto simp: bit_top_aligned nth bit_push_bit_iff bit_ucast_iff)
qed

lemma crc_byte_bits: "crc_byte c b = foldl crc_bit c (msb_bits b)"
  by (simp add: crc_byte_alt foldl_crc_bit top_aligned_msb_bits)

lemma crc_run_bits: "crc_run c bs = foldl crc_bit c (packet_bits bs)"
  by (induction bs arbitrary: c) (simp_all add: packet_bits_def crc_byte_bits)


subsection \<open>Error detection\<close>

definition parity :: "bool list \<Rightarrow> bool" where
  "parity bs = odd (length (filter id bs))"

definition word_parity :: "u16 \<Rightarrow> bool" where
  "word_parity c = parity (map (bit c) [0..<16])"

lemma parity_simps [simp]: "parity [] = False" "parity (b # bs) = (b \<noteq> parity bs)"
  by (simp_all add: parity_def)

lemma word_parity_expand: "word_parity c =
   (bit c 0 \<noteq> (bit c 1 \<noteq> (bit c 2 \<noteq> (bit c 3 \<noteq> (bit c 4 \<noteq> (bit c 5 \<noteq> (bit c 6 \<noteq> (bit c 7 \<noteq>
   (bit c 8 \<noteq> (bit c 9 \<noteq> (bit c 10 \<noteq> (bit c 11 \<noteq> (bit c 12 \<noteq> (bit c 13 \<noteq> (bit c 14 \<noteq> bit c 15)))))))))))))))"
  by (simp add: word_parity_def upt_rec numeral_eq_Suc)

lemma word_parity_xor: "word_parity (a XOR b) \<longleftrightarrow> word_parity a \<noteq> word_parity b"
  unfolding word_parity_expand bit_xor_iff by argo

lemma bit_0x1021: "bit (0x1021 :: int) i \<longleftrightarrow> i = 0 \<or> i = 5 \<or> i = 12"
proof (cases "i < 13")
  case True
  then have "i = 12 \<or> i = 11 \<or> i = 10 \<or> i = 9 \<or> i = 8 \<or> i = 7 \<or> i = 6 \<or> i = 5 \<or> i = 4 \<or> i = 3 \<or> i = 2 \<or> i = 1 \<or> i = 0" by arith
  then show ?thesis by auto
next
  case False
  then have "(2 :: int) ^ 13 \<le> 2 ^ i" by (intro power_increasing) auto
  then have "(0x1021 :: int) div 2 ^ i = 0" by simp
  with False show ?thesis by (simp add: bit_iff_odd)
qed

lemma word_parity_shift: "word_parity (crc_shift c) = word_parity c"
proof -
  have "bit (crc_shift c) i = ((1 \<le> i \<and> bit c (i - 1)) \<noteq> (bit c 15 \<and> i \<in> {0, 5, 12}))"
    if "i < 16" for i
    using that by (auto simp: bit_crc_shift bit_0x1021)
  then show ?thesis unfolding word_parity_expand by simp argo
qed


lemma parity_append [simp]: "parity (as @ bs) \<longleftrightarrow> parity as \<noteq> parity bs"
  by (simp add: parity_def)

lemma word_parity_crc_bit: "word_parity (crc_bit c b) \<longleftrightarrow> word_parity c \<noteq> b"
  by (simp add: crc_bit_def word_parity_shift word_parity_xor) (simp add: word_parity_expand)

lemma word_parity_foldl: "word_parity (foldl crc_bit c bs) \<longleftrightarrow> word_parity c \<noteq> parity bs"
  by (induction bs arbitrary: c) (auto simp: word_parity_crc_bit)

lemma word_parity_0 [simp]: "\<not> word_parity 0"
  by (simp add: word_parity_expand)

lemma crc_run_word_parity: "word_parity (crc_run c bs) \<longleftrightarrow> word_parity c \<noteq> parity (packet_bits bs)"
  by (simp add: crc_run_bits word_parity_foldl)

text \<open>The bits in which two packets of the same length differ.\<close>

definition flips :: "u8 list \<Rightarrow> u8 list \<Rightarrow> bool list" where
  "flips as bs = packet_bits (map2 (XOR) as bs)"

lemma crc_run_flips:
  "length as = length bs \<Longrightarrow> crc_run c as = crc_run c bs \<longleftrightarrow> foldl crc_bit 0 (flips as bs) = 0"
  using crc_run_xor [of as bs c c] crc_run_bits [of 0 "map2 (XOR) as bs"]
  by (auto simp: flips_def)

lemma foldl_crc_bit_zeros: "foldl crc_bit c (replicate n False) = (crc_shift ^^ n) c"
  by (induction n arbitrary: c) (simp_all add: crc_bit_def funpow_swap1)

lemma crc_run_detects_bursts:
  assumes "length as = length bs"
    and "flips as bs = replicate m False @ burst @ replicate n False"
    and "length burst \<le> 16" and "True \<in> set burst"
  shows "crc_run c as \<noteq> crc_run c bs"
proof -
  have "foldl crc_bit 0 (flips as bs) = (crc_shift ^^ (length burst + n)) (top_aligned burst)"
    using assms(3) by (simp add: assms(2) foldl_crc_bit_zeros foldl_crc_bit funpow_add add.commute)
  also have "\<dots> \<noteq> 0"
    using assms(3,4) by (simp add: crc_shifts_eq_0 top_aligned_eq_0)
  finally show ?thesis using assms(1) by (simp add: crc_run_flips)
qed

lemma crc_run_detects_odd_flips:
  assumes "length as = length bs" and "parity (flips as bs)"
  shows "crc_run c as \<noteq> crc_run c bs"
proof -
  have "word_parity (foldl crc_bit 0 (flips as bs))"
    using assms(2) by (simp add: word_parity_foldl)
  then have "foldl crc_bit 0 (flips as bs) \<noteq> 0" by auto
  with assms(1) show ?thesis by (simp add: crc_run_flips)
qed


lemma crc_packet_loop_run:
  "p + n \<le> length mem \<Longrightarrow>
   crc_packet_loop mem (int p) (int n) c = Inr (crc_run c (take n (drop p mem)))"
proof (induction n arbitrary: p c)
  case (Suc n)
  then have "drop p mem = mem ! p # drop (Suc p) mem" by (simp add: Cons_nth_drop_Suc)
  moreover have "int p + 1 = int (Suc p)" by simp
  ultimately show ?case using Suc.prems Suc.IH [of "Suc p" "crc_byte c (mem ! p)"]
    by (subst crc_packet_loop.simps) (simp add: add.commute)
qed (simp add: crc_packet_loop.simps)

lemma crc_packet_run: "n \<le> length mem \<Longrightarrow> crc_packet mem (int n) = Inr (crc_run 0 (take n mem))"
  using crc_packet_loop_run [of 0 n mem 0] by (simp add: crc_packet_def)

subsection \<open>The loop-free variant\<close>

lemma xor_linear_eq:
  fixes f g :: "u16 \<Rightarrow> u16"
  assumes lf: "\<And>a b. f (a XOR b) = f a XOR f b" and lg: "\<And>a b. g (a XOR b) = g a XOR g b"
    and basis: "\<And>i. i < 16 \<Longrightarrow> f (push_bit i 1) = g (push_bit i 1)"
  shows "f x = g x"
proof -
  have z: "f 0 = g 0" using lf [of 0 0] lg [of 0 0] by simp
  have "f (take_bit n x) = g (take_bit n x)" if "n \<le> 16" for n
    using that
  proof (induction n)
    case (Suc n)
    have "take_bit (Suc n) x = take_bit n x XOR (if bit x n then push_bit n 1 else 0)"
      by (rule bit_eqI) (auto simp: bit_take_bit_iff bit_xor_iff bit_exp_iff less_Suc_eq)
    then show ?case using Suc basis [of n] by (cases "bit x n") (simp_all add: lf lg z)
  qed (simp add: z)
  moreover have "take_bit 16 x = x" by (rule bit_eqI) (simp add: bit_take_bit_iff)
  ultimately show ?thesis by (metis order_refl)
qed

definition crc_fast_mix :: "u16 \<Rightarrow> u16" where
  "crc_fast_mix crc2 =
     (let crc3 = crc2 XOR drop_bit 4 (crc2 AND 0xff);
          crc4 = crc3 XOR push_bit 12 crc3
      in crc4 XOR push_bit 5 (crc4 AND 0xff))"

lemma swap_bytes_xor: "swap_bytes (a XOR b) = swap_bytes a XOR swap_bytes b"
  unfolding swap_bytes_def
  by (rule bit_eqI) (auto simp: bit_or_iff bit_xor_iff bit_drop_bit_eq bit_push_bit_iff dest: bit_imp_le_length)

lemma swap_bytes_low: "swap_bytes (push_bit 8 (ucast b)) = ucast b" for b :: u8
  unfolding swap_bytes_def
  by (rule bit_eqI) (auto simp: bit_or_iff bit_drop_bit_eq bit_push_bit_iff bit_ucast_iff dest: bit_imp_le_length)

lemma crcByte_fast_mix: "crcByte_fast c b = crc_fast_mix (swap_bytes (c XOR push_bit 8 (ucast b)))"
  by (simp only: crcByte_fast_def crc_fast_mix_def swap_bytes_xor swap_bytes_low Let_def)

lemma crc_fast_mix_xor: "crc_fast_mix (a XOR b) = crc_fast_mix a XOR crc_fast_mix b"
proof -
  have 1: "(a XOR b) AND m = (a AND m) XOR (b AND m)" for a b m :: u16
    by (rule bit_eqI) (auto simp: bit_and_iff bit_xor_iff)
  have 2: "drop_bit n (a XOR b) = drop_bit n a XOR drop_bit n b" for a b :: u16 and n
    by (rule bit_eqI) (simp add: bit_xor_iff bit_drop_bit_eq)
  show ?thesis by (simp only: crc_fast_mix_def Let_def 1 2 push_bit_xor xor.assoc xor.commute xor.left_commute)
qed

lemma crc_fast_basis:
  assumes "i < 16"
  shows "crc_fast_mix (swap_bytes (push_bit i 1)) = (crc_shift ^^ 8) (push_bit i 1)"
proof -
  have shifts: "(crc_shift ^^ 8) c = crc_shift (crc_shift (crc_shift (crc_shift
      (crc_shift (crc_shift (crc_shift (crc_shift c)))))))" for c
    by (simp add: eval_nat_numeral)
  from assms have "i = 15 \<or> i = 14 \<or> i = 13 \<or> i = 12 \<or> i = 11 \<or> i = 10 \<or> i = 9 \<or> i = 8 \<or> i = 7 \<or> i = 6 \<or> i = 5 \<or> i = 4 \<or> i = 3 \<or> i = 2 \<or> i = 1 \<or> i = 0" by arith
  then show ?thesis unfolding shifts
    by (elim disjE) (simp_all add: crc_fast_mix_def swap_bytes_def crc_shift_def)
qed

text \<open>
  The loop-free routine computes the same register as the bit loop, for every register
  value and every byte.
\<close>

theorem crcByte_fast_eq: "crcByte_fast c b = crc_byte c b"
  unfolding crcByte_fast_mix crc_byte_alt
  by (rule xor_linear_eq [of "\<lambda>x. crc_fast_mix (swap_bytes x)" "crc_shift ^^ 8"])
    (simp_all add: swap_bytes_xor crc_fast_mix_xor crc_shifts_xor crc_fast_basis del: push_bit_of_1)

subsection \<open>Which errors the checksum of a packet detects\<close>

text \<open>
  C20: Two packets of the same length that differ only inside a window of at most 16
  consecutive bits, wherever it lies, have different checksums.
\<close>

theorem crc_packet_detects_bursts:
  assumes "length as = n" and "length bs = n"
    and "flips as bs = replicate k False @ burst @ replicate l False"
    and "length burst \<le> 16" and "True \<in> set burst"
  shows "\<exists>ca cb. crc_packet as (int n) = Inr ca \<and> crc_packet bs (int n) = Inr cb \<and> ca \<noteq> cb"
  using crc_packet_run [of n as] crc_packet_run [of n bs] assms
    crc_run_detects_bursts [of as bs k burst l 0] by simp

theorem crc_packet_detects_bursts_witness:
  "\<exists>ca cb. crc_packet [0x45, 1, 2] 3 = Inr ca \<and> crc_packet [0x45, 0xFE, 0xFD] 3 = Inr cb \<and> ca \<noteq> cb"
proof -
  have "flips [0x45, 1, 2] [0x45, 0xFE, 0xFD] = replicate 8 False @ replicate 16 True @ replicate 0 False"
    by (simp add: flips_def packet_bits_def msb_bits_def numeral_eq_Suc)
  from crc_packet_detects_bursts [OF _ _ this, of 3] show ?thesis by simp
qed

text \<open>
  Two packets of the same length that differ in an odd number of bits have
  different checksums.
\<close>

theorem crc_packet_detects_odd_flips:
  assumes "length as = n" and "length bs = n" and "parity (flips as bs)"
  shows "\<exists>ca cb. crc_packet as (int n) = Inr ca \<and> crc_packet bs (int n) = Inr cb \<and> ca \<noteq> cb"
  using crc_packet_run [of n as] crc_packet_run [of n bs] assms
    crc_run_detects_odd_flips [of as bs 0] by simp

theorem crc_packet_detects_odd_flips_witness:
  "\<exists>ca cb. crc_packet [1, 0, 2] 3 = Inr ca \<and> crc_packet [0, 0x80, 3] 3 = Inr cb \<and> ca \<noteq> cb"
proof -
  have "parity (flips [1, 0, 2] [0, 0x80, 3])"
    by (simp add: flips_def packet_bits_def msb_bits_def)
  from crc_packet_detects_odd_flips [OF _ _ this, of 3] show ?thesis by simp
qed

end
