(* ===== verification/SerialSource.thy ===== *)
theory SerialSource
  imports Crc
begin

unbundle bit_operations_syntax

section \<open>The serial protocol of the motes\<close>

text \<open>
  lib/sf/serialsource.c: packets framed HDLC-style (a flag byte at both ends, escapes inside, a
  CRC-16 at the end), acknowledged by sequence number, received by a byte-driven state machine and
  queued by protocol number.

  The operating system is explicit. Field \<open>os\<close> of the source holds what \<open>read\<close>, \<open>select\<close>,
  \<open>write\<close>, \<open>fcntl\<close>, \<open>malloc\<close> and \<open>gettimeofday\<close> will answer, call by call, and \<open>tx\<close> collects
  what was written to the device. When the script of \<open>read\<close> is used up, no data arrives any more:
  a non-blocking call gets \<open>EAGAIN\<close>, a blocking one never returns, which the model reports as
  \<open>Blocked\<close>.
\<close>

subsection \<open>Data\<close>

definition SYNC_BYTE :: u8 where "SYNC_BYTE = 126"
definition ESCAPE_BYTE :: u8 where "ESCAPE_BYTE = 125"
definition P_ACK :: u8 where "P_ACK = 67"
definition P_PACKET_ACK :: u8 where "P_PACKET_ACK = 68"
definition P_PACKET_NO_ACK :: u8 where "P_PACKET_NO_ACK = 69"
definition BUFSIZE :: nat where "BUFSIZE = 256"
definition MTU :: nat where "MTU = 256"
definition ACK_TIMEOUT :: int where "ACK_TIMEOUT = 100000"

datatype serial_source_msg =
    msg_unknown_packet_type | msg_ack_timeout | msg_sync | msg_too_long | msg_too_short
  | msg_bad_sync | msg_bad_crc | msg_closed | msg_no_memory | msg_unix_error

datatype errno = EAGAIN | EINTR | EOTHER

datatype rx_event = RxBytes "u8 list" | RxNothing | RxErrno errno

datatype sel_event = SelReady | SelTimeout | SelErrno errno

datatype wr_event = Wrote nat | WrErrno errno

record os =
  rx :: "rx_event list"
  sel :: "sel_event list"
  wr :: "wr_event list"
  tx :: "u8 list"
  fcntl_ok :: "bool list"
  malloc_ok :: "bool list"
  clock :: "nat \<Rightarrow> int \<times> int"
  ticks :: nat

record packet_list =
  pl_packet :: "u8 list"
  pl_len :: u8

text \<open>\<open>struct serial_source_t\<close>; \<open>queue\<close> gives the chain of packets of each protocol.\<close>

record serial_source =
  non_blocking :: bool
  has_message :: bool
  msg_log :: "serial_source_msg list"
  buffer :: "u8 list"
  bufpos :: nat
  bufused :: nat
  packet :: "u8 list"
  in_sync :: bool
  escaped :: bool
  count :: nat
  queue :: "u8 \<Rightarrow> packet_list list"
  seqno :: u8
  send_escaped :: "u8 list option"
  escapeptr :: nat
  send_crc :: u16
  os :: os

definition message :: "serial_source \<Rightarrow> serial_source_msg \<Rightarrow> serial_source" where
  "message src msg = (if has_message src then src\<lparr>msg_log := msg_log src @ [msg]\<rparr> else src)"

definition malloc :: "serial_source \<Rightarrow> bool \<times> serial_source" where
  "malloc src = (case malloc_ok (os src) of
       [] \<Rightarrow> (True, src)
     | ok # oks \<Rightarrow> (ok, src\<lparr>os := (os src)\<lparr>malloc_ok := oks\<rparr>\<rparr>))"

subsection \<open>Opening a source\<close>

definition baud_rates :: "int list" where
  "baud_rates = [50, 75, 110, 134, 150, 200, 300, 600, 1200, 1800, 2400, 4800, 9600, 19200, 38400,
     57600, 115200, 230400, 460800, 500000, 576000, 921600, 1000000, 1152000, 1500000, 2000000,
     2500000, 3000000, 3500000, 4000000]"

text \<open>
  \<open>flag\<close> stands for the \<open>B<n>\<close> constants of the system's termios.h; \<open>None\<close> for a rate it does
  not define.
\<close>

definition parse_baudrate :: "(int \<Rightarrow> u32 option) \<Rightarrow> int \<Rightarrow> u32" where
  "parse_baudrate flag requested =
     (if requested \<in> set baud_rates then (case flag requested of Some b \<Rightarrow> b | None \<Rightarrow> 0) else 0)"

text \<open>\<open>opened\<close>, \<open>flushed\<close>, \<open>attr_set\<close> are the outcomes of \<open>open\<close>, \<open>tcflush\<close> and \<open>tcsetattr\<close>.\<close>

definition open_serial_source ::
  "(int \<Rightarrow> u32 option) \<Rightarrow> bool \<Rightarrow> bool \<Rightarrow> bool \<Rightarrow> bool \<Rightarrow> os \<Rightarrow> int \<Rightarrow> bool \<Rightarrow> bool \<Rightarrow> serial_source option" where
  "open_serial_source flag opened flushed attr_set mem w baud_rate nonblk msgfn =
     (if parse_baudrate flag baud_rate = 0 then None
      else if \<not> opened then None
      else if flushed \<and> attr_set \<and> mem then
        Some \<lparr>non_blocking = nonblk, has_message = msgfn, msg_log = [],
          buffer = replicate BUFSIZE 0, bufpos = 0, bufused = 0, packet = replicate MTU 0,
          in_sync = False, escaped = False, count = 0, queue = (\<lambda>_. []),
          seqno = 37, send_escaped = None, escapeptr = 0, send_crc = 0, os = w\<rparr>
      else None)"

subsection \<open>Reading the device\<close>

datatype rd_result = RdBytes "u8 list" | RdErr errno | RdBlocked

text \<open>\<open>read(fd, buffer, BUFSIZE)\<close>: at most \<open>BUFSIZE\<close> bytes, what is left stays with the system.\<close>

definition sys_read :: "os \<Rightarrow> rd_result \<times> os" where
  "sys_read w = (case rx w of
       [] \<Rightarrow> (RdErr EAGAIN, w)
     | RxErrno e # es \<Rightarrow> (RdErr e, w\<lparr>rx := es\<rparr>)
     | RxNothing # es \<Rightarrow> (RdBytes [], w\<lparr>rx := es\<rparr>)
     | RxBytes bs # es \<Rightarrow>
         if length bs \<le> BUFSIZE then (RdBytes bs, w\<lparr>rx := es\<rparr>)
         else (RdBytes (take BUFSIZE bs), w\<lparr>rx := RxBytes (drop BUFSIZE bs) # es\<rparr>))"

datatype sel_result = SelCount nat | SelFail errno | SelBlocked

definition sys_select :: "os \<Rightarrow> bool \<Rightarrow> sel_result \<times> os" where
  "sys_select w deadline = (case sel w of
       [] \<Rightarrow> (if rx w \<noteq> [] then SelCount 1 else if deadline then SelCount 0 else SelBlocked, w)
     | SelReady # ss \<Rightarrow> (SelCount 1, w\<lparr>sel := ss\<rparr>)
     | SelTimeout # ss \<Rightarrow> (SelCount 0, w\<lparr>sel := ss\<rparr>)
     | SelErrno e # ss \<Rightarrow> (SelFail e, w\<lparr>sel := ss\<rparr>))"

fun rx_size :: "rx_event \<Rightarrow> nat" where
  "rx_size (RxBytes bs) = Suc (length bs)"
| "rx_size _ = 1"

definition os_size :: "os \<Rightarrow> nat" where
  "os_size w = sum_list (map rx_size (rx w)) + length (sel w)"

lemma sys_read_size:
  assumes "sys_read w = (r, w')"
  shows "os_size w' \<le> os_size w" and "rx w \<noteq> [] \<Longrightarrow> os_size w' < os_size w"
    and "r = RdBytes bs \<Longrightarrow> length bs \<le> BUFSIZE \<and> os_size w' + length bs \<le> os_size w \<and> os_size w' < os_size w"
    and "r \<noteq> RdBlocked"
  using assms
  by (auto simp: sys_read_def os_size_def BUFSIZE_def split: list.splits rx_event.splits if_splits)

lemma sys_select_size:
  assumes "sys_select w d = (r, w')"
  shows "os_size w' \<le> os_size w" and "rx w' = rx w"
    and "r \<noteq> SelBlocked \<Longrightarrow> \<not> d \<Longrightarrow> rx w = [] \<Longrightarrow> os_size w' < os_size w"
    and "r = SelFail e \<Longrightarrow> os_size w' < os_size w"
  using assms by (auto simp: sys_select_def os_size_def split: list.splits sel_event.splits if_splits)

text \<open>The blocking branch of \<open>serial_read\<close>: \<open>select\<close>, then \<open>read\<close>, until something was read.\<close>

function serial_read_wait :: "os \<Rightarrow> rd_result \<times> os" where
  "serial_read_wait w = (case sys_select w False of
       (SelBlocked, w1) \<Rightarrow> (RdBlocked, w1)
     | (SelFail e, w1) \<Rightarrow> (RdErr e, w1)
     | (SelCount n, w1) \<Rightarrow> (case sys_read w1 of
           (RdBytes bs, w2) \<Rightarrow> if bs = [] then serial_read_wait w2 else (RdBytes bs, w2)
         | r \<Rightarrow> r))"
  by pat_completeness auto
termination
proof (relation "measure os_size", goal_cases)
  case (2 w x w1 n y w2 bs)
  then have s: "sys_select w False = (SelCount n, w1)" and r: "sys_read w1 = (RdBytes bs, w2)" by auto
  from sys_select_size(1) [OF s] sys_read_size(3) [OF r refl] show ?case by simp
qed simp

declare serial_read_wait.simps [simp del]

definition serial_read :: "os \<Rightarrow> bool \<Rightarrow> rd_result \<times> os" where
  "serial_read w nonblk =
     (if nonblk then
        (case sys_read w of
           (RdBytes bs, w1) \<Rightarrow> (if bs = [] then RdErr EAGAIN else RdBytes bs, w1)
         | r \<Rightarrow> r)
      else serial_read_wait w)"

lemma serial_read_wait_size:
  "serial_read_wait w = (r, w') \<Longrightarrow> os_size w' \<le> os_size w \<and>
     (\<forall>bs. r = RdBytes bs \<longrightarrow> bs \<noteq> [] \<and> length bs \<le> BUFSIZE \<and> os_size w' + length bs \<le> os_size w
        \<and> os_size w' < os_size w) \<and>
     (\<forall>e. r = RdErr e \<longrightarrow> os_size w' < os_size w)"
proof (induction w arbitrary: r w' rule: serial_read_wait.induct)
  case (1 w)
  obtain rs w1 where s: "sys_select w False = (rs, w1)" by fastforce
  show ?case
  proof (cases rs)
    case (SelCount n)
    obtain rr w2 where rd: "sys_read w1 = (rr, w2)" by fastforce
    note sizes = sys_select_size [OF s] sys_read_size [OF rd]
    show ?thesis
    proof (cases rr)
      case (RdBytes bs)
      show ?thesis
      proof (cases "bs = []")
        case True
        with "1.prems" s rd SelCount RdBytes have "serial_read_wait w2 = (r, w')"
          by (simp add: serial_read_wait.simps [of w])
        from "1.IH" [OF s [symmetric] SelCount rd [symmetric] RdBytes True this] sizes(1) sizes(7) [OF RdBytes]
        show ?thesis by fastforce
      next
        case False
        with "1.prems" s rd SelCount RdBytes have "r = RdBytes bs" "w' = w2"
          by (simp_all add: serial_read_wait.simps [of w])
        with False sizes(1) sizes(7) [OF RdBytes] show ?thesis by simp
      qed
    next
      case (RdErr e)
      with "1.prems" s rd SelCount have "r = RdErr e" "w' = w2"
        by (simp_all add: serial_read_wait.simps [of w])
      moreover have "os_size w2 < os_size w"
        using sizes SelCount by (cases "rx w = []") auto
      ultimately show ?thesis by simp
    next
      case RdBlocked
      with sizes show ?thesis by simp
    qed
  qed (use "1.prems" s sys_select_size [OF s] in \<open>auto simp: serial_read_wait.simps [of w]\<close>)
qed

lemma serial_read_size:
  assumes "serial_read w nb = (r, w')"
  shows "os_size w' \<le> os_size w"
    and "r = RdBytes bs \<Longrightarrow> bs \<noteq> [] \<and> length bs \<le> BUFSIZE \<and> os_size w' + length bs \<le> os_size w \<and> os_size w' < os_size w"
    and "r = RdErr e \<Longrightarrow> e \<noteq> EAGAIN \<Longrightarrow> os_size w' < os_size w"
proof -
  consider (nb) "nb" "serial_read w nb = (case sys_read w of
           (RdBytes bs, w1) \<Rightarrow> (if bs = [] then RdErr EAGAIN else RdBytes bs, w1) | r \<Rightarrow> r)"
    | (bl) "\<not> nb" "serial_read w nb = serial_read_wait w" by (auto simp: serial_read_def)
  then have "os_size w' \<le> os_size w \<and>
     (\<forall>bs. r = RdBytes bs \<longrightarrow> bs \<noteq> [] \<and> length bs \<le> BUFSIZE \<and> os_size w' + length bs \<le> os_size w
        \<and> os_size w' < os_size w) \<and>
     (\<forall>e. r = RdErr e \<longrightarrow> e \<noteq> EAGAIN \<longrightarrow> os_size w' < os_size w)"
  proof cases
    case nb
    obtain rr w2 where rd: "sys_read w = (rr, w2)" by fastforce
    have "rx w = [] \<Longrightarrow> rr = RdErr EAGAIN" using rd by (simp add: sys_read_def)
    then show ?thesis
      using nb rd assms sys_read_size [OF rd] by (cases rr) (auto split: if_splits)
  next
    case bl
    with serial_read_wait_size [of w r w'] assms show ?thesis by simp
  qed
  then show "os_size w' \<le> os_size w"
    and "r = RdBytes bs \<Longrightarrow> bs \<noteq> [] \<and> length bs \<le> BUFSIZE \<and> os_size w' + length bs \<le> os_size w \<and> os_size w' < os_size w"
    and "r = RdErr e \<Longrightarrow> e \<noteq> EAGAIN \<Longrightarrow> os_size w' < os_size w" by auto
qed

datatype byte_result = Byte u8 | NoByte | Blocked

text \<open>The refill loop of \<open>read_byte\<close>: it goes on after \<open>EINTR\<close> and after every other error.\<close>

function refill :: "serial_source \<Rightarrow> bool \<Rightarrow> byte_result option \<times> serial_source" where
  "refill src nonblk = (case serial_read (os src) nonblk of
       (RdBytes bs, w) \<Rightarrow>
         if bs = [] then (Some NoByte, message (src\<lparr>os := w\<rparr>) msg_closed)
         else (None, src\<lparr>os := w, buffer := bs @ drop (length bs) (buffer src), bufpos := 0,
                        bufused := length bs\<rparr>)
     | (RdBlocked, w) \<Rightarrow> (Some Blocked, src\<lparr>os := w\<rparr>)
     | (RdErr e, w) \<Rightarrow>
         if e = EAGAIN then (Some NoByte, src\<lparr>os := w\<rparr>)
         else if e \<noteq> EINTR then refill (message (src\<lparr>os := w\<rparr>) msg_unix_error) nonblk
         else refill (src\<lparr>os := w\<rparr>) nonblk)"
  by pat_completeness auto
termination
proof (relation "measure (\<lambda>(src, nonblk). os_size (os src))", goal_cases)
  case (2 src nonblk x w e)
  then have "serial_read (os src) nonblk = (RdErr e, w)" by simp
  from serial_read_size(3) [OF this refl] 2 show ?case by (simp add: message_def)
next
  case (3 src nonblk x w e)
  then have "serial_read (os src) nonblk = (RdErr e, w)" by simp
  from serial_read_size(3) [OF this refl] 3 show ?case by simp
qed simp

declare refill.simps [simp del]

definition next_byte :: "serial_source \<Rightarrow> (byte_result \<times> serial_source) ub" where
  "next_byte src = bind_ub (peek (buffer src) (int (bufpos src))) (\<lambda>b.
     Inr (Byte b, src\<lparr>bufpos := bufpos src + 1\<rparr>))"

definition read_byte :: "serial_source \<Rightarrow> bool \<Rightarrow> (byte_result \<times> serial_source) ub" where
  "read_byte src nonblk =
     (if bufused src \<le> bufpos src then
        (case refill src nonblk of
           (Some r, src1) \<Rightarrow> Inr (r, src1)
         | (None, src1) \<Rightarrow> next_byte src1)
      else next_byte src)"

subsection \<open>Writing the device\<close>

definition sys_write :: "os \<Rightarrow> u8 list \<Rightarrow> (errno + nat) \<times> os" where
  "sys_write w bs = (case wr w of
       [] \<Rightarrow> (Inr (length bs), w\<lparr>tx := tx w @ bs\<rparr>)
     | Wrote n # es \<Rightarrow> (Inr (min n (length bs)), w\<lparr>wr := es, tx := tx w @ take n bs\<rparr>)
     | WrErrno e # es \<Rightarrow> (Inl e, w\<lparr>wr := es\<rparr>))"

definition sys_fcntl :: "os \<Rightarrow> bool \<times> os" where
  "sys_fcntl w = (case fcntl_ok w of [] \<Rightarrow> (True, w) | ok # oks \<Rightarrow> (ok, w\<lparr>fcntl_ok := oks\<rparr>))"

text \<open>The loop of \<open>source_write\<close>; it returns \<open>actual\<close>, \<open>-1\<close> after an error other than \<open>EINTR\<close>.\<close>

function source_write_loop :: "serial_source \<Rightarrow> u8 list \<Rightarrow> int \<Rightarrow> int \<times> serial_source" where
  "source_write_loop src bs actual =
     (if bs = [] then (actual, src)
      else case sys_write (os src) bs of
          (Inl e, w) \<Rightarrow>
            if e = EINTR then source_write_loop (src\<lparr>os := w\<rparr>) bs actual
            else (- 1, message (src\<lparr>os := w\<rparr>) msg_unix_error)
        | (Inr n, w) \<Rightarrow> source_write_loop (src\<lparr>os := w\<rparr>) (drop n bs) (actual + int n))"
  by pat_completeness auto
termination
  by (relation "measure (\<lambda>(src, bs, actual). length bs + length (wr (os src)))")
    (auto simp: sys_write_def split: list.splits wr_event.splits)

declare source_write_loop.simps [simp del]

definition source_write :: "serial_source \<Rightarrow> u8 list \<Rightarrow> int \<times> serial_source" where
  "source_write src bs =
     (let (ok, w) = sys_fcntl (os src); src1 = src\<lparr>os := w\<rparr> in
      if \<not> ok then (- 1, message src1 msg_unix_error)
      else let (actual, src2) = source_write_loop src1 bs 0;
               (ok', w') = sys_fcntl (os src2); src3 = src2\<lparr>os := w'\<rparr>
           in (actual, if ok' then src3 else message src3 msg_unix_error))"

subsection \<open>The packet queues\<close>

definition push_protocol_packet :: "serial_source \<Rightarrow> u8 \<Rightarrow> u8 list \<Rightarrow> u8 \<Rightarrow> serial_source" where
  "push_protocol_packet src type pkt len =
     (let (ok, src1) = malloc src in
      if \<not> ok then message src1 msg_no_memory
      else src1\<lparr>queue := (queue src1)(type := queue src1 type @ [\<lparr>pl_packet = pkt, pl_len = len\<rparr>])\<rparr>)"

definition pop_protocol_packet :: "serial_source \<Rightarrow> u8 \<Rightarrow> packet_list option \<times> serial_source" where
  "pop_protocol_packet src type = (case queue src type of
       [] \<Rightarrow> (None, src)
     | entry # rest \<Rightarrow> (Some entry, src\<lparr>queue := (queue src)(type := rest)\<rparr>))"

definition packet_available :: "serial_source \<Rightarrow> u8 \<Rightarrow> bool" where
  "packet_available src type \<longleftrightarrow> queue src type \<noteq> []"

definition serial_source_empty :: "serial_source \<Rightarrow> bool" where
  "serial_source_empty src \<longleftrightarrow>
     bufused src \<le> bufpos src \<and> \<not> packet_available src P_PACKET_NO_ACK"

subsection \<open>Encoding a frame\<close>

definition escape_add :: "serial_source \<Rightarrow> u8 \<Rightarrow> serial_source ub" where
  "escape_add src b = (case send_escaped src of
       None \<Rightarrow> Inl UseAfterFree
     | Some buf \<Rightarrow> bind_ub (poke buf (int (escapeptr src)) b) (\<lambda>buf'.
         Inr (src\<lparr>send_escaped := Some buf', escapeptr := escapeptr src + 1\<rparr>)))"

text \<open>A negative size is a huge \<open>size_t\<close>, for which \<open>malloc\<close> returns NULL.\<close>

definition init_escaper :: "serial_source \<Rightarrow> int \<Rightarrow> (int \<times> serial_source) ub" where
  "init_escaper src n =
     (let (ok, src1) = malloc src in
      if \<not> ok \<or> n * 2 + 2 < 0
      then Inr (- 1, message (src1\<lparr>send_escaped := None\<rparr>) msg_no_memory)
      else bind_ub (escape_add (src1\<lparr>send_escaped := Some (replicate (nat (n * 2 + 2)) 0),
                               escapeptr := 0, send_crc := 0\<rparr>) SYNC_BYTE) (\<lambda>src2. Inr (0, src2)))"

definition terminate_escaper :: "serial_source \<Rightarrow> serial_source ub" where
  "terminate_escaper src = escape_add src SYNC_BYTE"

definition escape_byte :: "serial_source \<Rightarrow> u8 \<Rightarrow> serial_source ub" where
  "escape_byte src b =
     (let src1 = src\<lparr>send_crc := crc_byte (send_crc src) b\<rparr> in
      if b = SYNC_BYTE \<or> b = ESCAPE_BYTE
      then bind_ub (escape_add src1 ESCAPE_BYTE) (\<lambda>src2. escape_add src2 (b XOR 0x20))
      else escape_add src1 b)"

definition free_escaper :: "serial_source \<Rightarrow> serial_source" where
  "free_escaper src = src\<lparr>send_escaped := None\<rparr>"

function escape_payload :: "serial_source \<Rightarrow> u8 list \<Rightarrow> int \<Rightarrow> int \<Rightarrow> serial_source ub" where
  "escape_payload src pkt i n =
     (if i < n
      then bind_ub (peek pkt i) (\<lambda>b. bind_ub (escape_byte src b) (\<lambda>src1. escape_payload src1 pkt (i + 1) n))
      else Inr src)"
  by pat_completeness auto
termination
  by (relation "measure (\<lambda>(src, pkt, i, n). nat (n - i))") auto

declare escape_payload.simps [simp del]

text \<open>The end of \<open>write_framed_packet\<close>: write the buffer out and free it.\<close>

definition flush_escaper :: "serial_source \<Rightarrow> (int \<times> serial_source) ub" where
  "flush_escaper src = (case send_escaped src of
       None \<Rightarrow> Inl UseAfterFree
     | Some buf \<Rightarrow>
         (case source_write src (take (escapeptr src) buf) of
            (w, src') \<Rightarrow> Inr (if w < 0 then - 1 else 0, free_escaper src')))"

definition write_framed_packet ::
  "serial_source \<Rightarrow> u8 \<Rightarrow> u8 \<Rightarrow> u8 list \<Rightarrow> int \<Rightarrow> (int \<times> serial_source) ub" where
  "write_framed_packet src packet_type first_byte pkt n =
     bind_ub (init_escaper src (n + 4)) (\<lambda>(r, src0).
     if r < 0 then Inr (- 1, src0)
     else
       bind_ub (escape_byte src0 packet_type) (\<lambda>src1.
       bind_ub (escape_byte src1 first_byte) (\<lambda>src2.
       bind_ub (escape_payload src2 pkt 0 n) (\<lambda>src3.
       let crc = send_crc src3 in
       bind_ub (escape_byte src3 (ucast (crc AND 0xff))) (\<lambda>src4.
       bind_ub (escape_byte src4 (ucast (drop_bit 8 crc))) (\<lambda>src5.
       bind_ub (terminate_escaper src5) flush_escaper))))))"

subsection \<open>Decoding\<close>

text \<open>\<open>memmove(pkt, pkt + off, n)\<close> inside one block.\<close>

definition memmove_down :: "u8 list \<Rightarrow> nat \<Rightarrow> nat \<Rightarrow> u8 list ub" where
  "memmove_down pkt off n =
     (if off + n \<le> length pkt then Inr (take n (drop off pkt) @ drop n pkt) else Inl OutOfBounds)"

definition process_packet :: "serial_source \<Rightarrow> u8 list \<Rightarrow> nat \<Rightarrow> serial_source ub" where
  "process_packet src pkt len =
     bind_ub (peek pkt 0) (\<lambda>packet_type.
     bind_ub
       (if packet_type = P_PACKET_ACK
        then bind_ub (peek pkt 1) (\<lambda>seq.
             bind_ub (write_framed_packet src P_ACK seq [] 0) (\<lambda>(r, src1).
               Inr (src1, P_PACKET_NO_ACK, 2)))
        else Inr (src, packet_type, 1)) (\<lambda>(src1, type, off).
     if len < off then Inl OutOfBounds
     else bind_ub (memmove_down pkt off (len - off)) (\<lambda>pkt'.
            Inr (push_protocol_packet src1 type pkt' (of_nat (len - off))))))"

text \<open>The branch of \<open>read_and_process\<close> for an unescaped flag byte; the result says whether to return.\<close>

definition end_of_frame :: "serial_source \<Rightarrow> (bool \<times> serial_source) ub" where
  "end_of_frame src =
     (let n = count src; src1 = src\<lparr>count := 0\<rparr> in
      if n < 4 then Inr (False, src1)
      else let (ok, src2) = malloc src1 in
        if \<not> ok then Inr (False, message src2 msg_no_memory)
        else if length (packet src) < n - 2 then Inl OutOfBounds
        else let received = take (n - 2) (packet src) in
          bind_ub (peek (packet src) (int (n - 2))) (\<lambda>lo.
          bind_ub (peek (packet src) (int (n - 1))) (\<lambda>hi.
          bind_ub (crc_packet received (int (n - 2))) (\<lambda>computed_crc.
            if ucast lo OR push_bit 8 (ucast hi) = computed_crc
            then bind_ub (process_packet src2 received (n - 2)) (\<lambda>src3. Inr (True, src3))
            else Inr (False, message src2 msg_bad_crc)))))"

definition store_byte :: "serial_source \<Rightarrow> u8 \<Rightarrow> (bool \<times> serial_source) ub" where
  "store_byte src b =
     bind_ub (poke (packet src) (int (count src)) b) (\<lambda>p.
       Inr (False, src\<lparr>packet := p, count := count src + 1\<rparr>))"

text \<open>The body of the loop of \<open>read_and_process\<close>, for one byte.\<close>

definition recv_byte :: "serial_source \<Rightarrow> u8 \<Rightarrow> (bool \<times> serial_source) ub" where
  "recv_byte src b =
     (if \<not> in_sync src then
        Inr (False, if b = SYNC_BYTE
                    then (message (src\<lparr>in_sync := True\<rparr>) msg_sync)\<lparr>count := 0, escaped := False\<rparr>
                    else src)
      else if MTU \<le> count src then Inr (False, (message src msg_too_long)\<lparr>in_sync := False\<rparr>)
      else if escaped src then
        if b = SYNC_BYTE then Inr (False, (message src msg_bad_sync)\<lparr>in_sync := False\<rparr>)
        else store_byte (src\<lparr>escaped := False\<rparr>) (b XOR 0x20)
      else if b = ESCAPE_BYTE then Inr (False, src\<lparr>escaped := True\<rparr>)
      else if b = SYNC_BYTE then end_of_frame src
      else store_byte src b)"

subsection \<open>What sending and decoding leave alone\<close>

text \<open>
  The part of the state that only \<open>read_byte\<close> and \<open>select\<close> touch: the bytes waiting in the buffer
  and in the device. Decoding and sending keep it; sending keeps the receiver's state as well.
\<close>

definition input_view where
  "input_view src = (rx (os src), sel (os src), buffer src, bufpos src, bufused src,
     non_blocking src, has_message src)"

definition rest_view where
  "rest_view src = (input_view src, queue src, packet src, in_sync src, escaped src, count src,
     seqno src, clock (os src), ticks (os src))"

lemma rest_input_view: "rest_view src' = rest_view src \<Longrightarrow> input_view src' = input_view src"
  by (simp add: rest_view_def)

lemma rest_view_message [frame_simps]: "rest_view (message src m) = rest_view src"
  by (simp add: rest_view_def input_view_def message_def)

lemma rest_view_malloc: "malloc src = (ok, src') \<Longrightarrow> rest_view src' = rest_view src"
  by (auto simp: rest_view_def input_view_def malloc_def split: list.splits)

lemma rest_view_update [frame_simps]:
  "rest_view (src\<lparr>send_escaped := a\<rparr>) = rest_view src"
  "rest_view (src\<lparr>escapeptr := n\<rparr>) = rest_view src"
  "rest_view (src\<lparr>send_crc := c\<rparr>) = rest_view src"
  by (simp_all add: rest_view_def input_view_def)

definition os_view where
  "os_view w = (rx w, sel w, clock w, ticks w)"

lemma os_view_sys_fcntl: "sys_fcntl w = (ok, w') \<Longrightarrow> os_view w' = os_view w"
  by (auto simp: os_view_def sys_fcntl_def split: list.splits)

lemma os_view_sys_write: "sys_write w bs = (r, w') \<Longrightarrow> os_view w' = os_view w"
  by (auto simp: os_view_def sys_write_def split: list.splits wr_event.splits)

lemma rest_view_os: "os_view w = os_view (os src) \<Longrightarrow> rest_view (src\<lparr>os := w\<rparr>) = rest_view src"
  by (simp add: rest_view_def input_view_def os_view_def)

lemma rest_view_source_write_loop:
  "source_write_loop src bs a = (r, src') \<Longrightarrow> rest_view src' = rest_view src"
proof (induction src bs a arbitrary: r src' rule: source_write_loop.induct)
  case (1 src bs a)
  obtain rr w where w: "sys_write (os src) bs = (rr, w)" by fastforce
  have v: "rest_view (src\<lparr>os := w\<rparr>) = rest_view src"
    using os_view_sys_write [OF w] by (simp add: rest_view_os)
  show ?case
    using "1.prems" "1.IH" w v
    by (cases rr) (auto simp: source_write_loop.simps [of src bs a] frame_simps split: if_splits)
qed

lemma rest_view_source_write: "source_write src bs = (r, src') \<Longrightarrow> rest_view src' = rest_view src"
  by (auto simp: source_write_def Let_def frame_simps rest_view_os split: prod.splits if_splits
      dest!: os_view_sys_fcntl rest_view_source_write_loop)

lemma rest_view_escape_add: "escape_add src b = Inr src' \<Longrightarrow> rest_view src' = rest_view src"
  by (auto simp: escape_add_def bind_ub_eq_Inr frame_simps split: option.splits)

lemma rest_view_escape_byte: "escape_byte src b = Inr src' \<Longrightarrow> rest_view src' = rest_view src"
  by (auto simp: escape_byte_def Let_def bind_ub_eq_Inr frame_simps split: if_splits
      dest!: rest_view_escape_add)

lemma rest_view_init_escaper: "init_escaper src n = Inr (r, src') \<Longrightarrow> rest_view src' = rest_view src"
  by (auto simp: init_escaper_def Let_def bind_ub_eq_Inr frame_simps split: prod.splits if_splits
      dest!: rest_view_escape_add rest_view_malloc)

lemma rest_view_escape_payload:
  "escape_payload src pkt i n = Inr src' \<Longrightarrow> rest_view src' = rest_view src"
proof (induction src pkt i n arbitrary: src' rule: escape_payload.induct)
  case (1 src pkt i n)
  show ?case
  proof (cases "i < n")
    case True
    with "1.prems" obtain b src1 where "peek pkt i = Inr b" "escape_byte src b = Inr src1"
        "escape_payload src1 pkt (i + 1) n = Inr src'"
      by (auto simp: escape_payload.simps [of src pkt i n] bind_ub_eq_Inr)
    with "1.IH" [OF True] rest_view_escape_byte show ?thesis by metis
  next
    case False
    with "1.prems" show ?thesis by (simp add: escape_payload.simps [of src pkt i n])
  qed
qed

lemma rest_view_flush_escaper: "flush_escaper src = Inr (r, src') \<Longrightarrow> rest_view src' = rest_view src"
  by (auto simp: flush_escaper_def free_escaper_def frame_simps split: option.splits prod.splits
      dest!: rest_view_source_write)

lemma rest_view_write_framed_packet:
  "write_framed_packet src t f pkt n = Inr (r, src') \<Longrightarrow> rest_view src' = rest_view src"
  by (auto simp: write_framed_packet_def Let_def bind_ub_eq_Inr terminate_escaper_def split: if_splits
      dest!: rest_view_init_escaper rest_view_escape_byte rest_view_escape_payload
        rest_view_escape_add rest_view_flush_escaper)

lemma input_view_update [frame_simps]:
  "input_view (src\<lparr>count := n\<rparr>) = input_view src"
  "input_view (src\<lparr>packet := p\<rparr>) = input_view src"
  "input_view (src\<lparr>in_sync := b\<rparr>) = input_view src"
  "input_view (src\<lparr>escaped := b\<rparr>) = input_view src"
  "input_view (src\<lparr>seqno := s\<rparr>) = input_view src"
  "input_view (src\<lparr>queue := q\<rparr>) = input_view src"
  "input_view (message src m) = input_view src"
  by (simp_all add: input_view_def message_def)

lemma input_view_malloc: "malloc src = (ok, src') \<Longrightarrow> input_view src' = input_view src"
  by (blast intro: rest_input_view rest_view_malloc)

lemma input_view_push [frame_simps]: "input_view (push_protocol_packet src t p n) = input_view src"
  by (auto simp: push_protocol_packet_def Let_def frame_simps split: prod.splits dest!: input_view_malloc)

lemma input_view_process_packet: "process_packet src pkt len = Inr src' \<Longrightarrow> input_view src' = input_view src"
  by (auto simp: process_packet_def bind_ub_eq_Inr frame_simps split: prod.splits if_splits
      dest!: rest_view_write_framed_packet rest_input_view)

lemma input_view_end_of_frame: "end_of_frame src = Inr (fin, src') \<Longrightarrow> input_view src' = input_view src"
  by (auto simp: end_of_frame_def Let_def bind_ub_eq_Inr frame_simps split: prod.splits if_splits
      dest!: input_view_process_packet input_view_malloc)

lemma input_view_recv_byte: "recv_byte src b = Inr (fin, src') \<Longrightarrow> input_view src' = input_view src"
  by (auto simp: recv_byte_def store_byte_def bind_ub_eq_Inr frame_simps split: if_splits
      dest!: input_view_end_of_frame)

text \<open>Every byte adds at most one packet to a queue, and only when the loop then returns.\<close>

lemma queue_push: "length (queue (push_protocol_packet src t p n) u) \<le> Suc (length (queue src u))"
  by (auto simp: push_protocol_packet_def Let_def message_def malloc_def split: list.splits)

lemma queue_process_packet:
  assumes "process_packet src pkt len = Inr src'"
  shows "length (queue src' u) \<le> Suc (length (queue src u))"
proof -
  from assms obtain src1 t p n where "queue src1 = queue src" "src' = push_protocol_packet src1 t p n"
    by (auto simp: process_packet_def bind_ub_eq_Inr split: if_splits
        dest!: rest_view_write_framed_packet) (auto simp: rest_view_def)
  with queue_push [of src1 t p n u] show ?thesis by simp
qed

lemma queue_malloc: "malloc src = (ok, src') \<Longrightarrow> queue src' = queue src"
  by (drule rest_view_malloc) (simp add: rest_view_def)

lemma queue_end_of_frame:
  "end_of_frame src = Inr (fin, src') \<Longrightarrow>
   length (queue src' u) \<le> Suc (length (queue src u)) \<and> (\<not> fin \<longrightarrow> queue src' = queue src)"
  by (auto simp: end_of_frame_def Let_def bind_ub_eq_Inr message_def split: prod.splits if_splits
      dest!: queue_process_packet [where u = u] queue_malloc)

lemma queue_recv_byte:
  "recv_byte src b = Inr (fin, src') \<Longrightarrow>
   length (queue src' u) \<le> Suc (length (queue src u)) \<and> (\<not> fin \<longrightarrow> queue src' = queue src)"
  by (auto simp: recv_byte_def store_byte_def bind_ub_eq_Inr message_def split: if_splits
      dest!: queue_end_of_frame [where u = u])

subsection \<open>The receive loop\<close>

definition src_size :: "serial_source \<Rightarrow> nat" where
  "src_size src = (bufused src - bufpos src) + os_size (os src)"

lemma src_size_view: "input_view src' = input_view src \<Longrightarrow> src_size src' = src_size src"
  by (simp add: input_view_def src_size_def os_size_def)

lemma refill_size:
  "refill src nb = (r, src') \<Longrightarrow> os_size (os src') \<le> os_size (os src) \<and>
   (r = None \<longrightarrow> bufpos src' = 0 \<and> 0 < bufused src' \<and> os_size (os src') + bufused src' \<le> os_size (os src))
   \<and> (r \<noteq> None \<longrightarrow> bufpos src' = bufpos src \<and> bufused src' = bufused src) \<and> (\<forall>b. r \<noteq> Some (Byte b))"
proof (induction src nb arbitrary: r src' rule: refill.induct)
  case (1 src nb)
  obtain rr w where rr: "serial_read (os src) nb = (rr, w)" by fastforce
  note size = serial_read_size [OF rr]
  show ?case
  proof (cases rr)
    case (RdErr e)
    have sz: "e \<noteq> EAGAIN \<Longrightarrow> os_size w < os_size (os src)" using size(3) [OF RdErr] .
    from RdErr show ?thesis
      using "1.prems" rr "1.IH" [OF rr [symmetric] RdErr] sz size(1)
      by (cases e) (fastforce simp: refill.simps [of src nb] message_def split: if_splits)+
  next
    case (RdBytes bs)
    with "1.prems" rr size(2) [OF RdBytes] show ?thesis
      by (auto simp: refill.simps [of src nb])
  next
    case RdBlocked
    with "1.prems" rr size(1) show ?thesis by (auto simp: refill.simps [of src nb])
  qed
qed

lemma read_byte_size:
  assumes "read_byte src nb = Inr (r, src')"
  shows "src_size src' \<le> src_size src" and "r = Byte b \<Longrightarrow> src_size src' < src_size src"
proof -
  have "src_size src' \<le> src_size src \<and> (\<forall>b. r = Byte b \<longrightarrow> src_size src' < src_size src)"
  proof (cases "bufused src \<le> bufpos src")
    case True
    obtain rr src1 where rr: "refill src nb = (rr, src1)" by fastforce
    with assms True refill_size [OF rr] show ?thesis
      by (cases rr) (auto simp: read_byte_def next_byte_def bind_ub_eq_Inr src_size_def)
  next
    case False
    with assms show ?thesis
      by (auto simp: read_byte_def next_byte_def bind_ub_eq_Inr src_size_def)
  qed
  then show "src_size src' \<le> src_size src" and "r = Byte b \<Longrightarrow> src_size src' < src_size src" by auto
qed

text \<open>\<open>read_and_process\<close>; the flag in the result is set when the call blocks for ever.\<close>

function read_and_process :: "serial_source \<Rightarrow> bool \<Rightarrow> (bool \<times> serial_source) ub" where
  "read_and_process src nonblk =
     bind_ub (read_byte src nonblk) (\<lambda>(r, src1). case r of
         NoByte \<Rightarrow> Inr (False, src1)
       | Blocked \<Rightarrow> Inr (True, src1)
       | Byte b \<Rightarrow> bind_ub (recv_byte src1 b) (\<lambda>(fin, src2).
           if fin then Inr (False, src2) else read_and_process src2 nonblk))"
  by pat_completeness auto
termination
proof (relation "measure (\<lambda>(src, nonblk). src_size src)", goal_cases)
  case (2 src nonblk x r src1 b y fin src2)
  then have "read_byte src nonblk = Inr (Byte b, src1)" "recv_byte src1 b = Inr (fin, src2)" by auto
  from read_byte_size(2) [OF this(1) refl] src_size_view [OF input_view_recv_byte [OF this(2)]]
  show ?case by simp
qed simp

declare read_and_process.simps [simp del]

lemma refill_queue: "refill src nb = (r, src') \<Longrightarrow> queue src' = queue src \<and> non_blocking src' = non_blocking src"
proof (induction src nb arbitrary: r src' rule: refill.induct)
  case (1 src nb)
  obtain rr w where rr: "serial_read (os src) nb = (rr, w)" by fastforce
  show ?case
  proof (cases rr)
    case (RdErr e)
    show ?thesis
    proof (cases e)
      case EINTR
      with "1.prems" rr RdErr have "refill (src\<lparr>os := w\<rparr>) nb = (r, src')"
        by (simp add: refill.simps [of src nb])
      from "1.IH"(2) [OF rr [symmetric] RdErr _ _ this] EINTR show ?thesis by simp
    next
      case EOTHER
      with "1.prems" rr RdErr have "refill (message (src\<lparr>os := w\<rparr>) msg_unix_error) nb = (r, src')"
        by (simp add: refill.simps [of src nb])
      from "1.IH"(1) [OF rr [symmetric] RdErr _ _ this] EOTHER show ?thesis by (simp add: message_def split: if_splits)
    qed (use "1.prems" rr RdErr in \<open>auto simp: refill.simps [of src nb]\<close>)
  qed (use "1.prems" rr in \<open>auto simp: refill.simps [of src nb] message_def split: if_splits\<close>)
qed

lemma read_byte_queue:
  "read_byte src nb = Inr (r, src') \<Longrightarrow> queue src' = queue src \<and> non_blocking src' = non_blocking src"
  by (auto simp: read_byte_def next_byte_def bind_ub_eq_Inr split: if_splits prod.splits option.splits
      dest!: refill_queue)

lemma refill_strict:
  "refill src nb = (r, src') \<Longrightarrow> r \<noteq> Some Blocked \<Longrightarrow> \<not> nb \<or> rx (os src) \<noteq> [] \<Longrightarrow> os_size (os src') < os_size (os src)"
proof (induction src nb arbitrary: r src' rule: refill.induct)
  case (1 src nb)
  obtain rr w where rr: "serial_read (os src) nb = (rr, w)" by fastforce
  have sz: "rr = RdErr e \<Longrightarrow> os_size w < os_size (os src)" for e
    using rr serial_read_wait_size [of "os src" rr w] "1.prems"(3)
    by (auto simp: serial_read_def split: if_splits prod.splits rd_result.splits dest: sys_read_size)
  show ?case
  proof (cases rr)
    case (RdErr e)
    have le: "os_size (os src') \<le> os_size w" if "e \<noteq> EAGAIN"
      using that "1.prems"(1) rr RdErr
      by (cases e) (auto simp: refill.simps [of src nb] message_def dest!: refill_size split: if_splits)
    show ?thesis
    proof (cases "e = EAGAIN")
      case True
      with "1.prems"(1) rr RdErr sz [OF RdErr] show ?thesis by (auto simp: refill.simps [of src nb])
    next
      case False
      with le sz [OF RdErr] show ?thesis by simp
    qed
  next
    case (RdBytes bs)
    with "1.prems"(1) rr serial_read_size(2) [OF rr RdBytes] show ?thesis
      by (auto simp: refill.simps [of src nb])
  next
    case RdBlocked
    with "1.prems"(1,2) rr show ?thesis by (auto simp: refill.simps [of src nb])
  qed
qed

lemma read_byte_strict:
  assumes "read_byte src nb = Inr (r, src')" and "r \<noteq> Blocked"
    and "\<not> nb \<or> rx (os src) \<noteq> [] \<or> bufpos src < bufused src"
  shows "src_size src' < src_size src"
proof (cases "bufused src \<le> bufpos src")
  case True
  obtain rr src1 where rr: "refill src nb = (rr, src1)" by fastforce
  show ?thesis
  proof (cases rr)
    case None
    with assms True rr refill_size [OF rr] show ?thesis
      by (auto simp: read_byte_def next_byte_def bind_ub_eq_Inr src_size_def)
  next
    case (Some x)
    with assms True rr refill_size [OF rr] refill_strict [OF rr] show ?thesis
      by (auto simp: read_byte_def src_size_def)
  qed
next
  case False
  with assms(1) show ?thesis by (auto simp: read_byte_def next_byte_def bind_ub_eq_Inr src_size_def)
qed

text \<open>Bytes still to be processed, counted double, plus the packets waiting in queue \<open>u\<close>.\<close>

definition work :: "u8 \<Rightarrow> serial_source \<Rightarrow> nat" where
  "work u src = 2 * src_size src + length (queue src u)"

lemma read_and_process_work:
  "read_and_process src nb = Inr (blk, src') \<Longrightarrow>
   work u src' \<le> work u src \<and> non_blocking src' = non_blocking src \<and> src_size src' \<le> src_size src \<and>
   (\<not> blk \<longrightarrow> \<not> nb \<or> rx (os src) \<noteq> [] \<or> bufpos src < bufused src \<longrightarrow>
      work u src' < work u src \<and> src_size src' < src_size src)"
proof (induction src nb arbitrary: blk src' rule: read_and_process.induct)
  case (1 src nb)
  obtain r src1 where rb: "read_byte src nb = Inr (r, src1)"
    using "1.prems" by (auto simp: read_and_process.simps [of src nb] bind_ub_eq_Inr)
  note b = read_byte_size [OF rb] read_byte_queue [OF rb] read_byte_strict [OF rb]
  show ?case
  proof (cases r)
    case (Byte x)
    then obtain fin src2 where rc: "recv_byte src1 x = Inr (fin, src2)"
      using "1.prems" rb by (auto simp: read_and_process.simps [of src nb] bind_ub_eq_Inr)
    note c = queue_recv_byte [OF rc, of u] src_size_view [OF input_view_recv_byte [OF rc]]
    have nb2: "non_blocking src2 = non_blocking src1"
      using input_view_recv_byte [OF rc] by (simp add: input_view_def)
    show ?thesis
    proof (cases fin)
      case True
      with "1.prems" rb rc Byte have "src' = src2" by (simp add: read_and_process.simps [of src nb])
      with True b(2) [OF Byte] b(3) c nb2 show ?thesis by (simp add: work_def)
    next
      case False
      with "1.prems" rb rc Byte have "read_and_process src2 nb = Inr (blk, src')"
        by (simp add: read_and_process.simps [of src nb])
      from "1.IH" [OF rb refl Byte rc refl False this] False b(2) [OF Byte] b(3) c nb2 show ?thesis
        by (simp add: work_def)
    qed
  next
    case NoByte
    with "1.prems" rb have "src' = src1" by (simp add: read_and_process.simps [of src nb])
    with NoByte b show ?thesis by (auto simp: work_def)
  next
    case Blocked
    with "1.prems" rb have "src' = src1" "blk" by (simp_all add: read_and_process.simps [of src nb])
    with b show ?thesis by (simp add: work_def)
  qed
qed

subsection \<open>Waiting\<close>

text \<open>A \<open>struct timeval\<close> is a pair of seconds and microseconds.\<close>

definition add_timeval :: "int \<times> int \<Rightarrow> int \<Rightarrow> int \<times> int" where
  "add_timeval tv us =
     (let sec = fst tv + us div 1000000; usec = snd tv + us mod 1000000
      in if 1000000 < usec then (sec + 1, usec - 1000000) else (sec, usec))"

definition time_left :: "int \<times> int \<Rightarrow> int \<times> int \<Rightarrow> int \<times> int" where
  "time_left deadline now =
     (let sec = fst deadline - fst now; usec = snd deadline - snd now
      in if usec < 0 then (sec - 1, usec + 1000000) else (sec, usec))"

definition gettimeofday :: "serial_source \<Rightarrow> (int \<times> int) \<times> serial_source" where
  "gettimeofday src = (clock (os src) (ticks (os src)), src\<lparr>os := (os src)\<lparr>ticks := Suc (ticks (os src))\<rparr>\<rparr>)"

text \<open>The loop of \<open>source_wait\<close>; \<open>None\<close> when it waits for ever.\<close>

function source_wait_loop :: "serial_source \<Rightarrow> (int \<times> int) option \<Rightarrow> int option \<times> serial_source" where
  "source_wait_loop src deadline =
     (let (expired, src1) = (case deadline of
            None \<Rightarrow> (False, src)
          | Some d \<Rightarrow> let (now, src') = gettimeofday src in (fst (time_left d now) < 0, src'))
      in if expired then (Some (- 1), src1)
         else case sys_select (os src1) (deadline \<noteq> None) of
             (SelBlocked, w) \<Rightarrow> (None, src1\<lparr>os := w\<rparr>)
           | (SelFail e, w) \<Rightarrow>
               if e = EINTR then source_wait_loop (src1\<lparr>os := w\<rparr>) deadline
               else (Some (- 1), message (src1\<lparr>os := w\<rparr>) msg_unix_error)
           | (SelCount n, w) \<Rightarrow> (Some (if n = 0 then - 1 else 0), src1\<lparr>os := w\<rparr>))"
  by pat_completeness auto
termination
  by (relation "measure (\<lambda>(src, d). length (sel (os src)))")
    (auto simp: sys_select_def gettimeofday_def Let_def split: list.splits sel_event.splits option.splits if_splits)

declare source_wait_loop.simps [simp del]

definition source_wait :: "serial_source \<Rightarrow> (int \<times> int) option \<Rightarrow> int option \<times> serial_source" where
  "source_wait src deadline =
     (if bufpos src < bufused src then (Some 0, src) else source_wait_loop src deadline)"

lemma source_wait_loop_frame:
  "source_wait_loop src d = (r, src') \<Longrightarrow> queue src' = queue src \<and> non_blocking src' = non_blocking src \<and>
     bufpos src' = bufpos src \<and> bufused src' = bufused src \<and> rx (os src') = rx (os src) \<and>
     src_size src' \<le> src_size src \<and>
     (rx (os src) = [] \<and> ((\<exists>v. r = Some v \<and> 0 \<le> v) \<or> d = None \<and> r \<noteq> None) \<longrightarrow> src_size src' < src_size src)"
proof (induction src d arbitrary: r src' rule: source_wait_loop.induct)
  case (1 src d)
  define src1 where "src1 = (case d of None \<Rightarrow> src | Some dl \<Rightarrow> snd (gettimeofday src))"
  define expired where "expired = (case d of None \<Rightarrow> False | Some dl \<Rightarrow> fst (time_left dl (fst (gettimeofday src))) < 0)"
  have split: "(case d of None \<Rightarrow> (False, src)
          | Some d \<Rightarrow> let (now, src') = gettimeofday src in (fst (time_left d now) < 0, src')) = (expired, src1)"
    by (cases d) (simp_all add: src1_def expired_def case_prod_beta)
  have f: "queue src1 = queue src" "non_blocking src1 = non_blocking src" "bufpos src1 = bufpos src"
    "bufused src1 = bufused src" "rx (os src1) = rx (os src)" "src_size src1 = src_size src"
    by (cases d; simp add: src1_def gettimeofday_def src_size_def os_size_def)+
  obtain rs w where s: "sys_select (os src1) (d \<noteq> None) = (rs, w)" by fastforce
  note sz = sys_select_size [OF s]
  have "src_size (src1\<lparr>os := w\<rparr>) \<le> src_size src1" using sz(1) by (simp add: src_size_def)
  have d_None: "d = None \<Longrightarrow> \<not> expired" by (simp add: expired_def)
  note unfold = source_wait_loop.simps [of src d] split s
  show ?case
  proof (cases "expired \<or> (\<forall>e. rs \<noteq> SelFail e)")
    case True
    have "rs = SelCount (Suc n) \<Longrightarrow> rx (os src) = [] \<Longrightarrow> os_size w < os_size (os src1)" for n
      using s f(5) by (auto simp: sys_select_def os_size_def split: list.splits sel_event.splits if_splits)
    with True "1.prems" sz f d_None show ?thesis
      by (cases rs; auto simp: unfold src_size_def gr0_conv_Suc simp del: not_None_eq split_paired_Ex split_paired_All split: if_splits)
  next
    case False
    then obtain e where e: "rs = SelFail e" "\<not> expired" by blast
    show ?thesis
    proof (cases "e = EINTR")
      case True
      with "1.prems" e have "source_wait_loop (src1\<lparr>os := w\<rparr>) d = (r, src')"
        by (simp add: unfold del: not_None_eq)
      from "1.IH" [OF split [symmetric] refl e(2) s [symmetric] e(1) True this] sz(1,2) f show ?thesis
        by (auto simp: src_size_def)
    next
      case False
      with "1.prems" e sz(1,2) sz(4) [OF e(1)] f show ?thesis
        by (auto simp: unfold message_def src_size_def simp del: not_None_eq split: if_splits)
    qed
  qed
qed

lemma source_wait_frame:
  assumes "source_wait src d = (r, src')"
  shows "queue src' = queue src \<and> non_blocking src' = non_blocking src \<and>
     bufpos src' = bufpos src \<and> bufused src' = bufused src \<and> rx (os src') = rx (os src) \<and>
     src_size src' \<le> src_size src"
    and "rx (os src) = [] \<Longrightarrow> bufused src \<le> bufpos src \<Longrightarrow> r = Some v \<Longrightarrow> 0 \<le> v \<Longrightarrow>
      src_size src' < src_size src"
  using assms source_wait_loop_frame [of src d r src'] by (auto simp: source_wait_def split: if_splits)

subsection \<open>Reading and writing packets\<close>

datatype packet_result = RPacket packet_list | RNull | RBlocked

function read_serial_packet_loop :: "serial_source \<Rightarrow> (packet_result \<times> serial_source) ub" where
  "read_serial_packet_loop src =
     (case pop_protocol_packet src P_PACKET_NO_ACK of
        (Some entry, src1) \<Rightarrow> Inr (RPacket entry, src1)
      | (None, src1) \<Rightarrow>
          if non_blocking src1 \<and> serial_source_empty src1 then Inr (RNull, src1)
          else case source_wait src1 None of
              (None, src2) \<Rightarrow> Inr (RBlocked, src2)
            | (Some r, src2) \<Rightarrow> bind_ub (read_and_process src2 (non_blocking src2)) (\<lambda>(blocked, src3).
                if blocked then Inr (RBlocked, src3) else read_serial_packet_loop src3))"
  by pat_completeness auto
termination
proof (relation "measure src_size", goal_cases)
  case (2 src x src1 y src2 r z blocked src3)
  then have pop: "pop_protocol_packet src P_PACKET_NO_ACK = (None, src1)"
    and ne: "\<not> (non_blocking src1 \<and> serial_source_empty src1)"
    and wait: "source_wait src1 None = (Some r, src2)"
    and rp: "read_and_process src2 (non_blocking src2) = Inr (blocked, src3)" and nb: "\<not> blocked" by auto
  have s1: "src1 = src" and q: "queue src P_PACKET_NO_ACK = []"
    using pop by (auto simp: pop_protocol_packet_def split: list.splits)
  note w = source_wait_frame(1) [OF wait]
  have "\<not> non_blocking src2 \<or> bufpos src2 < bufused src2"
    using ne w s1 q by (auto simp: serial_source_empty_def packet_available_def)
  with read_and_process_work [OF rp] nb have "src_size src3 < src_size src2" by blast
  with w s1 show ?case by simp
qed simp

declare read_serial_packet_loop.simps [simp del]

definition read_serial_packet :: "serial_source \<Rightarrow> (packet_result \<times> serial_source) ub" where
  "read_serial_packet src =
     bind_ub (read_and_process src True) (\<lambda>(blocked, src1). read_serial_packet_loop src1)"

lemma refill_nonblocking: "refill src True = (r, src') \<Longrightarrow> r \<noteq> Some Blocked"
proof (induction src True arbitrary: r src' rule: refill.induct)
  case (1 src)
  obtain rr w where rr: "serial_read (os src) True = (rr, w)" by fastforce
  have nb: "rr \<noteq> RdBlocked"
    using rr by (auto simp: serial_read_def split: prod.splits rd_result.splits if_splits dest: sys_read_size(4))
  show ?case
  proof (cases rr)
    case (RdErr e)
    with "1.prems" rr "1.hyps"(1) [OF rr [symmetric] RdErr] "1.hyps"(2) [OF rr [symmetric] RdErr] show ?thesis
      by (cases e) (auto simp: refill.simps [of src])
  qed (use "1.prems" rr nb in \<open>auto simp: refill.simps [of src] split: if_splits\<close>)
qed

lemma read_and_process_nonblocking: "read_and_process src True = Inr (blk, src') \<Longrightarrow> \<not> blk"
proof (induction src True arbitrary: blk src' rule: read_and_process.induct)
  case (1 src)
  obtain r src1 where rb: "read_byte src True = Inr (r, src1)"
    using "1.prems" by (auto simp: read_and_process.simps [of src] bind_ub_eq_Inr)
  have "r \<noteq> Blocked"
    using rb by (auto simp: read_byte_def next_byte_def bind_ub_eq_Inr split: if_splits prod.splits option.splits
        dest: refill_nonblocking)
  show ?case
  proof (cases r)
    case (Byte b)
    with "1.prems" rb obtain fin src2 where rc: "recv_byte src1 b = Inr (fin, src2)"
      by (auto simp: read_and_process.simps [of src] bind_ub_eq_Inr)
    with "1.prems" rb Byte have "if fin then \<not> blk else read_and_process src2 True = Inr (blk, src')"
      by (auto simp: read_and_process.simps [of src])
    with "1.hyps" [OF rb refl Byte rc refl] show ?thesis by (cases fin) auto
  qed (use "1.prems" rb \<open>r \<noteq> Blocked\<close> in \<open>auto simp: read_and_process.simps [of src]\<close>)
qed

lemma read_and_process_no_data:
  "rx (os src) = [] \<Longrightarrow> bufused src \<le> bufpos src \<Longrightarrow> read_and_process src True = Inr (False, src)"
  by (simp add: read_and_process.simps [of src] read_byte_def refill.simps [of src] serial_read_def sys_read_def)

text \<open>The acknowledgement loop of \<open>write_serial_packet\<close>.\<close>

function await_ack :: "serial_source \<Rightarrow> int \<times> int \<Rightarrow> (int \<times> serial_source) ub" where
  "await_ack src deadline =
     bind_ub (read_and_process src True) (\<lambda>(blocked, src1).
     case pop_protocol_packet src1 P_ACK of
       (Some entry, src2) \<Rightarrow> bind_ub (peek (pl_packet entry) 0) (\<lambda>acked.
          if acked = seqno src2 then Inr (0, src2) else await_ack src2 deadline)
     | (None, src2) \<Rightarrow>
         (case source_wait src2 (Some deadline) of
            (None, src3) \<Rightarrow> Inr (1, src3)
          | (Some r, src3) \<Rightarrow> if r < 0 then Inr (1, src3) else await_ack src3 deadline))"
  by pat_completeness auto
termination
proof (relation "measure (\<lambda>(src, d). work P_ACK src)", goal_cases)
  case (2 src d x blocked src1 y src2 z src3 r)
  then have rp: "read_and_process src True = Inr (blocked, src1)"
    and pop: "pop_protocol_packet src1 P_ACK = (None, src2)"
    and wait: "source_wait src2 (Some d) = (Some r, src3)" and r: "0 \<le> r" by auto
  have s2: "src2 = src1" using pop by (auto simp: pop_protocol_packet_def split: list.splits)
  have w31: "work P_ACK src3 \<le> work P_ACK src1"
    using source_wait_frame(1) [OF wait] s2 by (simp add: work_def)
  show ?case
  proof (cases "rx (os src) \<noteq> [] \<or> bufpos src < bufused src")
    case True
    with read_and_process_work [OF rp, of P_ACK] read_and_process_nonblocking [OF rp] w31 show ?thesis by auto
  next
    case False
    then have "src1 = src" using rp read_and_process_no_data [of src] by auto
    with False s2 source_wait_frame(1) [OF wait] source_wait_frame(2) [OF wait _ _ refl r] show ?thesis
      by (auto simp: work_def)
  qed
next
  case (3 src d x blocked src1 y src2 entry acked)
  then have rp: "read_and_process src True = Inr (blocked, src1)"
    and pop: "pop_protocol_packet src1 P_ACK = (Some entry, src2)" by auto
  from pop have "work P_ACK src2 < work P_ACK src1"
    by (auto simp: pop_protocol_packet_def work_def src_size_def split: list.splits)
  with read_and_process_work [OF rp, of P_ACK] show ?case by simp
qed simp

declare await_ack.simps [simp del]

definition write_serial_packet :: "serial_source \<Rightarrow> u8 list \<Rightarrow> int \<Rightarrow> (int \<times> serial_source) ub" where
  "write_serial_packet src pkt len =
     (let src1 = src\<lparr>seqno := seqno src + 1\<rparr> in
      bind_ub (write_framed_packet src1 P_PACKET_ACK (seqno src1) pkt len) (\<lambda>(r, src2).
      if r < 0 then Inr (- 1, src2)
      else let (now, src3) = gettimeofday src2
           in await_ack src3 (add_timeval now ACK_TIMEOUT)))"

end
