(* ===== verification/SerialFrames.thy ===== *)
theory SerialFrames
  imports SerialSource "HOL-Library.Sublist"
begin

unbundle bit_operations_syntax

section \<open>Correctness of the serial protocol\<close>

text \<open>
  What goes over the line, stated without buffers and state machines, and the theorems that the
  encoder of lib/sf/serialsource.c produces it, that the decoder accepts exactly it, and that no
  input makes either leave a buffer.
\<close>

subsection \<open>Frames\<close>

definition esc :: "u8 \<Rightarrow> u8 list" where
  "esc b = (if b = SYNC_BYTE \<or> b = ESCAPE_BYTE then [ESCAPE_BYTE, b XOR 0x20] else [b])"

definition crc_le :: "u16 \<Rightarrow> u8 list" where
  "crc_le c = [ucast (c AND 0xff), ucast (drop_bit 8 c)]"

definition content :: "u8 list \<Rightarrow> u8 list" where
  "content bs = bs @ crc_le (crc_run 0 bs)"

definition frame :: "u8 list \<Rightarrow> u8 list" where
  "frame bs = SYNC_BYTE # concat (map esc (content bs)) @ [SYNC_BYTE]"

lemma length_esc: "length (esc b) \<le> 2"
  by (simp add: esc_def)

lemma length_crc_le [simp]: "length (crc_le c) = 2"
  by (simp add: crc_le_def)

lemma message_frame [simp]:
  "os (message src m) = os src" "queue (message src m) = queue src" "packet (message src m) = packet src"
  "in_sync (message src m) = in_sync src" "escaped (message src m) = escaped src"
  "count (message src m) = count src" "seqno (message src m) = seqno src"
  "buffer (message src m) = buffer src" "bufpos (message src m) = bufpos src"
  "bufused (message src m) = bufused src" "non_blocking (message src m) = non_blocking src"
  "has_message (message src m) = has_message src"
  by (simp_all add: message_def)

subsection \<open>The encoder\<close>

text \<open>The escape buffer is live, holds \<open>L\<close> bytes, and \<open>acc\<close> has been put into it.\<close>

definition enc :: "nat \<Rightarrow> u8 list \<Rightarrow> serial_source \<Rightarrow> bool" where
  "enc L acc src \<longleftrightarrow> (\<exists>buf. send_escaped src = Some buf \<and> length buf = L \<and>
     escapeptr src = length acc \<and> length acc \<le> L \<and> take (length acc) buf = acc)"

lemma escape_add_ok:
  assumes "enc L acc src" and "length acc < L"
  shows "\<exists>src'. escape_add src b = Inr src' \<and> enc L (acc @ [b]) src' \<and> send_crc src' = send_crc src \<and> os src' = os src"
proof -
  obtain buf where buf: "send_escaped src = Some buf" "length buf = L" "escapeptr src = length acc"
      "take (length acc) buf = acc"
    using assms(1) by (auto simp: enc_def)
  let ?buf = "buf[length acc := b]"
  have "take (Suc (length acc)) ?buf = acc @ [b]"
    using assms(2) buf(2,4) by (simp add: take_Suc_conv_app_nth)
  with buf assms(2) show ?thesis by (simp add: escape_add_def enc_def)
qed

lemma enc_send_crc [simp]: "enc L acc (src\<lparr>send_crc := c\<rparr>) = enc L acc src"
  by (simp add: enc_def)

lemma escape_byte_ok:
  assumes "enc L acc src" and "length acc + 2 \<le> L"
  shows "\<exists>src'. escape_byte src b = Inr src' \<and> enc L (acc @ esc b) src' \<and>
    send_crc src' = crc_byte (send_crc src) b \<and> os src' = os src"
proof (cases "b = SYNC_BYTE \<or> b = ESCAPE_BYTE")
  case True
  let ?src = "src\<lparr>send_crc := crc_byte (send_crc src) b\<rparr>"
  from escape_add_ok [of L acc ?src ESCAPE_BYTE] assms obtain src1 where
    1: "escape_add ?src ESCAPE_BYTE = Inr src1" "enc L (acc @ [ESCAPE_BYTE]) src1"
      "send_crc src1 = send_crc ?src" "os src1 = os src" by auto
  from escape_add_ok [OF 1(2), of "b XOR 0x20"] assms(2) obtain src2 where
    2: "escape_add src1 (b XOR 0x20) = Inr src2" "enc L ((acc @ [ESCAPE_BYTE]) @ [b XOR 0x20]) src2"
      "send_crc src2 = send_crc src1" "os src2 = os src1" by auto
  with 1 True show ?thesis by (simp add: escape_byte_def esc_def)
next
  case False
  with escape_add_ok [of L acc "src\<lparr>send_crc := crc_byte (send_crc src) b\<rparr>" b] assms show ?thesis
    by (auto simp: escape_byte_def esc_def)
qed

lemma escape_payload_ok:
  "enc L acc src \<Longrightarrow> length acc + 2 * n \<le> L \<Longrightarrow> i + n \<le> length pkt \<Longrightarrow>
   \<exists>src'. escape_payload src pkt (int i) (int (i + n)) = Inr src' \<and>
     enc L (acc @ concat (map esc (take n (drop i pkt)))) src' \<and>
     send_crc src' = crc_run (send_crc src) (take n (drop i pkt)) \<and> os src' = os src"
proof (induction n arbitrary: i src acc)
  case (Suc n)
  then have drop: "drop i pkt = pkt ! i # drop (Suc i) pkt" by (simp add: Cons_nth_drop_Suc)
  from escape_byte_ok [OF Suc.prems(1), of "pkt ! i"] Suc.prems(2) obtain src1 where
    1: "escape_byte src (pkt ! i) = Inr src1" "enc L (acc @ esc (pkt ! i)) src1"
      "send_crc src1 = crc_byte (send_crc src) (pkt ! i)" "os src1 = os src" by auto
  from Suc.IH [OF 1(2), of "Suc i"] Suc.prems length_esc [of "pkt ! i"] obtain src2 where
    2: "escape_payload src1 pkt (int (Suc i)) (int (Suc i + n)) = Inr src2"
      "enc L ((acc @ esc (pkt ! i)) @ concat (map esc (take n (drop (Suc i) pkt)))) src2"
      "send_crc src2 = crc_run (send_crc src1) (take n (drop (Suc i) pkt))" "os src2 = os src1" by auto
  have eqs: "int i + 1 = int (Suc i)" "i + Suc n = Suc i + n" by simp_all
  have "escape_payload src pkt (int i) (int (i + Suc n)) = Inr src2"
    using Suc.prems(3) 1(1) 2(1)
    by (subst escape_payload.simps) (simp only: eqs peek_in bind_ub_simps, simp)
  with 1 2 drop show ?case by simp
qed (simp add: escape_payload.simps)

text \<open>What reaches the device: everything if the write succeeds, a prefix of it if it fails.\<close>

lemma source_write_loop_tx:
  "source_write_loop src bs a = (r, src') \<Longrightarrow> 0 \<le> a \<Longrightarrow>
   (0 \<le> r \<longrightarrow> tx (os src') = tx (os src) @ bs) \<and> (r < 0 \<longrightarrow> (\<exists>p. prefix p bs \<and> tx (os src') = tx (os src) @ p))"
proof (induction src bs a arbitrary: r src' rule: source_write_loop.induct)
  case (1 src bs a)
  show ?case
  proof (cases "bs = []")
    case True
    with "1.prems" show ?thesis by (auto simp: source_write_loop.simps [of src "[]" a])
  next
    case False
    obtain rr w where w: "sys_write (os src) bs = (rr, w)" by fastforce
    note unfold = source_write_loop.simps [of src bs a]
    show ?thesis
    proof (cases rr)
      case (Inl e)
      then have tx: "tx w = tx (os src)" using w by (auto simp: sys_write_def split: list.splits wr_event.splits)
      show ?thesis
      proof (cases "e = EINTR")
        case True
        with "1.prems"(1) w Inl False have "source_write_loop (src\<lparr>os := w\<rparr>) bs a = (r, src')" by (simp add: unfold)
        from "1.IH"(1) [OF False w [symmetric] Inl True this "1.prems"(2)] tx show ?thesis by simp
      next
        case no: False
        with "1.prems"(1) w Inl False tx have "r = - 1" "tx (os src') = tx (os src) @ []"
          by (auto simp: unfold message_def split: if_splits)
        then show ?thesis by auto
      qed
    next
      case (Inr n)
      then have tx: "tx w = tx (os src) @ take n bs"
        using w by (auto simp: sys_write_def min_def split: list.splits wr_event.splits)
      from "1.prems"(1) w Inr False have "source_write_loop (src\<lparr>os := w\<rparr>) (drop n bs) (a + int n) = (r, src')"
        by (simp add: unfold)
      from "1.IH"(2) [OF False w [symmetric] Inr this] "1.prems"(2) tx show ?thesis
        by (simp add: prefix_def) (metis append_take_drop_id append.assoc)
    qed
  qed
qed

lemma source_write_tx:
  assumes "source_write src bs = (r, src')"
  shows "(0 \<le> r \<longrightarrow> tx (os src') = tx (os src) @ bs) \<and> (r < 0 \<longrightarrow> (\<exists>p. prefix p bs \<and> tx (os src') = tx (os src) @ p))"
proof -
  obtain ok w where f: "sys_fcntl (os src) = (ok, w)" by fastforce
  obtain a src2 where l: "source_write_loop (src\<lparr>os := w\<rparr>) bs 0 = (a, src2)" by fastforce
  obtain ok' w' where f': "sys_fcntl (os src2) = (ok', w')" by fastforce
  have "tx w = tx (os src)" "tx w' = tx (os src2)"
    using f f' by (auto simp: sys_fcntl_def split: list.splits)
  with assms f l f' source_write_loop_tx [OF l] show ?thesis
    by (cases ok; cases ok') (auto simp: source_write_def Let_def)
qed

lemma malloc_tx: "malloc src = (ok, src') \<Longrightarrow> tx (os src') = tx (os src)"
  by (auto simp: malloc_def split: list.splits)

lemma init_escaper_ok:
  obtains src' where "init_escaper src (int n) = Inr (- 1, src')" "tx (os src') = tx (os src)" "fst (malloc src) = False"
  | src' where "init_escaper src (int n) = Inr (0, src')" "enc (2 * n + 2) [SYNC_BYTE] src'" "send_crc src' = 0"
      "os src' = os (snd (malloc src))" "fst (malloc src)"
proof -
  obtain ok src1 where m: "malloc src = (ok, src1)" by fastforce
  show thesis
  proof (cases ok)
    case False
    with m malloc_tx [OF m] that(1) show thesis by (auto simp: init_escaper_def)
  next
    case True
    define src2 where "src2 = src1\<lparr>send_escaped := Some (replicate (nat (int n * 2 + 2)) 0), escapeptr := 0, send_crc := 0\<rparr>"
    have L: "nat (int n * 2 + 2) = 2 * n + 2" by simp
    have "enc (2 * n + 2) [] src2" by (simp add: enc_def src2_def L)
    from escape_add_ok [OF this, of SYNC_BYTE] obtain src3 where
      "escape_add src2 SYNC_BYTE = Inr src3" "enc (2 * n + 2) [SYNC_BYTE] src3" "send_crc src3 = send_crc src2" "os src3 = os src2"
      by auto
    with m True that(2) show thesis by (simp add: init_escaper_def flip: src2_def) (simp add: src2_def)
  qed
qed

lemma frame_acc:
  "frame (t # f # bs) = (((([SYNC_BYTE] @ esc t) @ esc f) @ concat (map esc bs)) @
     esc (ucast (crc_run 0 (t # f # bs) AND 0xff))) @ esc (ucast (drop_bit 8 (crc_run 0 (t # f # bs)))) @ [SYNC_BYTE]"
  by (simp add: frame_def content_def crc_le_def)

text \<open>Everything before the write: the buffer is filled with exactly the frame.\<close>

lemma encode_ok:
  assumes "n \<le> length pkt" and "enc (2 * (n + 4) + 2) [SYNC_BYTE] src0" and "send_crc src0 = 0"
  obtains src6 where
    "bind_ub (escape_byte src0 t) (\<lambda>src1.
     bind_ub (escape_byte src1 f) (\<lambda>src2.
     bind_ub (escape_payload src2 pkt 0 (int n)) (\<lambda>src3.
     let crc = send_crc src3 in
     bind_ub (escape_byte src3 (ucast (crc AND 0xff))) (\<lambda>src4.
     bind_ub (escape_byte src4 (ucast (drop_bit 8 crc))) (\<lambda>src5.
     bind_ub (terminate_escaper src5) flush_escaper))))) = flush_escaper src6"
    "enc (2 * (n + 4) + 2) (frame (t # f # take n pkt)) src6" "os src6 = os src0"
proof -
  define L where "L = 2 * (n + 4) + 2"
  let ?crc = "crc_run 0 (t # f # take n pkt)"
  have e0: "enc L [SYNC_BYTE] src0" using assms(2) by (simp add: L_def)
  have len: "length (concat (map esc xs)) \<le> 2 * length xs" for xs
  proof (induction xs)
    case (Cons x xs)
    with length_esc [of x] show ?case by simp
  qed simp
  from escape_byte_ok [OF e0, of t] obtain src1 where
    1: "escape_byte src0 t = Inr src1" "enc L ([SYNC_BYTE] @ esc t) src1"
      "send_crc src1 = crc_byte 0 t" "os src1 = os src0" using assms(3) by (auto simp: L_def)
  from escape_byte_ok [OF 1(2), of f] length_esc [of t] obtain src2 where
    2: "escape_byte src1 f = Inr src2" "enc L (([SYNC_BYTE] @ esc t) @ esc f) src2"
      "send_crc src2 = crc_byte (send_crc src1) f" "os src2 = os src1" by (auto simp: L_def)
  from escape_payload_ok [OF 2(2), of n 0 pkt] length_esc [of t] length_esc [of f] assms(1) obtain src3 where
    3: "escape_payload src2 pkt 0 (int n) = Inr src3"
      "enc L ((([SYNC_BYTE] @ esc t) @ esc f) @ concat (map esc (take n pkt))) src3"
      "send_crc src3 = crc_run (send_crc src2) (take n pkt)" "os src3 = os src2" by (auto simp: L_def)
  have crc: "send_crc src3 = ?crc" using 1 2 3 by simp
  have len3: "length ((([SYNC_BYTE] @ esc t) @ esc f) @ concat (map esc (take n pkt))) \<le> 2 * n + 5"
    using length_esc [of t] length_esc [of f] len [of "take n pkt"] assms(1) by simp
  with escape_byte_ok [OF 3(2), of "ucast (?crc AND 0xff)"] obtain src4 where
    4: "escape_byte src3 (ucast (?crc AND 0xff)) = Inr src4" "os src4 = os src3"
      "enc L (((([SYNC_BYTE] @ esc t) @ esc f) @ concat (map esc (take n pkt))) @ esc (ucast (?crc AND 0xff))) src4"
    by (auto simp: L_def)
  with escape_byte_ok [OF 4(3), of "ucast (drop_bit 8 ?crc)"] len3 length_esc [of "ucast (?crc AND 0xff)"]
  obtain src5 where
    5: "escape_byte src4 (ucast (drop_bit 8 ?crc)) = Inr src5" "os src5 = os src4"
      "enc L ((((([SYNC_BYTE] @ esc t) @ esc f) @ concat (map esc (take n pkt))) @ esc (ucast (?crc AND 0xff)))
        @ esc (ucast (drop_bit 8 ?crc))) src5"
    by (auto simp: L_def)
  with escape_add_ok [OF 5(3), of SYNC_BYTE] len3 length_esc [of "ucast (?crc AND 0xff)"]
    length_esc [of "ucast (drop_bit 8 ?crc)"]
  obtain src6 where
    6: "terminate_escaper src5 = Inr src6" "os src6 = os src5" "enc L (frame (t # f # take n pkt)) src6"
    by (auto simp: L_def terminate_escaper_def frame_acc)
  show thesis
    by (rule that [of src6]) (use 1 2 3 4 5 6 crc in \<open>simp_all add: Let_def L_def\<close>)
qed

lemma flush_escaper_ok:
  assumes "enc L bs src"
  obtains r src' where "source_write src bs = (r, src')"
    and "flush_escaper src = Inr (if r < 0 then - 1 else 0, free_escaper src')"
proof -
  obtain r src' where w: "source_write src bs = (r, src')" by fastforce
  with assms that show thesis by (auto simp: enc_def flush_escaper_def)
qed

lemma write_framed_packet_eq:
  assumes "n \<le> length pkt"
  obtains (no_memory) src0 where "write_framed_packet src t f pkt (int n) = Inr (- 1, src0)"
      "tx (os src0) = tx (os src)" "\<not> fst (malloc src)"
  | (sent) src6 r src' where
      "source_write src6 (frame (t # f # take n pkt)) = (r, src')" "os src6 = os (snd (malloc src))" "fst (malloc src)"
      "write_framed_packet src t f pkt (int n) = Inr (if r < 0 then - 1 else 0, free_escaper src')"
proof (rule init_escaper_ok [of src "n + 4"])
  fix src0 assume "init_escaper src (int (n + 4)) = Inr (- 1, src0)" "tx (os src0) = tx (os src)" "fst (malloc src) = False"
  then show thesis by (intro no_memory [of src0]) (simp_all add: write_framed_packet_def)
next
  fix src0 assume i: "init_escaper src (int (n + 4)) = Inr (0, src0)" "enc (2 * (n + 4) + 2) [SYNC_BYTE] src0"
    "send_crc src0 = 0" "os src0 = os (snd (malloc src))" "fst (malloc src)"
  obtain src6 where e: "write_framed_packet src t f pkt (int n) = flush_escaper src6"
      "enc (2 * (n + 4) + 2) (frame (t # f # take n pkt)) src6" "os src6 = os src0"
    using encode_ok [OF assms i(2,3), of t f] i(1) by (auto simp: write_framed_packet_def)
  from flush_escaper_ok [OF e(2)] e i(4,5) sent show thesis by metis
qed

subsection \<open>When nothing fails\<close>

definition link_ok :: "os \<Rightarrow> bool" where
  "link_ok w \<longleftrightarrow> False \<notin> set (malloc_ok w) \<and> False \<notin> set (fcntl_ok w) \<and>
     WrErrno EAGAIN \<notin> set (wr w) \<and> WrErrno EOTHER \<notin> set (wr w)"

lemma link_ok_malloc:
  "link_ok (os src) \<Longrightarrow> fst (malloc src) \<and> link_ok (os (snd (malloc src))) \<and> tx (os (snd (malloc src))) = tx (os src)"
  by (auto simp: link_ok_def malloc_def split: list.splits)

lemma link_ok_fcntl: "link_ok w \<Longrightarrow> sys_fcntl w = (ok, w') \<Longrightarrow> ok \<and> link_ok w'"
  by (auto simp: link_ok_def sys_fcntl_def split: list.splits)

lemma link_ok_write:
  "link_ok w \<Longrightarrow> sys_write w bs = (r, w') \<Longrightarrow> link_ok w' \<and> r \<noteq> Inl EAGAIN \<and> r \<noteq> Inl EOTHER"
  by (auto simp: link_ok_def sys_write_def split: list.splits wr_event.splits)

lemma link_ok_source_write_loop:
  "source_write_loop src bs a = (r, src') \<Longrightarrow> link_ok (os src) \<Longrightarrow> 0 \<le> a \<Longrightarrow> 0 \<le> r \<and> link_ok (os src')"
proof (induction src bs a arbitrary: r src' rule: source_write_loop.induct)
  case (1 src bs a)
  obtain rr w where w: "sys_write (os src) bs = (rr, w)" by fastforce
  note lw = link_ok_write [OF "1.prems"(2) w]
  show ?case
  proof (cases "bs = []")
    case True
    with "1.prems" show ?thesis by (auto simp: source_write_loop.simps [of src "[]" a])
  next
    case False
    show ?thesis
    proof (cases rr)
      case (Inl e)
      with lw have e: "e = EINTR" by (cases e) auto
      with "1.prems"(1) w Inl False have "source_write_loop (src\<lparr>os := w\<rparr>) bs a = (r, src')"
        by (simp add: source_write_loop.simps [of src bs a])
      from "1.IH"(1) [OF False w [symmetric] Inl e this _ "1.prems"(3)] lw show ?thesis by simp
    next
      case (Inr n)
      with "1.prems"(1) w False have "source_write_loop (src\<lparr>os := w\<rparr>) (drop n bs) (a + int n) = (r, src')"
        by (simp add: source_write_loop.simps [of src bs a])
      from "1.IH"(2) [OF False w [symmetric] Inr this] lw "1.prems"(3) show ?thesis by simp
    qed
  qed
qed

lemma link_ok_source_write:
  assumes "source_write src bs = (r, src')" and "link_ok (os src)"
  shows "0 \<le> r \<and> link_ok (os src')"
proof -
  obtain ok w where f: "sys_fcntl (os src) = (ok, w)" by fastforce
  obtain a src2 where l: "source_write_loop (src\<lparr>os := w\<rparr>) bs 0 = (a, src2)" by fastforce
  obtain ok' w' where f': "sys_fcntl (os src2) = (ok', w')" by fastforce
  note f1 = link_ok_fcntl [OF assms(2) f]
  have l1: "0 \<le> a \<and> link_ok (os src2)" using link_ok_source_write_loop [OF l] f1 by simp
  note f2 = link_ok_fcntl [OF conjunct2 [OF l1] f']
  from assms(1) f l f' f1 l1 f2 show ?thesis by (auto simp: source_write_def Let_def)
qed

lemma write_framed_packet_link_ok:
  assumes "n \<le> length pkt" and "link_ok (os src)"
  obtains src' where "write_framed_packet src t f pkt (int n) = Inr (0, src')" "link_ok (os src')"
    "tx (os src') = tx (os src) @ frame (t # f # take n pkt)"
proof (rule write_framed_packet_eq [OF assms(1), of src t f])
  fix src0 assume "\<not> fst (malloc src)"
  with link_ok_malloc [OF assms(2)] show thesis by simp
next
  fix src6 r src'
  assume a: "source_write src6 (frame (t # f # take n pkt)) = (r, src')" "os src6 = os (snd (malloc src))"
    "write_framed_packet src t f pkt (int n) = Inr (if r < 0 then - 1 else 0, free_escaper src')"
  note m = link_ok_malloc [OF assms(2)]
  have "0 \<le> r \<and> link_ok (os src')" using link_ok_source_write [OF a(1)] a(2) m by simp
  with a source_write_tx [OF a(1)] m that [of "free_escaper src'"] show thesis by (simp add: free_escaper_def)
qed

lemma write_framed_packet_tx:
  assumes "n \<le> length pkt"
  shows "\<exists>r src'. write_framed_packet src t f pkt (int n) = Inr (r, src') \<and>
    (r = 0 \<and> tx (os src') = tx (os src) @ frame (t # f # take n pkt) \<or>
     r = - 1 \<and> (\<exists>p. prefix p (frame (t # f # take n pkt)) \<and> tx (os src') = tx (os src) @ p))"
proof (rule write_framed_packet_eq [OF assms, of src t f])
  fix src0 assume "write_framed_packet src t f pkt (int n) = Inr (- 1, src0)" "tx (os src0) = tx (os src)"
  then show ?thesis by auto
next
  fix src6 r src'
  assume a: "source_write src6 (frame (t # f # take n pkt)) = (r, src')" "os src6 = os (snd (malloc src))"
    "write_framed_packet src t f pkt (int n) = Inr (if r < 0 then - 1 else 0, free_escaper src')"
  have "tx (os src6) = tx (os src)" using a(2) malloc_tx [of src] by (metis prod.collapse)
  with a source_write_tx [OF a(1)] show ?thesis by (cases "r < 0") (auto simp: free_escaper_def)
qed



subsection \<open>No input makes the receiver leave a buffer\<close>

definition wf_source :: "serial_source \<Rightarrow> bool" where
  "wf_source src \<longleftrightarrow> length (buffer src) = BUFSIZE \<and> bufused src \<le> BUFSIZE \<and>
     length (packet src) = MTU \<and> count src \<le> MTU \<and>
     (\<forall>t. \<forall>e \<in> set (queue src t). unat (pl_len e) < length (pl_packet e))"

lemma wf_rest_view: "rest_view src' = rest_view src \<Longrightarrow> wf_source src' = wf_source src"
  by (simp add: rest_view_def input_view_def wf_source_def)

lemma wf_update [inv_intros]:
  "wf_source src \<Longrightarrow> wf_source (src\<lparr>in_sync := b\<rparr>)"
  "wf_source src \<Longrightarrow> wf_source (src\<lparr>escaped := b\<rparr>)"
  "wf_source src \<Longrightarrow> wf_source (src\<lparr>seqno := s\<rparr>)"
  "wf_source src \<Longrightarrow> wf_source (src\<lparr>os := w\<rparr>)"
  "wf_source src \<Longrightarrow> wf_source (src\<lparr>bufpos := k\<rparr>)"
  "wf_source src \<Longrightarrow> n \<le> MTU \<Longrightarrow> wf_source (src\<lparr>count := n\<rparr>)"
  "wf_source src \<Longrightarrow> wf_source (message src m)"
  by (auto simp: wf_source_def message_def)

lemma wf_malloc: "malloc src = (ok, src') \<Longrightarrow> wf_source src' = wf_source src"
  by (intro wf_rest_view rest_view_malloc)

lemma wf_push:
  assumes "wf_source src" and "unat n < length p"
  shows "wf_source (push_protocol_packet src t p n)"
proof -
  obtain ok src1 where m: "malloc src = (ok, src1)" by fastforce
  have w: "wf_source src1" using wf_malloc [OF m] assms(1) by simp
  show ?thesis
  proof (cases ok)
    case True
    with m w assms(2) show ?thesis by (simp add: push_protocol_packet_def wf_source_def)
  next
    case False
    with m w show ?thesis by (simp add: push_protocol_packet_def inv_intros)
  qed
qed

lemma unat_of_nat_le: "unat (of_nat n :: u8) \<le> n"
  by (simp add: unat_of_nat)

lemma write_framed_packet_ok:
  "\<exists>r src'. write_framed_packet src t f pkt (int (length pkt)) = Inr (r, src') \<and> rest_view src' = rest_view src"
  by (rule write_framed_packet_eq [of "length pkt" pkt src t f]) (auto dest: rest_view_write_framed_packet)

lemma process_packet_ok:
  assumes "wf_source src" and "2 \<le> length pkt"
  shows "\<exists>src'. process_packet src pkt (length pkt) = Inr src' \<and> wf_source src'"
proof -
  have p: "peek pkt 0 = Inr (pkt ! 0)" "peek pkt 1 = Inr (pkt ! 1)"
    using assms(2) peek_in [of 0 pkt] peek_in [of 1 pkt] by fastforce+
  have push: "wf_source (push_protocol_packet src1 t (take (length pkt - k) (drop k pkt) @ drop (length pkt - k) pkt)
      (of_nat (length pkt - k)))" if "wf_source src1" "k = 1 \<or> k = 2" for src1 t k
  proof (rule wf_push [OF that(1)])
    show "unat (of_nat (length pkt - k) :: u8) < length (take (length pkt - k) (drop k pkt) @ drop (length pkt - k) pkt)"
      using unat_of_nat_le [of "length pkt - k"] assms(2) that(2) by auto
  qed
  show ?thesis
  proof (cases "pkt ! 0 = P_PACKET_ACK")
    case True
    obtain r src1 where w: "write_framed_packet src P_ACK (pkt ! 1) [] 0 = Inr (r, src1)" "rest_view src1 = rest_view src"
      using write_framed_packet_ok [of src P_ACK "pkt ! 1" "[]"] by auto
    with wf_rest_view [OF w(2)] assms(1) have "wf_source src1" by simp
    with push [of src1 2 P_PACKET_NO_ACK] w(1) assms(2) p True show ?thesis
      by (simp add: process_packet_def memmove_down_def)
  next
    case False
    with push [of src 1 "pkt ! 0"] assms p show ?thesis
      by (simp add: process_packet_def memmove_down_def not_less) fastforce
  qed
qed

lemma end_of_frame_ok:
  assumes "wf_source src"
  shows "\<exists>fin src'. end_of_frame src = Inr (fin, src') \<and> wf_source src'"
proof -
  define src1 where "src1 = src\<lparr>count := 0\<rparr>"
  obtain ok src2 where m: "malloc src1 = (ok, src2)" by fastforce
  have w1: "wf_source src1" using assms by (simp add: src1_def inv_intros)
  then have w2: "wf_source src2" using wf_malloc [OF m] by simp
  show ?thesis
  proof (cases "count src < 4 \<or> \<not> ok")
    case True
    with m w1 w2 show ?thesis by (auto simp: end_of_frame_def Let_def inv_intros simp flip: src1_def)
  next
    case False
    then have n: "4 \<le> count src" "count src \<le> MTU" "length (packet src) = MTU"
      using assms by (auto simp: wf_source_def)
    let ?rec = "take (count src - 2) (packet src)"
    have len: "length ?rec = count src - 2" using n by simp
    have p: "peek (packet src) (int (count src - 2)) = Inr (packet src ! (count src - 2))"
      "peek (packet src) (int (count src - 1)) = Inr (packet src ! (count src - 1))"
      "crc_packet ?rec (int (count src - 2)) = Inr (crc_run 0 ?rec)"
      using n crc_packet_run [of "count src - 2" ?rec]
        peek_in [of "count src - 2" "packet src"] peek_in [of "count src - 1" "packet src"] by simp_all
    obtain src3 where "process_packet src2 ?rec (count src - 2) = Inr src3" "wf_source src3"
      using process_packet_ok [OF w2, of ?rec] n(1) len by fastforce
    with False m n p w2 show ?thesis
      by (auto simp: end_of_frame_def Let_def inv_intros simp flip: src1_def)
  qed
qed

lemma store_byte_ok:
  "wf_source src \<Longrightarrow> count src < MTU \<Longrightarrow>
   store_byte src b = Inr (False, src\<lparr>packet := (packet src)[count src := b], count := count src + 1\<rparr>) \<and>
   wf_source (src\<lparr>packet := (packet src)[count src := b], count := count src + 1\<rparr>)"
  by (simp add: store_byte_def wf_source_def)

lemma recv_byte_ok:
  assumes "wf_source src"
  shows "\<exists>fin src'. recv_byte src b = Inr (fin, src') \<and> wf_source src'"
proof -
  have "wf_source ((message (src\<lparr>in_sync := True\<rparr>) msg_sync)\<lparr>count := 0, escaped := False\<rparr>)"
    using assms by (intro inv_intros) simp_all
  moreover have "wf_source ((message src k)\<lparr>in_sync := False\<rparr>)" for k
    using assms by (intro inv_intros)
  moreover have "wf_source (src\<lparr>escaped := e\<rparr>)" for e using assms by (intro inv_intros)
  moreover have "\<exists>fin src'. store_byte s x = Inr (fin, src') \<and> wf_source src'"
    if "wf_source s" "count s = count src" "\<not> MTU \<le> count src" for s x
    using store_byte_ok [OF that(1), of x] that by auto
  ultimately show ?thesis
    using assms end_of_frame_ok [OF assms] by (auto simp: recv_byte_def)
qed

lemma refill_ok:
  "refill src nb = (r, src') \<Longrightarrow> wf_source src \<Longrightarrow> wf_source src' \<and> (r = None \<longrightarrow> bufpos src' < bufused src')"
proof (induction src nb arbitrary: r src' rule: refill.induct)
  case (1 src nb)
  obtain rr w where rr: "serial_read (os src) nb = (rr, w)" by fastforce
  have wf: "wf_source (src\<lparr>os := w\<rparr>)" "wf_source (message (src\<lparr>os := w\<rparr>) k)" for k
    using "1.prems"(2) by (simp_all add: inv_intros)
  show ?case
  proof (cases rr)
    case (RdErr e)
    show ?thesis
    proof (cases e)
      case EINTR
      with "1.prems"(1) rr RdErr have "refill (src\<lparr>os := w\<rparr>) nb = (r, src')" by (simp add: refill.simps [of src nb])
      from "1.IH"(2) [OF rr [symmetric] RdErr _ _ this wf(1)] EINTR show ?thesis by simp
    next
      case EOTHER
      with "1.prems"(1) rr RdErr have "refill (message (src\<lparr>os := w\<rparr>) msg_unix_error) nb = (r, src')"
        by (simp add: refill.simps [of src nb])
      from "1.IH"(1) [OF rr [symmetric] RdErr _ _ this wf(2)] EOTHER show ?thesis by simp
    qed (use "1.prems" rr RdErr wf in \<open>auto simp: refill.simps [of src nb]\<close>)
  next
    case (RdBytes bs)
    with "1.prems" rr serial_read_size(2) [OF rr RdBytes] show ?thesis
      by (auto simp: refill.simps [of src nb] wf_source_def)
  next
    case RdBlocked
    with "1.prems" rr wf show ?thesis by (auto simp: refill.simps [of src nb])
  qed
qed

lemma next_byte_ok:
  "wf_source src \<Longrightarrow> bufpos src < bufused src \<Longrightarrow>
   next_byte src = Inr (Byte (buffer src ! bufpos src), src\<lparr>bufpos := bufpos src + 1\<rparr>)"
  by (simp add: next_byte_def wf_source_def)

lemma read_byte_ok:
  assumes "wf_source src"
  shows "\<exists>r src'. read_byte src nb = Inr (r, src') \<and> wf_source src'"
proof -
  obtain rr src1 where rf: "refill src nb = (rr, src1)" by fastforce
  from refill_ok [OF this assms] rf assms next_byte_ok [of src] next_byte_ok [of src1] show ?thesis
    by (cases rr) (auto simp: read_byte_def inv_intros)
qed

lemma read_and_process_ok:
  "wf_source src \<Longrightarrow> \<exists>blk src'. read_and_process src nb = Inr (blk, src') \<and> wf_source src'"
proof (induction src nb rule: read_and_process.induct)
  case (1 src nb)
  obtain r src1 where rb: "read_byte src nb = Inr (r, src1)" "wf_source src1"
    using read_byte_ok [OF "1.prems"] by blast
  show ?case
  proof (cases r)
    case (Byte b)
    obtain fin src2 where rc: "recv_byte src1 b = Inr (fin, src2)" "wf_source src2"
      using recv_byte_ok [OF rb(2)] by blast
    with "1.IH" [OF rb(1) refl Byte rc(1) refl] rb Byte show ?thesis
      by (cases fin) (auto simp: read_and_process.simps [of src nb])
  qed (use rb in \<open>auto simp: read_and_process.simps [of src nb]\<close>)
qed

lemma wf_source_wait_loop: "source_wait_loop src d = (r, src') \<Longrightarrow> wf_source src \<Longrightarrow> wf_source src'"
proof (induction src d arbitrary: r src' rule: source_wait_loop.induct)
  case (1 src d)
  define src1 where "src1 = (case d of None \<Rightarrow> src | Some dl \<Rightarrow> snd (gettimeofday src))"
  define expired where "expired = (case d of None \<Rightarrow> False | Some dl \<Rightarrow> fst (time_left dl (fst (gettimeofday src))) < 0)"
  have split: "(case d of None \<Rightarrow> (False, src)
          | Some d \<Rightarrow> let (now, src') = gettimeofday src in (fst (time_left d now) < 0, src')) = (expired, src1)"
    by (cases d) (simp_all add: src1_def expired_def case_prod_beta)
  obtain rs w where s: "sys_select (os src1) (d \<noteq> None) = (rs, w)" by fastforce
  have wf: "wf_source src1" "wf_source (src1\<lparr>os := w\<rparr>)" "wf_source (message (src1\<lparr>os := w\<rparr>) k)" for k
    using "1.prems"(2) by (cases d; simp add: src1_def gettimeofday_def inv_intros)+
  note unfold = source_wait_loop.simps [of src d] split s
  show ?case
  proof (cases "\<not> expired \<and> rs = SelFail EINTR")
    case True
    with "1.prems"(1) have "source_wait_loop (src1\<lparr>os := w\<rparr>) d = (r, src')" by (simp add: unfold del: not_None_eq)
    from "1.IH" [OF split [symmetric] refl _ s [symmetric] _ refl this wf(2)] True show ?thesis by simp
  next
    case False
    with "1.prems"(1) wf show ?thesis
      by (cases rs; auto simp: unfold simp del: not_None_eq split: if_splits)
  qed
qed

lemma wf_source_wait: "source_wait src d = (r, src') \<Longrightarrow> wf_source src \<Longrightarrow> wf_source src'"
  by (auto simp: source_wait_def split: if_splits dest: wf_source_wait_loop)

lemma wf_pop:
  "pop_protocol_packet src t = (e, src') \<Longrightarrow> wf_source src \<Longrightarrow>
   wf_source src' \<and> (\<forall>x. e = Some x \<longrightarrow> unat (pl_len x) < length (pl_packet x))"
proof -
  assume pop: "pop_protocol_packet src t = (e, src')" and wf: "wf_source src"
  then have "\<forall>e \<in> set (queue src t). unat (pl_len e) < length (pl_packet e)" by (simp add: wf_source_def)
  with pop wf show ?thesis
    by (cases "queue src t") (auto simp: pop_protocol_packet_def wf_source_def split: if_splits)
qed

lemma read_serial_packet_loop_ok:
  "wf_source src \<Longrightarrow> \<exists>r src'. read_serial_packet_loop src = Inr (r, src') \<and> wf_source src' \<and>
     (\<forall>e. r = RPacket e \<longrightarrow> unat (pl_len e) < length (pl_packet e))"
proof (induction src rule: read_serial_packet_loop.induct)
  case (1 src)
  note unfold = read_serial_packet_loop.simps [of src]
  obtain e src1 where pop: "pop_protocol_packet src P_PACKET_NO_ACK = (e, src1)" by fastforce
  note p = wf_pop [OF pop "1.prems"]
  show ?case
  proof (cases "e = None \<and> \<not> (non_blocking src1 \<and> serial_source_empty src1)")
    case True
    obtain wr src2 where w: "source_wait src1 None = (wr, src2)" by fastforce
    have wf2: "wf_source src2" using wf_source_wait [OF w] p by blast
    show ?thesis
    proof (cases wr)
      case None
      with True pop w wf2 show ?thesis by (auto simp: unfold)
    next
      case (Some r)
      obtain blk src3 where rp: "read_and_process src2 (non_blocking src2) = Inr (blk, src3)" "wf_source src3"
        using read_and_process_ok [OF wf2] by blast
      have "read_serial_packet_loop src = (if blk then Inr (RBlocked, src3) else read_serial_packet_loop src3)"
        using True pop w Some rp by (auto simp: unfold)
      with "1.IH" [OF pop [symmetric] _ _ w [symmetric] Some rp(1) refl _ rp(2)] True rp(2) show ?thesis
        by (cases blk) auto
    qed
  next
    case False
    with pop p show ?thesis by (cases e) (auto simp: unfold)
  qed
qed

lemma await_ack_ok: "wf_source src \<Longrightarrow> \<exists>r src'. await_ack src d = Inr (r, src') \<and> wf_source src'"
proof (induction src d rule: await_ack.induct)
  case (1 src d)
  note unfold = await_ack.simps [of src d]
  obtain blk src1 where rp: "read_and_process src True = Inr (blk, src1)" "wf_source src1"
    using read_and_process_ok [OF "1.prems"] by blast
  obtain e src2 where pop: "pop_protocol_packet src1 P_ACK = (e, src2)" by fastforce
  note p = wf_pop [OF pop rp(2)]
  show ?case
  proof (cases e)
    case None
    obtain wr src3 where w: "source_wait src2 (Some d) = (wr, src3)" by fastforce
    have wf3: "wf_source src3" using wf_source_wait [OF w] p by blast
    show ?thesis
    proof (cases "\<exists>r. wr = Some r \<and> \<not> r < 0")
      case True
      then obtain r where r: "wr = Some r" "\<not> r < 0" by blast
      have "await_ack src d = await_ack src3 d" using rp pop None w r by (simp add: unfold)
      with "1.IH"(1) [OF rp(1) refl pop [symmetric] None w [symmetric] r wf3] show ?thesis by simp
    next
      case False
      with rp pop None w wf3 show ?thesis by (cases wr) (auto simp: unfold)
    qed
  next
    case (Some x)
    with p have "peek (pl_packet x) 0 = Inr (pl_packet x ! 0)" by (auto simp: peek_def)
    moreover note "1.IH"(2) [OF rp(1) refl pop [symmetric] Some this _ conjunct1 [OF p]]
    ultimately show ?thesis using rp pop Some p by (cases "pl_packet x ! 0 = seqno src2") (auto simp: unfold)
  qed
qed

lemma read_serial_packet_ok:
  assumes "wf_source src"
  shows "\<exists>r src'. read_serial_packet src = Inr (r, src') \<and> wf_source src' \<and>
      (\<forall>e. r = RPacket e \<longrightarrow> unat (pl_len e) < length (pl_packet e))"
proof -
  obtain blk src1 where "read_and_process src True = Inr (blk, src1)" "wf_source src1"
    using read_and_process_ok [OF assms] by blast
  with read_serial_packet_loop_ok [of src1] show ?thesis by (simp add: read_serial_packet_def)
qed

lemma write_serial_packet_ok:
  assumes "wf_source src" and "n \<le> length pkt"
  shows "\<exists>r src'. write_serial_packet src pkt (int n) = Inr (r, src') \<and> wf_source src'"
proof -
  let ?src = "src\<lparr>seqno := seqno src + 1\<rparr>"
  obtain r src2 where w: "write_framed_packet ?src P_PACKET_ACK (seqno src + 1) pkt (int n) = Inr (r, src2)"
    using write_framed_packet_eq [OF assms(2)] by metis
  have "wf_source ?src" using assms(1) by (intro inv_intros)
  with wf_rest_view [OF rest_view_write_framed_packet [OF w]] have wf2: "wf_source src2" by blast
  obtain now src3 where t: "gettimeofday src2 = (now, src3)" by fastforce
  with wf2 have "wf_source src3" by (auto simp: gettimeofday_def inv_intros)
  with await_ack_ok [OF this, of "add_timeval now ACK_TIMEOUT"] w t wf2 show ?thesis
    by (auto simp: write_serial_packet_def Let_def)
qed

subsection \<open>A non-blocking source never blocks\<close>

lemma non_blocking_view: "input_view src' = input_view src \<Longrightarrow> non_blocking src' = non_blocking src"
  by (simp add: input_view_def)

lemma refill_non_blocking: "refill src nb = (r, src') \<Longrightarrow> non_blocking src' = non_blocking src"
proof (induction src nb arbitrary: r src' rule: refill.induct)
  case (1 src nb)
  obtain rr w where rr: "serial_read (os src) nb = (rr, w)" by fastforce
  show ?case
  proof (cases rr)
    case (RdErr e)
    show ?thesis
    proof (cases e)
      case EINTR
      with "1.prems" rr RdErr have "refill (src\<lparr>os := w\<rparr>) nb = (r, src')" by (simp add: refill.simps [of src nb])
      from "1.IH"(2) [OF rr [symmetric] RdErr _ _ this] EINTR show ?thesis by simp
    next
      case EOTHER
      with "1.prems" rr RdErr have "refill (message (src\<lparr>os := w\<rparr>) msg_unix_error) nb = (r, src')"
        by (simp add: refill.simps [of src nb])
      from "1.IH"(1) [OF rr [symmetric] RdErr _ _ this] EOTHER show ?thesis by (simp add: message_def)
    qed (use "1.prems" rr RdErr in \<open>auto simp: refill.simps [of src nb]\<close>)
  qed (use "1.prems" rr in \<open>auto simp: refill.simps [of src nb] message_def split: if_splits\<close>)
qed

lemma read_byte_non_blocking: "read_byte src nb = Inr (r, src') \<Longrightarrow> non_blocking src' = non_blocking src"
  by (auto simp: read_byte_def next_byte_def bind_ub_eq_Inr split: if_splits prod.splits option.splits
      dest!: refill_non_blocking)

lemma read_and_process_keeps_non_blocking:
  "read_and_process src nb = Inr (blk, src') \<Longrightarrow> non_blocking src' = non_blocking src"
proof (induction src nb arbitrary: blk src' rule: read_and_process.induct)
  case (1 src nb)
  obtain r src1 where rb: "read_byte src nb = Inr (r, src1)"
    using "1.prems" by (auto simp: read_and_process.simps [of src nb] bind_ub_eq_Inr)
  note n1 = read_byte_non_blocking [OF rb]
  show ?case
  proof (cases r)
    case (Byte b)
    with "1.prems" rb obtain fin src2 where rc: "recv_byte src1 b = Inr (fin, src2)"
      by (auto simp: read_and_process.simps [of src nb] bind_ub_eq_Inr)
    note n2 = non_blocking_view [OF input_view_recv_byte [OF rc]]
    from "1.prems" rb Byte rc have "if fin then src' = src2 else read_and_process src2 nb = Inr (blk, src')"
      by (auto simp: read_and_process.simps [of src nb])
    with "1.IH" [OF rb refl Byte rc refl] n1 n2 show ?thesis by (cases fin) auto
  qed (use "1.prems" rb n1 in \<open>auto simp: read_and_process.simps [of src nb]\<close>)
qed

lemma read_serial_packet_loop_returns:
  "read_serial_packet_loop src = Inr (r, src') \<Longrightarrow> non_blocking src \<Longrightarrow> r \<noteq> RBlocked \<and> non_blocking src'"
proof (induction src arbitrary: r src' rule: read_serial_packet_loop.induct)
  case (1 src)
  note unfold = read_serial_packet_loop.simps [of src]
  show ?case
  proof (cases "queue src P_PACKET_NO_ACK = [] \<and> \<not> serial_source_empty src")
    case True
    then have pop: "pop_protocol_packet src P_PACKET_NO_ACK = (None, src)" by (simp add: pop_protocol_packet_def)
    have "bufpos src < bufused src"
      using True by (auto simp: serial_source_empty_def packet_available_def)
    then have w: "source_wait src None = (Some 0, src)" by (simp add: source_wait_def)
    from True pop w "1.prems" obtain blk src3 where
      rp: "read_and_process src True = Inr (blk, src3)" "if blk then r = RBlocked else read_serial_packet_loop src3 = Inr (r, src')"
      by (auto simp: unfold bind_ub_eq_Inr split: if_splits)
    have nb: "\<not> blk" "non_blocking src3"
      using read_and_process_nonblocking [OF rp(1)] read_and_process_keeps_non_blocking [OF rp(1)] "1.prems"(2) by simp_all
    have "\<not> (non_blocking src \<and> serial_source_empty src)" "read_and_process src (non_blocking src) = Inr (blk, src3)"
      using True rp(1) "1.prems"(2) by simp_all
    from "1.IH" [OF pop [symmetric] refl this(1) w [symmetric] refl this(2) refl nb(1) _ nb(2)] rp(2) nb(1) show ?thesis by simp
  next
    case False
    with "1.prems" show ?thesis
      by (cases "queue src P_PACKET_NO_ACK") (auto simp: unfold pop_protocol_packet_def)
  qed
qed

lemma read_serial_packet_returns:
  "read_serial_packet src = Inr (r, src') \<Longrightarrow> non_blocking src \<Longrightarrow> r \<noteq> RBlocked \<and> non_blocking src'"
  by (auto simp: read_serial_packet_def bind_ub_eq_Inr dest!: read_serial_packet_loop_returns read_and_process_keeps_non_blocking)

lemma await_ack_non_blocking: "await_ack src d = Inr (r, src') \<Longrightarrow> non_blocking src' = non_blocking src"
proof (induction src d arbitrary: r src' rule: await_ack.induct)
  case (1 src d)
  note unfold = await_ack.simps [of src d]
  obtain blk src1 where rp: "read_and_process src True = Inr (blk, src1)"
    using "1.prems" by (auto simp: unfold bind_ub_eq_Inr)
  obtain e src2 where pop: "pop_protocol_packet src1 P_ACK = (e, src2)" by fastforce
  have n2: "non_blocking src2 = non_blocking src"
    using pop read_and_process_keeps_non_blocking [OF rp]
    by (auto simp: pop_protocol_packet_def split: list.splits)
  show ?case
  proof (cases e)
    case None
    obtain wr src3 where w: "source_wait src2 (Some d) = (wr, src3)" by fastforce
    note n3 = source_wait_frame(1) [OF w]
    show ?thesis
    proof (cases "\<exists>v. wr = Some v \<and> \<not> v < 0")
      case True
      then obtain v where v: "wr = Some v" "\<not> v < 0" by blast
      have "await_ack src3 d = Inr (r, src')" using "1.prems" rp pop None w v by (simp add: unfold)
      from "1.IH"(1) [OF rp refl pop [symmetric] None w [symmetric] v this] n2 n3 show ?thesis by simp
    next
      case False
      with "1.prems" rp pop None w n2 n3 show ?thesis by (cases wr) (auto simp: unfold)
    qed
  next
    case (Some x)
    then obtain b where b: "peek (pl_packet x) 0 = Inr b" using "1.prems" rp pop by (auto simp: unfold bind_ub_eq_Inr)
    show ?thesis
    proof (cases "b = seqno src2")
      case True
      with "1.prems" rp pop Some n2 b show ?thesis by (auto simp: unfold)
    next
      case False
      with "1.prems" rp pop Some b have "await_ack src2 d = Inr (r, src')" by (simp add: unfold)
      from "1.IH"(2) [OF rp refl pop [symmetric] Some b False this] n2 show ?thesis by simp
    qed
  qed
qed

lemma write_serial_packet_non_blocking:
  assumes "write_serial_packet src pkt n = Inr (r, src')"
  shows "non_blocking src' = non_blocking src"
proof -
  let ?src = "src\<lparr>seqno := seqno src + 1\<rparr>"
  from assms obtain q src2 where w: "write_framed_packet ?src P_PACKET_ACK (seqno ?src) pkt n = Inr (q, src2)"
    by (auto simp: write_serial_packet_def Let_def bind_ub_eq_Inr)
  note n2 = non_blocking_view [OF rest_input_view [OF rest_view_write_framed_packet [OF w]]]
  obtain now src3 where t: "gettimeofday src2 = (now, src3)" by fastforce
  then have "non_blocking src3 = non_blocking src2" by (auto simp: gettimeofday_def)
  with assms w t n2 show ?thesis
    by (auto simp: write_serial_packet_def Let_def split: if_splits dest: await_ack_non_blocking)
qed


lemma open_serial_source_wf: "open_serial_source flag op fl at mem w baud nb mf = Some src \<Longrightarrow> wf_source src"
  by (auto simp: open_serial_source_def wf_source_def split: if_splits)

definition quiet_os :: os where
  "quiet_os = \<lparr>rx = [], sel = [], wr = [], tx = [], fcntl_ok = [], malloc_ok = [], clock = (\<lambda>_. (0, 0)), ticks = 0\<rparr>"

definition fresh_source :: "os \<Rightarrow> serial_source" where
  "fresh_source w = the (open_serial_source (\<lambda>_. Some 15) True True True True w 115200 True True)"

lemma fresh_source_wf: "wf_source (fresh_source w)"
  by (rule open_serial_source_wf [of "\<lambda>_. Some 15" True True True True w 115200 True True])
    (simp add: fresh_source_def open_serial_source_def parse_baudrate_def baud_rates_def)


end
