(* ===== verification/Channel.thy ===== *)
theory Channel
  imports Prelude
begin

section \<open>The contract of a packet channel\<close>

text \<open>
  The serial line and the socket protocol of the serial forwarder both carry packets over a byte
  stream. A receiver \<open>recv\<close> takes the next packet from its state; \<open>stream\<close> gives the bytes that
  wait in that state and \<open>codes p bs\<close> says that \<open>bs\<close> is an encoding of packet \<open>p\<close>. The contract
  speaks of one packet; that whole sequences arrive complete and in order follows once for all.
\<close>

locale packet_channel =
  fixes inv :: "'r \<Rightarrow> bool"
    and stream :: "'r \<Rightarrow> u8 list"
    and codes :: "u8 list \<Rightarrow> u8 list \<Rightarrow> bool"
    and recv :: "'r \<Rightarrow> (u8 list \<times> 'r) option"
  assumes recv_one: "inv r \<Longrightarrow> codes p bs \<Longrightarrow> stream r = bs @ rest \<Longrightarrow>
      \<exists>r'. recv r = Some (p, r') \<and> inv r' \<and> stream r' = rest"
begin

primrec recv_many :: "nat \<Rightarrow> 'r \<Rightarrow> (u8 list list \<times> 'r) option" where
  "recv_many 0 r = Some ([], r)"
| "recv_many (Suc n) r = (case recv r of None \<Rightarrow> None
     | Some (p, r1) \<Rightarrow> (case recv_many n r1 of None \<Rightarrow> None | Some (ps, r2) \<Rightarrow> Some (p # ps, r2)))"

lemma recv_sequence:
  "inv r \<Longrightarrow> list_all2 codes ps bss \<Longrightarrow> stream r = concat bss @ rest \<Longrightarrow>
   \<exists>r'. recv_many (length ps) r = Some (ps, r') \<and> inv r' \<and> stream r' = rest"
proof (induction ps arbitrary: r bss)
  case (Cons p ps)
  then obtain bs bss' where b: "bss = bs # bss'" "codes p bs" "list_all2 codes ps bss'"
    by (auto simp: list_all2_Cons1)
  with Cons.prems(3) have "stream r = bs @ (concat bss' @ rest)" by simp
  from recv_one [OF Cons.prems(1) b(2) this] obtain r1 where
    1: "recv r = Some (p, r1)" "inv r1" "stream r1 = concat bss' @ rest" by blast
  from Cons.IH [OF 1(2) b(3) 1(3)] 1(1) show ?case by auto
qed simp

lemma stream_determines:
  "inv r \<Longrightarrow> codes p bs \<Longrightarrow> codes q bs \<Longrightarrow> stream r = bs @ rest \<Longrightarrow> p = q"
  using recv_one [of r p bs rest] recv_one [of r q bs rest] by fastforce

end

end
