(* ===== verification/SerialLink.thy ===== *)
theory SerialLink
  imports SerialFrames Channel
begin

unbundle bit_operations_syntax

section \<open>The serial link end to end\<close>

text \<open>
  The decoder of lib/sf/serialsource.c against the frames of theory SerialFrames: packets arrive
  as they were sent, however the line cuts the byte stream into reads; they are acknowledged;
  damaged frames are dropped and do not harm the frames after them.
\<close>

subsection \<open>Bytes that wait to be decoded\<close>

fun rx_data :: "rx_event \<Rightarrow> u8 list" where
  "rx_data (RxBytes bs) = bs"
| "rx_data _ = []"

definition pending :: "serial_source \<Rightarrow> u8 list" where
  "pending src = drop (bufpos src) (take (bufused src) (buffer src)) @ concat (map rx_data (rx (os src)))"

definition all_data :: "serial_source \<Rightarrow> bool" where
  "all_data src \<longleftrightarrow> (\<forall>e \<in> set (rx (os src)). rx_data e \<noteq> [])"

text \<open>What reading a byte leaves alone, and what decoding an inner byte of a frame leaves alone.\<close>

definition carry where
  "carry src = (non_blocking src, has_message src, queue src, seqno src, malloc_ok (os src), wr (os src),
     fcntl_ok (os src), tx (os src))"

definition rstate where
  "rstate src = (in_sync src, escaped src, count src, packet src)"

lemma read_byte_pending:
  assumes "wf_source src" and "all_data src" and "pending src = b # bs"
  shows "\<exists>src1. read_byte src True = Inr (Byte b, src1) \<and> wf_source src1 \<and> all_data src1 \<and>
    pending src1 = bs \<and> carry src1 = carry src \<and> rstate src1 = rstate src"
proof (cases "bufpos src < bufused src")
  case True
  with assms(1) have len: "bufpos src < length (take (bufused src) (buffer src))" by (simp add: wf_source_def)
  have "drop (bufpos src) (take (bufused src) (buffer src)) =
      buffer src ! bufpos src # drop (Suc (bufpos src)) (take (bufused src) (buffer src))"
    using True Cons_nth_drop_Suc [OF len] by simp
  with True assms next_byte_ok [OF assms(1) True] show ?thesis
    by (auto simp: read_byte_def pending_def all_data_def carry_def rstate_def inv_intros)
next
  case False
  with assms(3) have c: "concat (map rx_data (rx (os src))) = b # bs" by (simp add: pending_def)
  then obtain e es where rx: "rx (os src) = e # es" by (cases "rx (os src)") auto
  with assms(2) obtain cs where e: "e = RxBytes cs" "cs \<noteq> []" by (cases e) (auto simp: all_data_def)
  define cs1 where "cs1 = take BUFSIZE cs"
  define es1 where "es1 = (if length cs \<le> BUFSIZE then es else RxBytes (drop BUFSIZE cs) # es)"
  define src1 where "src1 = src\<lparr>os := (os src)\<lparr>rx := es1\<rparr>, buffer := cs1 @ drop (length cs1) (buffer src),
     bufpos := 0, bufused := length cs1\<rparr>"
  have cs1: "cs1 \<noteq> []" "length cs1 \<le> BUFSIZE" using e(2) by (auto simp: cs1_def BUFSIZE_def)
  have rf: "refill src True = (None, src1)"
    using rx e cs1
    by (simp add: refill.simps [of src] serial_read_def sys_read_def src1_def es1_def cs1_def)
  have wf1: "wf_source src1" using assms(1) cs1(2) by (auto simp: src1_def wf_source_def)
  have nb: "next_byte src1 = Inr (Byte (cs1 ! 0), src1\<lparr>bufpos := 1\<rparr>)"
    using next_byte_ok [OF wf1] cs1(1) by (simp add: src1_def nth_append)
  have cat: "cs1 @ concat (map rx_data es1) = b # bs"
    using c rx e append_take_drop_id [of BUFSIZE cs] by (auto simp: cs1_def es1_def simp flip: append_assoc)
  then have hd: "cs1 ! 0 = b" "tl cs1 @ concat (map rx_data es1) = bs" using cs1(1) by (cases cs1; auto)+
  have "pending (src1\<lparr>bufpos := 1\<rparr>) = bs" using hd(2) by (simp add: pending_def src1_def drop_Suc)
  moreover have "all_data src1" using assms(2) rx e by (auto simp: all_data_def src1_def es1_def)
  ultimately show ?thesis
    using False rf nb hd(1) wf1
    by (auto simp: read_byte_def inv_intros carry_def rstate_def all_data_def) (simp_all add: src1_def)
qed

text \<open>One turn of the receive loop.\<close>

lemma rp_turn:
  assumes "wf_source src" and "all_data src" and "pending src = b # bs"
  obtains src1 where "wf_source src1" "all_data src1" "pending src1 = bs" "carry src1 = carry src" "rstate src1 = rstate src"
    "read_and_process src True = bind_ub (recv_byte src1 b) (\<lambda>(fin, src2).
       if fin then Inr (False, src2) else read_and_process src2 True)"
proof -
  obtain src1 where "read_byte src True = Inr (Byte b, src1)" "wf_source src1" "all_data src1"
      "pending src1 = bs" "carry src1 = carry src" "rstate src1 = rstate src"
    using read_byte_pending [OF assms] by blast
  with that show thesis by (simp add: read_and_process.simps [of src])
qed

lemma pending_view: "input_view src' = input_view src \<Longrightarrow> pending src' = pending src \<and> all_data src' = all_data src"
  by (simp add: input_view_def pending_def all_data_def)

subsection \<open>Inside a frame\<close>

definition ready :: "serial_source \<Rightarrow> u8 list \<Rightarrow> bool" where
  "ready src acc \<longleftrightarrow> wf_source src \<and> all_data src \<and> in_sync src \<and> \<not> escaped src \<and>
     count src = length acc \<and> take (length acc) (packet src) = acc"

lemma store_ready:
  assumes "wf_source src" "all_data src" "in_sync src" "\<not> escaped src" "count src = length acc"
    "take (length acc) (packet src) = acc" "length acc < MTU"
  shows "\<exists>src2. store_byte src b = Inr (False, src2) \<and> ready src2 (acc @ [b]) \<and> pending src2 = pending src \<and> carry src2 = carry src"
proof -
  have len: "length acc < length (packet src)" using assms(1,7) by (simp add: wf_source_def)
  have "take (Suc (length acc)) ((packet src)[length acc := b]) = acc @ [b]"
    using assms(6) len by (simp add: take_Suc_conv_app_nth)
  with store_byte_ok [OF assms(1), of b] assms show ?thesis
    by (auto simp: ready_def pending_def all_data_def carry_def)
qed

lemma esc_xor: "b = SYNC_BYTE \<or> b = ESCAPE_BYTE \<Longrightarrow> b XOR 0x20 \<noteq> SYNC_BYTE"
  by (auto simp: SYNC_BYTE_def ESCAPE_BYTE_def)

lemma xor_self_cancel: "(b XOR m) XOR m = b" for b m :: u8
  by (simp add: xor.assoc)

lemma rp_byte:
  assumes "ready src acc" and "pending src = esc b @ rest" and "length acc < MTU"
  shows "\<exists>src2. read_and_process src True = read_and_process src2 True \<and> ready src2 (acc @ [b]) \<and>
    pending src2 = rest \<and> carry src2 = carry src"
proof -
  have r: "wf_source src" "all_data src" "in_sync src" "\<not> escaped src" "count src = length acc"
    "take (length acc) (packet src) = acc" using assms(1) by (simp_all add: ready_def)
  show ?thesis
  proof (cases "b = SYNC_BYTE \<or> b = ESCAPE_BYTE")
    case False
    with assms(2) have "pending src = b # rest" by (simp add: esc_def)
    from rp_turn [OF r(1,2) this] obtain src1 where
      1: "wf_source src1" "all_data src1" "pending src1 = rest" "carry src1 = carry src" "rstate src1 = rstate src"
        "read_and_process src True = bind_ub (recv_byte src1 b) (\<lambda>(fin, src2).
           if fin then Inr (False, src2) else read_and_process src2 True)" .
    have "recv_byte src1 b = store_byte src1 b"
      using False r assms(3) 1(5) by (simp add: recv_byte_def rstate_def)
    with store_ready [of src1 acc b] 1 r assms(3) show ?thesis by (auto simp: rstate_def)
  next
    case True
    with assms(2) have "pending src = ESCAPE_BYTE # (b XOR 0x20) # rest" by (simp add: esc_def)
    from rp_turn [OF r(1,2) this] obtain src1 where
      1: "wf_source src1" "all_data src1" "pending src1 = (b XOR 0x20) # rest" "carry src1 = carry src" "rstate src1 = rstate src"
        "read_and_process src True = bind_ub (recv_byte src1 ESCAPE_BYTE) (\<lambda>(fin, src2).
           if fin then Inr (False, src2) else read_and_process src2 True)" .
    define src2 where "src2 = src1\<lparr>escaped := True\<rparr>"
    have "recv_byte src1 ESCAPE_BYTE = Inr (False, src2)"
      using r assms(3) 1(5) by (simp add: recv_byte_def rstate_def src2_def)
    moreover have 2: "wf_source src2" "all_data src2" "pending src2 = (b XOR 0x20) # rest"
      using 1 by (auto simp: src2_def inv_intros all_data_def pending_def)
    from rp_turn [OF this] obtain src3 where
      3: "wf_source src3" "all_data src3" "pending src3 = rest" "carry src3 = carry src2" "rstate src3 = rstate src2"
        "read_and_process src2 True = bind_ub (recv_byte src3 (b XOR 0x20)) (\<lambda>(fin, src2).
           if fin then Inr (False, src2) else read_and_process src2 True)" .
    define src4 where "src4 = src3\<lparr>escaped := False\<rparr>"
    have "recv_byte src3 (b XOR 0x20) = store_byte src4 b"
      using r assms(3) 1(5) 3(5) esc_xor [OF True]
      by (simp add: recv_byte_def rstate_def src2_def src4_def xor_self_cancel)
    moreover have "\<exists>src5. store_byte src4 b = Inr (False, src5) \<and> ready src5 (acc @ [b]) \<and>
        pending src5 = pending src4 \<and> carry src5 = carry src4"
      using r assms(3) 1(5) 3
      by (intro store_ready) (auto simp: src4_def src2_def rstate_def all_data_def inv_intros)
    ultimately show ?thesis
      using 1 3 by (auto simp: src2_def src4_def carry_def pending_def)
  qed
qed

lemma rp_bytes:
  "ready src acc \<Longrightarrow> pending src = concat (map esc bs) @ rest \<Longrightarrow> length acc + length bs \<le> MTU \<Longrightarrow>
   \<exists>src2. read_and_process src True = read_and_process src2 True \<and> ready src2 (acc @ bs) \<and>
    pending src2 = rest \<and> carry src2 = carry src"
proof (induction bs arbitrary: src acc)
  case (Cons b bs)
  then have p: "pending src = esc b @ (concat (map esc bs) @ rest)" by simp
  from rp_byte [OF Cons.prems(1) p] Cons.prems(3) obtain src1 where
    1: "read_and_process src True = read_and_process src1 True" "ready src1 (acc @ [b])"
      "pending src1 = concat (map esc bs) @ rest" "carry src1 = carry src" by auto
  from Cons.IH [OF 1(2,3)] Cons.prems(3) 1 show ?case by auto
qed auto

subsection \<open>Frame boundaries\<close>

definition at_boundary :: "serial_source \<Rightarrow> bool" where
  "at_boundary src \<longleftrightarrow> in_sync src \<longrightarrow> \<not> escaped src \<and> count src = 0"

text \<open>A flag byte outside a frame, or after fewer than four bytes, leaves the receiver ready.\<close>

lemma rp_sync:
  assumes "wf_source src" and "all_data src" and "pending src = SYNC_BYTE # rest" and "at_boundary src"
  shows "\<exists>src2. read_and_process src True = read_and_process src2 True \<and> ready src2 [] \<and>
    pending src2 = rest \<and> carry src2 = carry src"
proof -
  from rp_turn [OF assms(1-3)] obtain src1 where
    1: "wf_source src1" "all_data src1" "pending src1 = rest" "carry src1 = carry src" "rstate src1 = rstate src"
      "read_and_process src True = bind_ub (recv_byte src1 SYNC_BYTE) (\<lambda>(fin, src2).
         if fin then Inr (False, src2) else read_and_process src2 True)" .
  have ne: "SYNC_BYTE \<noteq> ESCAPE_BYTE" by (simp add: SYNC_BYTE_def ESCAPE_BYTE_def)
  show ?thesis
  proof (cases "in_sync src")
    case True
    then have "recv_byte src1 SYNC_BYTE = Inr (False, src1\<lparr>count := 0\<rparr>)"
      using assms(4) 1(5) ne by (simp add: recv_byte_def rstate_def at_boundary_def end_of_frame_def MTU_def)
    moreover have "ready (src1\<lparr>count := 0\<rparr>) []"
      using True 1 assms(4) by (auto simp: ready_def inv_intros all_data_def rstate_def at_boundary_def)
    ultimately show ?thesis using 1 by (auto simp: pending_def carry_def)
  next
    case False
    define src2 where "src2 = (message (src1\<lparr>in_sync := True\<rparr>) msg_sync)\<lparr>count := 0, escaped := False\<rparr>"
    have "recv_byte src1 SYNC_BYTE = Inr (False, src2)"
      using False 1(5) by (simp add: recv_byte_def rstate_def src2_def)
    moreover have "wf_source src2" unfolding src2_def using 1(1) by (intro inv_intros) simp_all
    then have "ready src2 []" using 1(2) by (simp add: ready_def all_data_def src2_def)
    ultimately show ?thesis using 1 by (auto simp: pending_def carry_def src2_def)
  qed
qed

lemma take_content: "take (length bs) (content bs) = bs"
  by (simp add: content_def)

lemma bytes_of_crc: "ucast (ucast (c AND 0xff) :: u8) OR push_bit 8 (ucast (ucast (drop_bit 8 c) :: u8)) = c" for c :: u16
proof (rule bit_eqI)
  fix i assume "possible_bit TYPE(u16) i"
  then have i: "i < 16" by simp
  have ff: "(0xff :: u16) = mask 8" by (simp add: mask_eq_exp_minus_1)
  show "bit (ucast (ucast (c AND 0xff) :: u8) OR push_bit 8 (ucast (ucast (drop_bit 8 c) :: u8)) :: u16) i = bit c i"
    unfolding ff using i by (cases "i < 8")
      (auto simp: bit_or_iff bit_ucast_iff bit_and_iff bit_mask_iff bit_push_bit_iff bit_drop_bit_eq)
qed

text \<open>
  The closing flag byte of a frame that carries \<open>bs\<close> and the two bytes \<open>lo\<close>, \<open>hi\<close>: the packet is
  processed if they are its checksum, and dropped otherwise.
\<close>

lemma end_of_frame_content:
  assumes "wf_source src" and "link_ok (os src)" and "count src = length bs + 2" and "2 \<le> length bs"
    and "take (length bs + 2) (packet src) = bs @ [lo, hi]"
  obtains src2 where "rest_view src2 = rest_view (src\<lparr>count := 0\<rparr>)" "link_ok (os src2)" "tx (os src2) = tx (os src)"
    "end_of_frame src = (if ucast lo OR push_bit 8 (ucast hi) = crc_run 0 bs
       then bind_ub (process_packet src2 bs (length bs)) (\<lambda>src3. Inr (True, src3))
       else Inr (False, message src2 msg_bad_crc))"
proof -
  define src1 where "src1 = src\<lparr>count := 0\<rparr>"
  define src2 where "src2 = snd (malloc src1)"
  have lk: "link_ok (os src1)" using assms(2) by (simp add: src1_def)
  have m: "malloc src1 = (True, src2)" "link_ok (os src2)" "tx (os src2) = tx (os src)"
    using link_ok_malloc [OF lk] by (auto simp: src2_def prod_eq_iff src1_def)
  have len: "length bs + 2 \<le> length (packet src)" using assms(1,3) by (simp add: wf_source_def)
  have nth: "packet src ! i = (bs @ [lo, hi]) ! i" if "i < length bs + 2" for i
    using nth_take [OF that, of "packet src"] by (simp only: assms(5))
  have rec: "take (length bs) (packet src) = bs"
    using arg_cong [OF assms(5), of "take (length bs)"] by simp
  have p: "peek (packet src) (int (length bs)) = Inr lo" "peek (packet src) (int (length bs + 1)) = Inr hi"
    using len nth [of "length bs"] nth [of "length bs + 1"] peek_in [of "length bs" "packet src"]
      peek_in [of "length bs + 1" "packet src"] by (simp_all add: nth_append)
  have "end_of_frame src = (if ucast lo OR push_bit 8 (ucast hi) = crc_run 0 bs
       then bind_ub (process_packet src2 bs (length bs)) (\<lambda>src3. Inr (True, src3))
       else Inr (False, message src2 msg_bad_crc))"
    using assms(3,4) m(1) len rec p crc_packet_run [of "length bs" bs]
    by (simp add: end_of_frame_def Let_def flip: src1_def)
  with that [of src2] m rest_view_malloc [OF m(1)] show thesis by (simp add: src1_def)
qed

lemma rp_end:
  assumes "ready src (bs @ [lo, hi])" and "link_ok (os src)" and "2 \<le> length bs" and "length bs + 2 < MTU"
    and "pending src = SYNC_BYTE # rest"
  obtains src2 where "ready src2 []" "pending src2 = rest" "queue src2 = queue src" "seqno src2 = seqno src"
    "non_blocking src2 = non_blocking src" "link_ok (os src2)" "tx (os src2) = tx (os src)"
    "read_and_process src True = (if ucast lo OR push_bit 8 (ucast hi) = crc_run 0 bs
       then bind_ub (process_packet src2 bs (length bs)) (\<lambda>src3. Inr (False, src3))
       else read_and_process (message src2 msg_bad_crc) True)"
proof -
  have r: "wf_source src" "all_data src" "in_sync src" "\<not> escaped src" "count src = length bs + 2"
    "take (length bs + 2) (packet src) = bs @ [lo, hi]" using assms(1) by (simp_all add: ready_def)
  from rp_turn [OF r(1,2) assms(5)] obtain src1 where
    1: "wf_source src1" "all_data src1" "pending src1 = rest" "carry src1 = carry src" "rstate src1 = rstate src"
      "read_and_process src True = bind_ub (recv_byte src1 SYNC_BYTE) (\<lambda>(fin, src2).
         if fin then Inr (False, src2) else read_and_process src2 True)" .
  have lk: "link_ok (os src1)" using assms(2) 1(4) by (simp add: link_ok_def carry_def)
  have ne: "SYNC_BYTE \<noteq> ESCAPE_BYTE" by (simp add: SYNC_BYTE_def ESCAPE_BYTE_def)
  have rb: "recv_byte src1 SYNC_BYTE = end_of_frame src1"
    using r assms(4) 1(5) ne by (simp add: recv_byte_def rstate_def)
  have c: "count src1 = length bs + 2" "take (length bs + 2) (packet src1) = bs @ [lo, hi]"
    using r 1(5) by (simp_all add: rstate_def)
  from end_of_frame_content [OF 1(1) lk c(1) assms(3) c(2)] obtain src2 where
    2: "rest_view src2 = rest_view (src1\<lparr>count := 0\<rparr>)" "link_ok (os src2)" "tx (os src2) = tx (os src1)"
      "end_of_frame src1 = (if ucast lo OR push_bit 8 (ucast hi) = crc_run 0 bs
       then bind_ub (process_packet src2 bs (length bs)) (\<lambda>src3. Inr (True, src3))
       else Inr (False, message src2 msg_bad_crc))" .
  have wf2: "wf_source src2" using wf_rest_view [OF 2(1)] 1(1) by (simp add: inv_intros)
  have rd: "ready src2 []" using 2(1) wf2 1(2,5) r pending_view [OF rest_input_view [OF 2(1)]]
    by (simp add: ready_def rest_view_def rstate_def all_data_def input_view_def)
  have pd: "pending src2 = rest"
    using pending_view [OF rest_input_view [OF 2(1)]] 1(3) by (simp add: pending_def)
  show thesis
  proof (rule that [OF rd pd _ _ _ 2(2)])
    show "queue src2 = queue src" "seqno src2 = seqno src" "non_blocking src2 = non_blocking src" "tx (os src2) = tx (os src)"
      using 2(1,3) 1(4) by (simp_all add: rest_view_def input_view_def carry_def)
    show "read_and_process src True = (if ucast lo OR push_bit 8 (ucast hi) = crc_run 0 bs
       then bind_ub (process_packet src2 bs (length bs)) (\<lambda>src3. Inr (False, src3))
       else read_and_process (message src2 msg_bad_crc) True)"
      using 1(6) rb 2(4) by (cases "process_packet src2 bs (length bs)") simp_all
  qed
qed

subsection \<open>What is delivered\<close>

definition payload :: "packet_list \<Rightarrow> u8 list" where
  "payload e = take (unat (pl_len e)) (pl_packet e)"

lemma push_link_ok:
  assumes "link_ok (os src)"
  shows "\<exists>src'. push_protocol_packet src t p n = src' \<and> rest_view (src'\<lparr>queue := queue src\<rparr>) = rest_view src \<and>
    queue src' = (queue src)(t := queue src t @ [\<lparr>pl_packet = p, pl_len = n\<rparr>]) \<and>
    link_ok (os src') \<and> tx (os src') = tx (os src)"
proof -
  obtain src1 where m: "malloc src = (True, src1)"
    using link_ok_malloc [OF assms] by (metis prod.collapse)
  from link_ok_malloc [OF assms] rest_view_malloc [OF m] m show ?thesis
    by (simp add: push_protocol_packet_def rest_view_def input_view_def)
qed

lemma payload_moved:
  assumes "length q < 256"
  shows "payload \<lparr>pl_packet = q @ r, pl_len = of_nat (length q)\<rparr> = q"
  using assms by (simp add: payload_def unat_of_nat)

lemma process_packet_ack:
  assumes "link_ok (os src)" and "length p < 254"
  shows "\<exists>e src'. process_packet src (P_PACKET_ACK # seq # p) (length p + 2) = Inr src' \<and> payload e = p \<and>
    queue src' = (queue src)(P_PACKET_NO_ACK := queue src P_PACKET_NO_ACK @ [e]) \<and>
    rest_view (src'\<lparr>queue := queue src\<rparr>) = rest_view src \<and> link_ok (os src') \<and>
    tx (os src') = tx (os src) @ frame [P_ACK, seq]"
proof -
  let ?pkt = "P_PACKET_ACK # seq # p"
  obtain src1 where w: "write_framed_packet src P_ACK seq [] 0 = Inr (0, src1)" "link_ok (os src1)"
      "tx (os src1) = tx (os src) @ frame [P_ACK, seq]"
    using write_framed_packet_link_ok [of 0 "[]" src P_ACK seq] assms(1) by auto
  note rv = rest_view_write_framed_packet [OF w(1)]
  have pk: "peek ?pkt 0 = Inr P_PACKET_ACK" "peek ?pkt 1 = Inr seq" by (simp_all add: peek_def)
  let ?e = "\<lparr>pl_packet = p @ drop (length p) ?pkt, pl_len = of_nat (length p)\<rparr>"
  have "process_packet src ?pkt (length p + 2) =
      Inr (push_protocol_packet src1 P_PACKET_NO_ACK (pl_packet ?e) (pl_len ?e))"
    using pk w(1) by (simp add: process_packet_def memmove_down_def)
  moreover have "payload ?e = p" using assms(2) by (intro payload_moved) simp
  ultimately show ?thesis
    using push_link_ok [OF w(2), of P_PACKET_NO_ACK "pl_packet ?e" "pl_len ?e"] w rv
    by (intro exI [of _ ?e]) (auto simp: rest_view_def input_view_def)
qed

lemma process_packet_plain:
  assumes "link_ok (os src)" and "length p < 254" and "t \<noteq> P_PACKET_ACK"
  shows "\<exists>e src'. process_packet src (t # p) (length p + 1) = Inr src' \<and> payload e = p \<and>
    pl_packet e = p @ drop (length p) (t # p) \<and>
    queue src' = (queue src)(t := queue src t @ [e]) \<and>
    rest_view (src'\<lparr>queue := queue src\<rparr>) = rest_view src \<and> link_ok (os src') \<and> tx (os src') = tx (os src)"
proof -
  let ?e = "\<lparr>pl_packet = p @ drop (length p) (t # p), pl_len = of_nat (length p)\<rparr>"
  have "peek (t # p) 0 = Inr t" by (simp add: peek_def)
  then have "process_packet src (t # p) (length p + 1) =
      Inr (push_protocol_packet src t (pl_packet ?e) (pl_len ?e))"
    using assms(3) by (simp add: process_packet_def memmove_down_def)
  moreover have "payload ?e = p" using assms(2) by (intro payload_moved) simp
  ultimately show ?thesis
    using push_link_ok [OF assms(1), of t "pl_packet ?e" "pl_len ?e"]
    by (intro exI [of _ ?e]) (auto simp: rest_view_def input_view_def)
qed

text \<open>A whole frame, from its opening to its closing flag byte.\<close>

lemma rp_frame:
  assumes "wf_source src" and "all_data src" and "at_boundary src" and "link_ok (os src)"
    and "pending src = SYNC_BYTE # concat (map esc (bs @ [lo, hi])) @ SYNC_BYTE # rest"
    and "2 \<le> length bs" and "length bs + 2 < MTU"
  obtains src2 where "ready src2 []" "pending src2 = rest" "queue src2 = queue src" "seqno src2 = seqno src"
    "non_blocking src2 = non_blocking src" "link_ok (os src2)" "tx (os src2) = tx (os src)"
    "read_and_process src True = (if ucast lo OR push_bit 8 (ucast hi) = crc_run 0 bs
       then bind_ub (process_packet src2 bs (length bs)) (\<lambda>src3. Inr (False, src3))
       else read_and_process (message src2 msg_bad_crc) True)"
proof -
  from rp_sync [OF assms(1,2,5,3)] obtain src1 where
    1: "read_and_process src True = read_and_process src1 True" "ready src1 []"
      "pending src1 = concat (map esc (bs @ [lo, hi])) @ SYNC_BYTE # rest" "carry src1 = carry src" by auto
  from rp_bytes [OF 1(2,3)] assms(7) obtain src2 where
    2: "read_and_process src1 True = read_and_process src2 True" "ready src2 (bs @ [lo, hi])"
      "pending src2 = SYNC_BYTE # rest" "carry src2 = carry src1" by auto
  have "link_ok (os src2)" using assms(4) 1(4) 2(4) by (simp add: link_ok_def carry_def)
  from rp_end [OF 2(2) this assms(6,7) 2(3)] that 1 2 show thesis
    by (auto simp: carry_def)
qed

lemma frame_content:
  "frame bs @ rest = SYNC_BYTE # concat (map esc (bs @ [ucast (crc_run 0 bs AND 0xff), ucast (drop_bit 8 (crc_run 0 bs))]))
     @ SYNC_BYTE # rest"
  by (simp add: frame_def content_def crc_le_def)

definition idle_link :: "serial_source \<Rightarrow> bool" where
  "idle_link src \<longleftrightarrow> wf_source src \<and> all_data src \<and> at_boundary src \<and> link_ok (os src)"

lemma ready_idle:
  "ready src2 [] \<Longrightarrow> rest_view (src'\<lparr>queue := queue src2\<rparr>) = rest_view src2 \<Longrightarrow> link_ok (os src') \<Longrightarrow>
   wf_source src' \<Longrightarrow> idle_link src' \<and> pending src' = pending src2"
  by (auto simp: ready_def idle_link_def rest_view_def input_view_def at_boundary_def all_data_def pending_def)

lemma rp_deliver:
  assumes "idle_link src" and "pending src = frame (P_PACKET_ACK # seq # p) @ rest" and "length p \<le> 251"
  obtains e src' where "read_and_process src True = Inr (False, src')" "payload e = p" "idle_link src'" "pending src' = rest"
    "queue src' = (queue src)(P_PACKET_NO_ACK := queue src P_PACKET_NO_ACK @ [e])"
    "tx (os src') = tx (os src) @ frame [P_ACK, seq]"
proof -
  let ?bs = "P_PACKET_ACK # seq # p"
  have i: "wf_source src" "all_data src" "at_boundary src" "link_ok (os src)"
    using assms(1) by (simp_all add: idle_link_def)
  have len: "2 \<le> length ?bs" "length ?bs + 2 < MTU" using assms(3) by (simp_all add: MTU_def)
  obtain src2 where 2: "ready src2 []" "pending src2 = rest" "queue src2 = queue src"
      "link_ok (os src2)" "tx (os src2) = tx (os src)"
      "read_and_process src True = bind_ub (process_packet src2 ?bs (length ?bs)) (\<lambda>src3. Inr (False, src3))"
    using rp_frame [OF i assms(2) [unfolded frame_content] len] by (auto simp: bytes_of_crc)
  have wf2: "wf_source src2" using 2(1) by (simp add: ready_def)
  from process_packet_ack [OF 2(4), of p seq] assms(3) obtain e src3 where
    3: "process_packet src2 ?bs (length ?bs) = Inr src3" "payload e = p"
      "queue src3 = (queue src2)(P_PACKET_NO_ACK := queue src2 P_PACKET_NO_ACK @ [e])"
      "rest_view (src3\<lparr>queue := queue src2\<rparr>) = rest_view src2" "link_ok (os src3)"
      "tx (os src3) = tx (os src2) @ frame [P_ACK, seq]" by auto
  have "wf_source src3" using process_packet_ok [OF wf2 len(1)] 3(1) by auto
  from ready_idle [OF 2(1) 3(4,5) this] that [of src3 e] 2 3 show thesis by auto
qed

lemma read_serial_packet_deliver:
  assumes "idle_link src" and "queue src P_PACKET_NO_ACK = []"
    and "pending src = frame (P_PACKET_ACK # seq # p) @ rest" and "length p \<le> 251"
  shows "\<exists>e src'. read_serial_packet src = Inr (RPacket e, src') \<and> payload e = p \<and> idle_link src' \<and>
    pending src' = rest \<and> queue src' = queue src \<and> tx (os src') = tx (os src) @ frame [P_ACK, seq]"
proof -
  from rp_deliver [OF assms(1,3,4)] obtain e src1 where
    1: "read_and_process src True = Inr (False, src1)" "payload e = p" "idle_link src1" "pending src1 = rest"
      "queue src1 = (queue src)(P_PACKET_NO_ACK := queue src P_PACKET_NO_ACK @ [e])"
      "tx (os src1) = tx (os src) @ frame [P_ACK, seq]" .
  define src2 where "src2 = src1\<lparr>queue := queue src\<rparr>"
  have "pop_protocol_packet src1 P_PACKET_NO_ACK = (Some e, src2)"
    using 1(5) assms(2) by (simp add: pop_protocol_packet_def src2_def fun_upd_idem)
  then have "read_serial_packet src = Inr (RPacket e, src2)"
    using 1(1) by (simp add: read_serial_packet_def read_serial_packet_loop.simps)
  moreover have "wf_source src2" using wf_pop [OF \<open>pop_protocol_packet src1 _ = _\<close>] 1(3) by (simp add: idle_link_def)
  ultimately show ?thesis
    using 1 by (auto simp: src2_def idle_link_def all_data_def at_boundary_def pending_def)
qed


definition line_of :: "u8 list list \<Rightarrow> os" where
  "line_of chunks = quiet_os\<lparr>rx := map RxBytes chunks\<rparr>"

lemma fresh_idle:
  assumes "[] \<notin> set chunks"
  shows "idle_link (fresh_source (line_of chunks))" and "pending (fresh_source (line_of chunks)) = concat chunks"
    and "queue (fresh_source (line_of chunks)) = (\<lambda>_. [])" and "seqno (fresh_source (line_of chunks)) = 37"
proof -
  define src where "src = fresh_source (line_of chunks)"
  have src: "in_sync src = False" "bufused src = 0" "bufpos src = 0" "os src = line_of chunks" "queue src = (\<lambda>_. [])" "seqno src = 37"
    by (simp_all add: src_def fresh_source_def open_serial_source_def parse_baudrate_def baud_rates_def)
  have "concat (map (rx_data \<circ> RxBytes) chunks) = concat chunks" by (induction chunks) simp_all
  then show "pending (fresh_source (line_of chunks)) = concat chunks"
    unfolding src_def [symmetric] using src by (simp add: pending_def) (simp add: line_of_def)
  have "\<forall>x \<in> set chunks. x \<noteq> []" using assms by auto
  then show "idle_link (fresh_source (line_of chunks))"
    using fresh_source_wf [of "line_of chunks"] unfolding src_def [symmetric]
    using src by (simp add: idle_link_def all_data_def at_boundary_def link_ok_def) (simp add: line_of_def quiet_os_def)
  show "queue (fresh_source (line_of chunks)) = (\<lambda>_. [])" "seqno (fresh_source (line_of chunks)) = 37"
    using src by (simp_all flip: src_def)
qed

lemma fresh_quiet: "os (fresh_source w) = w"
  by (simp add: fresh_source_def open_serial_source_def parse_baudrate_def baud_rates_def)


subsection \<open>Acknowledgements\<close>

lemma rp_ack:
  assumes "idle_link src" and "pending src = frame [P_ACK, seq] @ rest"
  obtains e src' where "read_and_process src True = Inr (False, src')" "peek (pl_packet e) 0 = Inr seq" "idle_link src'"
    "pending src' = rest" "queue src' = (queue src)(P_ACK := queue src P_ACK @ [e])" "seqno src' = seqno src"
    "tx (os src') = tx (os src)"
proof -
  let ?bs = "[P_ACK, seq]"
  have i: "wf_source src" "all_data src" "at_boundary src" "link_ok (os src)"
    using assms(1) by (simp_all add: idle_link_def)
  have len: "2 \<le> length ?bs" "length ?bs + 2 < MTU" by (simp_all add: MTU_def)
  obtain src2 where 2: "ready src2 []" "pending src2 = rest" "queue src2 = queue src" "seqno src2 = seqno src"
      "link_ok (os src2)" "tx (os src2) = tx (os src)"
      "read_and_process src True = bind_ub (process_packet src2 ?bs (length ?bs)) (\<lambda>src3. Inr (False, src3))"
    using rp_frame [OF i assms(2) [unfolded frame_content] len] by (auto simp: bytes_of_crc)
  have wf2: "wf_source src2" using 2(1) by (simp add: ready_def)
  have ne: "P_ACK \<noteq> P_PACKET_ACK" by (simp add: P_ACK_def P_PACKET_ACK_def)
  from process_packet_plain [OF 2(5) _ ne, of "[seq]"] obtain e src3 where
    3: "process_packet src2 ?bs (length ?bs) = Inr src3" "pl_packet e = [seq] @ drop 1 ?bs"
      "queue src3 = (queue src2)(P_ACK := queue src2 P_ACK @ [e])"
      "rest_view (src3\<lparr>queue := queue src2\<rparr>) = rest_view src2" "link_ok (os src3)" "tx (os src3) = tx (os src2)"
    by auto
  have "wf_source src3" using process_packet_ok [OF wf2 len(1)] 3(1) by auto
  from ready_idle [OF 2(1) 3(4,5) this] that [of src3 e] 2 3 show thesis
    by (auto simp: peek_def rest_view_def)
qed



subsection \<open>Damaged frames\<close>

lemma rp_damaged:
  assumes "idle_link src" and "pending src = SYNC_BYTE # concat (map esc (bs @ [lo, hi])) @ SYNC_BYTE # rest"
    and "2 \<le> length bs" and "length bs + 2 < MTU" and "ucast lo OR push_bit 8 (ucast hi) \<noteq> crc_run 0 bs"
  obtains src' where "read_and_process src True = read_and_process src' True" "idle_link src'" "pending src' = rest"
    "queue src' = queue src" "tx (os src') = tx (os src)" "seqno src' = seqno src"
proof -
  have i: "wf_source src" "all_data src" "at_boundary src" "link_ok (os src)"
    using assms(1) by (simp_all add: idle_link_def)
  obtain src2 where 2: "ready src2 []" "pending src2 = rest" "queue src2 = queue src" "seqno src2 = seqno src"
      "link_ok (os src2)" "tx (os src2) = tx (os src)"
      "read_and_process src True = read_and_process (message src2 msg_bad_crc) True"
    using rp_frame [OF i assms(2-4)] assms(5) by (auto split: if_splits)
  show thesis
    by (rule that [OF 2(7)])
      (use 2 in \<open>auto simp: idle_link_def ready_def inv_intros all_data_def at_boundary_def pending_def\<close>)
qed



subsection \<open>The link as a packet channel\<close>

definition serial_codes :: "u8 list \<Rightarrow> u8 list \<Rightarrow> bool" where
  "serial_codes p bs \<longleftrightarrow> length p \<le> 251 \<and> (\<exists>seq. bs = frame (P_PACKET_ACK # seq # p))"

definition serial_recv :: "serial_source \<Rightarrow> (u8 list \<times> serial_source) option" where
  "serial_recv src = (case read_serial_packet src of Inr (RPacket e, src') \<Rightarrow> Some (payload e, src') | _ \<Rightarrow> None)"

interpretation serial: packet_channel
  "\<lambda>src. idle_link src \<and> queue src P_PACKET_NO_ACK = []" pending serial_codes serial_recv
proof
  fix src p bs rest
  assume i: "idle_link src \<and> queue src P_PACKET_NO_ACK = []" and c: "serial_codes p bs" and p: "pending src = bs @ rest"
  from c obtain seq where "bs = frame (P_PACKET_ACK # seq # p)" "length p \<le> 251" by (auto simp: serial_codes_def)
  with p read_serial_packet_deliver [of src seq p rest] i show
    "\<exists>r'. serial_recv src = Some (p, r') \<and> (idle_link r' \<and> queue r' P_PACKET_NO_ACK = []) \<and> pending r' = rest"
    by (auto simp: serial_recv_def)
qed

text \<open>
  A sequence of packets, framed under any sequence numbers and cut into reads in any way, is
  received complete and in order by one call of \<open>read_serial_packet\<close> per packet.
\<close>

theorem serial_sequence:
  assumes "idle_link src" and "queue src P_PACKET_NO_ACK = []"
    and "list_all2 serial_codes ps bss" and "pending src = concat bss @ rest"
  shows "\<exists>src'. serial.recv_many (length ps) src = Some (ps, src') \<and> idle_link src' \<and> pending src' = rest"
  using serial.recv_sequence [of src ps bss rest] assms by blast

theorem serial_sequence_witness:
  "\<exists>src'. serial.recv_many 2 (fresh_source (line_of
      [frame (P_PACKET_ACK # 255 # [1, 2]), frame (P_PACKET_ACK # 0 # [3])])) = Some ([[1, 2], [3]], src')"
proof -
  let ?bss = "[frame (P_PACKET_ACK # 255 # [1, 2]), frame (P_PACKET_ACK # 0 # [3])]"
  have ne: "[] \<notin> set ?bss" by (simp add: frame_def)
  have "list_all2 serial_codes [[1, 2], [3]] ?bss" by (auto simp: serial_codes_def)
  from serial_sequence [OF fresh_idle(1) [OF ne] _ this, of "[]"] fresh_idle [OF ne] show ?thesis
    by (auto simp: numeral_2_eq_2)
qed

end
