(* ===== verification/SfSource.thy ===== *)
theory SfSource
  imports SerialSource Channel "HOL-Library.Sublist"
begin

unbundle bit_operations_syntax

section \<open>The socket protocol of the serial forwarder\<close>

text \<open>
  lib/sf/sfsource.c: blocking reads and writes that survive interrupts and short transfers, the
  version handshake, and packets preceded by a length byte. A connection holds what \<open>read\<close> and
  \<open>write\<close> will answer, call by call, and collects what was written; when the script of \<open>read\<close> is
  used up the peer has closed its end and \<open>read\<close> returns 0.
\<close>

record conn =
  c_rx :: "rx_event list"
  c_wr :: "wr_event list"
  c_tx :: "u8 list"
  c_open :: bool

definition sock_read :: "conn \<Rightarrow> nat \<Rightarrow> (errno + u8 list) \<times> conn" where
  "sock_read c n = (case c_rx c of
       [] \<Rightarrow> (Inr [], c)
     | RxErrno e # es \<Rightarrow> (Inl e, c\<lparr>c_rx := es\<rparr>)
     | RxNothing # es \<Rightarrow> (Inr [], c\<lparr>c_rx := es\<rparr>)
     | RxBytes bs # es \<Rightarrow>
         if length bs \<le> n then (Inr bs, c\<lparr>c_rx := es\<rparr>)
         else (Inr (take n bs), c\<lparr>c_rx := RxBytes (drop n bs) # es\<rparr>))"

definition sock_write :: "conn \<Rightarrow> u8 list \<Rightarrow> (errno + nat) \<times> conn" where
  "sock_write c bs = (case c_wr c of
       [] \<Rightarrow> (Inr (length bs), c\<lparr>c_tx := c_tx c @ bs\<rparr>)
     | Wrote n # es \<Rightarrow> (Inr (min n (length bs)), c\<lparr>c_wr := es, c_tx := c_tx c @ take n bs\<rparr>)
     | WrErrno e # es \<Rightarrow> (Inl e, c\<lparr>c_wr := es\<rparr>))"

text \<open>
  \<open>saferead\<close>: the bytes read so far stand for \<open>buffer\<close> and their number for \<open>actual\<close>; the first
  component is the value returned.
\<close>

function saferead_loop :: "conn \<Rightarrow> nat \<Rightarrow> u8 list \<Rightarrow> int \<times> u8 list \<times> conn" where
  "saferead_loop c n acc =
     (if n = 0 then (int (length acc), acc, c)
      else case sock_read c n of
          (Inl e, c') \<Rightarrow> if e = EINTR then saferead_loop c' n acc else (- 1, acc, c')
        | (Inr bs, c') \<Rightarrow>
            if bs = [] then (int (length acc), acc, c')
            else saferead_loop c' (n - length bs) (acc @ bs))"
  by pat_completeness auto
termination
  by (relation "measure (\<lambda>(c, n, acc). n + length (c_rx c))")
    (auto simp: sock_read_def split: list.splits rx_event.splits if_splits)

declare saferead_loop.simps [simp del]

definition saferead :: "conn \<Rightarrow> nat \<Rightarrow> int \<times> u8 list \<times> conn" where
  "saferead c n = saferead_loop c n []"

function safewrite_loop :: "conn \<Rightarrow> u8 list \<Rightarrow> int \<Rightarrow> int \<times> conn" where
  "safewrite_loop c bs actual =
     (if bs = [] then (actual, c)
      else case sock_write c bs of
          (Inl e, c') \<Rightarrow> if e = EINTR then safewrite_loop c' bs actual else (- 1, c')
        | (Inr n, c') \<Rightarrow> safewrite_loop c' (drop n bs) (actual + int n))"
  by pat_completeness auto
termination
  by (relation "measure (\<lambda>(c, bs, actual). length bs + length (c_wr c))")
    (auto simp: sock_write_def split: list.splits wr_event.splits)

declare safewrite_loop.simps [simp del]

definition safewrite :: "conn \<Rightarrow> u8 list \<Rightarrow> int \<times> conn" where
  "safewrite c bs = safewrite_loop c bs 0"

text \<open>
  The handshake. \<open>char\<close> is signed, so the version comparison is on signed values; the short-circuit
  \<open>||\<close> means that nothing is read when the write fails.
\<close>

definition init_sf_source :: "conn \<Rightarrow> int \<times> conn" where
  "init_sf_source c =
     (let (w, c1) = safewrite c [0x55, 0x20] in
      if w \<noteq> 2 then (- 1, c1)
      else let (r, check, c2) = saferead c1 2 in
        if r \<noteq> 2 \<or> check ! 0 \<noteq> 0x55 then (- 1, c2)
        else let version = sint (check ! 1);
                 version' = (if 0x20 < version then 0x20 else version)
             in if version' = 0x20 then (0, c2) else (- 1, c2))"

text \<open>\<open>mem\<close> says for which sizes \<open>malloc\<close> succeeds.\<close>

definition read_sf_packet :: "(nat \<Rightarrow> bool) \<Rightarrow> conn \<Rightarrow> u8 list option \<times> conn" where
  "read_sf_packet mem c =
     (let (r, l, c1) = saferead c 1 in
      if r \<noteq> 1 then (None, c1)
      else let n = unat (l ! 0) in
        if \<not> mem n then (None, c1)
        else let (r', pkt, c2) = saferead c1 n in
          if r' \<noteq> int n then (None, c2) else (Some pkt, c2))"

text \<open>The length byte is \<open>len\<close> modulo 256, and that many bytes of the packet are written.\<close>

definition write_sf_packet :: "conn \<Rightarrow> u8 list \<Rightarrow> int \<Rightarrow> (int \<times> conn) ub" where
  "write_sf_packet c pkt len =
     (let l = word_of_int len :: u8; (w, c1) = safewrite c [l] in
      if w \<noteq> 1 then Inr (- 1, c1)
      else if length pkt < unat l then Inl OutOfBounds
      else let (w', c2) = safewrite c1 (take (unat l) pkt) in
        Inr (if w' \<noteq> int (unat l) then - 1 else 0, c2))"

text \<open>
  \<open>socket\<close>, \<open>gethostbyname\<close> and \<open>connect\<close> give a descriptor or fail; on every failure after the
  socket exists it is closed.
\<close>

definition close_conn :: "conn \<Rightarrow> conn" where
  "close_conn c = c\<lparr>c_open := False\<rparr>"

definition open_sf_source :: "int \<Rightarrow> bool \<Rightarrow> bool \<Rightarrow> conn \<Rightarrow> int \<times> conn" where
  "open_sf_source fd found connected c =
     (if fd < 0 then (fd, c)
      else if \<not> found then (- 1, close_conn c)
      else if \<not> connected then (- 1, close_conn c)
      else let (r, c1) = init_sf_source c in
        if r < 0 then (- 1, close_conn c1) else (fd, c1))"

subsection \<open>Transfers\<close>

fun rx_bytes :: "rx_event \<Rightarrow> u8 list" where
  "rx_bytes (RxBytes bs) = bs"
| "rx_bytes _ = []"

definition c_data :: "conn \<Rightarrow> u8 list" where
  "c_data c = concat (map rx_bytes (c_rx c))"

text \<open>Reads give data or are interrupted; they neither fail nor end before the data is used up.\<close>

fun flows :: "rx_event \<Rightarrow> bool" where
  "flows (RxBytes bs) \<longleftrightarrow> bs \<noteq> []"
| "flows (RxErrno e) \<longleftrightarrow> e = EINTR"
| "flows RxNothing \<longleftrightarrow> False"

definition flowing :: "conn \<Rightarrow> bool" where
  "flowing c \<longleftrightarrow> list_all flows (c_rx c)"

definition same_out :: "conn \<Rightarrow> conn \<Rightarrow> bool" where
  "same_out c' c \<longleftrightarrow> c_wr c' = c_wr c \<and> c_tx c' = c_tx c \<and> c_open c' = c_open c"

lemma sock_read_flow:
  assumes "flowing c" and "0 < n" and "sock_read c n = (r, c')"
  shows "flowing c' \<and> same_out c' c \<and>
    (case r of Inl e \<Rightarrow> e = EINTR \<and> c_data c' = c_data c
     | Inr bs \<Rightarrow> length bs \<le> n \<and> c_data c = bs @ c_data c' \<and> (bs = [] \<longleftrightarrow> c_data c = []))"
proof (cases "c_rx c")
  case Nil
  with assms show ?thesis by (auto simp: sock_read_def c_data_def flowing_def same_out_def)
next
  case (Cons e es)
  with assms show ?thesis
    by (cases e) (auto simp: sock_read_def c_data_def flowing_def same_out_def split: if_splits)
qed

lemma saferead_flow:
  "flowing c \<Longrightarrow> n \<le> length (c_data c) \<Longrightarrow>
   \<exists>c'. saferead_loop c n acc = (int (length acc + n), acc @ take n (c_data c), c') \<and> flowing c' \<and>
     c_data c' = drop n (c_data c) \<and> same_out c' c"
proof (induction c n acc rule: saferead_loop.induct)
  case (1 c n acc)
  show ?case
  proof (cases "n = 0")
    case True
    with "1.prems" show ?thesis by (auto simp: saferead_loop.simps [of c 0] same_out_def)
  next
    case False
    obtain r c1 where rd: "sock_read c n = (r, c1)" by fastforce
    have pos: "0 < n" using False by simp
    note f = sock_read_flow [OF "1.prems"(1) _ rd]
    show ?thesis
    proof (cases r)
      case (Inl e)
      with f False have e: "e = EINTR" and f1: "flowing c1" "c_data c1 = c_data c" "same_out c1 c" by auto
      from "1.IH"(1) [OF False rd [symmetric] Inl e f1(1)] f1 "1.prems"(2) obtain c2 where
        "saferead_loop c1 n acc = (int (length acc + n), acc @ take n (c_data c), c2)" "flowing c2"
        "c_data c2 = drop n (c_data c)" "same_out c2 c1" by auto
      with False rd Inl e f1 show ?thesis
        by (auto simp: saferead_loop.simps [of c n] same_out_def)
    next
      case (Inr bs)
      then have b: "flowing c1" "same_out c1 c" "length bs \<le> n" "c_data c = bs @ c_data c1"
        and ne_iff: "bs = [] \<longleftrightarrow> c_data c = []"
        using f [OF pos] by (simp_all only: sum.case)
      have "c_data c \<noteq> []" using False "1.prems"(2) by force
      with ne_iff have ne: "bs \<noteq> []" by blast
      have "n - length bs \<le> length (c_data c1)" using b(4) "1.prems"(2) by simp
      from "1.IH"(2) [OF False rd [symmetric] Inr ne b(1) this] obtain c2 where
        2: "saferead_loop c1 (n - length bs) (acc @ bs) =
            (int (length (acc @ bs) + (n - length bs)), (acc @ bs) @ take (n - length bs) (c_data c1), c2)"
          "flowing c2" "c_data c2 = drop (n - length bs) (c_data c1)" "same_out c2 c1" by blast
      with False rd Inr ne b show ?thesis
        by (auto simp: saferead_loop.simps [of c n] same_out_def)
    qed
  qed
qed

lemma safewrite_loop_tx:
  "safewrite_loop c bs a = (r, c') \<Longrightarrow> 0 \<le> a \<Longrightarrow>
   c_rx c' = c_rx c \<and> c_open c' = c_open c \<and>
   (0 \<le> r \<longrightarrow> r = a + int (length bs) \<and> c_tx c' = c_tx c @ bs) \<and>
   (r < 0 \<longrightarrow> r = - 1 \<and> (\<exists>p. prefix p bs \<and> c_tx c' = c_tx c @ p))"
proof (induction c bs a arbitrary: r c' rule: safewrite_loop.induct)
  case (1 c bs a)
  show ?case
  proof (cases "bs = []")
    case True
    with "1.prems" show ?thesis by (auto simp: safewrite_loop.simps [of c "[]"])
  next
    case False
    obtain w c1 where w: "sock_write c bs = (w, c1)" by fastforce
    have keep: "c_rx c1 = c_rx c" "c_open c1 = c_open c"
      using w by (auto simp: sock_write_def split: list.splits wr_event.splits)
    show ?thesis
    proof (cases w)
      case (Inl e)
      then have tx: "c_tx c1 = c_tx c" using w by (auto simp: sock_write_def split: list.splits wr_event.splits)
      show ?thesis
      proof (cases "e = EINTR")
        case True
        with "1.prems"(1) w Inl False have "safewrite_loop c1 bs a = (r, c')" by (simp add: safewrite_loop.simps [of c bs])
        from "1.IH"(1) [OF False w [symmetric] Inl True this "1.prems"(2)] keep tx show ?thesis by simp
      next
        case no: False
        with "1.prems"(1) w Inl False have "r = - 1" "c' = c1" by (auto simp: safewrite_loop.simps [of c bs])
        with keep tx show ?thesis by (auto intro: exI [of _ "[]"])
      qed
    next
      case (Inr n)
      then have n: "n \<le> length bs" "c_tx c1 = c_tx c @ take n bs"
        using w by (auto simp: sock_write_def min_def split: list.splits wr_event.splits)
      from "1.prems"(1) w Inr False have "safewrite_loop c1 (drop n bs) (a + int n) = (r, c')"
        by (simp add: safewrite_loop.simps [of c bs])
      from "1.IH"(2) [OF False w [symmetric] Inr this] "1.prems"(2) keep n show ?thesis
        by (simp add: prefix_def) (metis append_take_drop_id append.assoc)
    qed
  qed
qed

lemma saferead_ok:
  assumes "flowing c" and "n \<le> length (c_data c)"
  obtains c' where "saferead c n = (int n, take n (c_data c), c')" "flowing c'" "c_data c' = drop n (c_data c)" "same_out c' c"
  using saferead_flow [OF assms, of "[]"] by (auto simp: saferead_def)

lemma safewrite_tx:
  assumes "safewrite c bs = (r, c')"
  shows "c_rx c' = c_rx c \<and> c_open c' = c_open c \<and>
   (0 \<le> r \<longrightarrow> r = int (length bs) \<and> c_tx c' = c_tx c @ bs) \<and>
   (r < 0 \<longrightarrow> r = - 1 \<and> (\<exists>p. prefix p bs \<and> c_tx c' = c_tx c @ p))"
  using safewrite_loop_tx [of c bs 0 r c'] assms by (simp add: safewrite_def)

subsection \<open>Packets\<close>

definition sf_code :: "u8 list \<Rightarrow> u8 list" where
  "sf_code p = of_nat (length p) # p"

lemma write_sf_packet_eq:
  assumes "n \<le> length pkt" and "n < 256"
  shows "\<exists>r c'. write_sf_packet c pkt (int n) = Inr (r, c') \<and>
    (r = 0 \<and> c_tx c' = c_tx c @ sf_code (take n pkt) \<or>
     r = - 1 \<and> (\<exists>p. prefix p (sf_code (take n pkt)) \<and> c_tx c' = c_tx c @ p))"
proof -
  let ?l = "of_nat n :: u8"
  have l: "unat ?l = n" using assms(2) by (simp add: unat_of_nat)
  have code: "sf_code (take n pkt) = [?l] @ take n pkt" using assms(1) by (simp add: sf_code_def)
  obtain w c1 where w: "safewrite c [?l] = (w, c1)" by fastforce
  obtain w' c2 where w': "safewrite c1 (take n pkt) = (w', c2)" by fastforce
  note t = safewrite_tx [OF w] and t' = safewrite_tx [OF w']
  show ?thesis
  proof (cases "w < 0")
    case True
    with t obtain p where p: "w = - 1" "prefix p [?l]" "c_tx c1 = c_tx c @ p" by auto
    have "prefix p (sf_code (take n pkt))" using p(2) unfolding code by (rule prefix_prefix)
    with p w show ?thesis by (auto simp: write_sf_packet_def)
  next
    case False
    with t have w1: "w = 1" "c_tx c1 = c_tx c @ [?l]" by auto
    show ?thesis
    proof (cases "w' < 0")
      case True
      with t' obtain p where p: "w' = - 1" "prefix p (take n pkt)" "c_tx c2 = c_tx c1 @ p" by auto
      have "prefix (?l # p) (sf_code (take n pkt))" using p(2) by (simp add: code)
      with p w w' w1 l assms(1) show ?thesis by (auto simp: write_sf_packet_def Let_def)
    next
      case False
      with t' w w' w1 l assms(1) show ?thesis by (auto simp: write_sf_packet_def Let_def code)
    qed
  qed
qed

lemma read_sf_packet_eq:
  assumes "flowing c" and "c_data c = sf_code p @ rest" and "length p < 256" and "mem (length p)"
  shows "\<exists>c'. read_sf_packet mem c = (Some p, c') \<and> flowing c' \<and> c_data c' = rest \<and> same_out c' c"
proof -
  from saferead_ok [OF assms(1), of 1] assms(2) obtain c1 where
    1: "saferead c 1 = (1, [of_nat (length p)], c1)" "flowing c1" "c_data c1 = p @ rest" "same_out c1 c"
    by (auto simp: sf_code_def)
  have l: "unat (of_nat (length p) :: u8) = length p" using assms(3) by (simp add: unat_of_nat)
  from saferead_ok [OF 1(2), of "length p"] 1(3) obtain c2 where
    "saferead c1 (length p) = (int (length p), p, c2)" "flowing c2" "c_data c2 = rest" "same_out c2 c1" by auto
  with 1 l assms(4) show ?thesis by (auto simp: read_sf_packet_def same_out_def)
qed

definition sf_codes :: "u8 list \<Rightarrow> u8 list \<Rightarrow> bool" where
  "sf_codes p bs \<longleftrightarrow> length p < 256 \<and> bs = sf_code p"

definition sf_recv :: "conn \<Rightarrow> (u8 list \<times> conn) option" where
  "sf_recv c = (case read_sf_packet (\<lambda>_. True) c of (Some p, c') \<Rightarrow> Some (p, c') | (None, _) \<Rightarrow> None)"

interpretation sf: packet_channel flowing c_data sf_codes sf_recv
proof
  fix c p bs rest assume "flowing c" "sf_codes p bs" "c_data c = bs @ rest"
  with read_sf_packet_eq [of c p rest "\<lambda>_. True"] show
    "\<exists>c'. sf_recv c = Some (p, c') \<and> flowing c' \<and> c_data c' = rest"
    by (auto simp: sf_codes_def sf_recv_def)
qed


definition conn_with :: "rx_event list \<Rightarrow> conn" where
  "conn_with es = \<lparr>c_rx = es, c_wr = [], c_tx = [], c_open = True\<rparr>"


text \<open>
  Writing a packet of up to 255 bytes puts its length byte and its bytes on the connection and
  returns 0, or fails with \<open>-1\<close> after a prefix of them.
\<close>

theorem write_sf_packet_sends:
  assumes "n \<le> length pkt" and "n < 256"
  shows "\<exists>r c'. write_sf_packet c pkt (int n) = Inr (r, c') \<and>
    (r = 0 \<and> c_tx c' = c_tx c @ sf_code (take n pkt) \<or>
     r = - 1 \<and> (\<exists>p. prefix p (sf_code (take n pkt)) \<and> c_tx c' = c_tx c @ p))"
  by (rule write_sf_packet_eq [OF assms])

theorem write_sf_packet_sends_witness:
  "\<exists>r c'. write_sf_packet (conn_with []) [1, 2, 3] 2 = Inr (r, c') \<and>
    (r = 0 \<and> c_tx c' = [2, 1, 2] \<or> r = - 1 \<and> (\<exists>p. prefix p [2, 1, 2] \<and> c_tx c' = p))"
  using write_sf_packet_sends [of 2 "[1, 2, 3]" "conn_with []"] by (simp add: sf_code_def conn_with_def)

lemma safewrite_ok: "c_wr c = [] \<Longrightarrow> safewrite c bs = (int (length bs), c\<lparr>c_tx := c_tx c @ bs\<rparr>)"
  by (cases bs) (simp_all add: safewrite_def safewrite_loop.simps sock_write_def)

text \<open>
  A packet of 256 bytes or more is cut to its length modulo 256 without an error: on a connection
  without write errors \<open>write_sf_packet\<close> returns 0 after sending only the first \<open>len mod 256\<close> bytes.
\<close>

theorem write_sf_packet_truncates:
  assumes "c_wr c = []" and "n = length pkt"
  shows "write_sf_packet c pkt (int n) = Inr (0, c\<lparr>c_tx := c_tx c @ sf_code (take (n mod 256) pkt)\<rparr>)"
proof -
  have l: "unat (of_nat n :: u8) = n mod 256" by (simp add: unat_of_nat)
  have "(of_nat (n mod 256) :: u8) = of_nat n"
    by (rule word_unat_eq_iff [THEN iffD2]) (simp add: unat_of_nat)
  moreover have "n mod 256 \<le> length pkt" using assms(2) by simp
  moreover from this have "min (length pkt) (n mod 256) = n mod 256" by simp
  moreover have "uint (of_nat n :: u8) = int (n mod 256)" by (simp add: uint_nat l)
  ultimately show ?thesis
    using assms l by (simp add: write_sf_packet_def safewrite_ok sf_code_def Let_def)
qed

theorem write_sf_packet_truncates_witness:
  "write_sf_packet (conn_with []) (replicate 258 7) 258 = Inr (0, (conn_with [])\<lparr>c_tx := [2, 7, 7]\<rparr>)"
  using write_sf_packet_truncates [of "conn_with []" 258 "replicate 258 7"]
  by (simp add: conn_with_def sf_code_def numeral_2_eq_2)

subsection \<open>The handshake\<close>

text \<open>
  The handshake sends the two version bytes and accepts exactly the peers that answer with
  \<open>U\<close> and a version byte that, read as a signed character, is at least the space character.
\<close>

theorem init_sf_source_accepts:
  assumes "flowing c" and "c_wr c = []" and "c_data c = b0 # b1 # rest"
  shows "\<exists>c'. init_sf_source c = (if b0 = 0x55 \<and> 0x20 \<le> sint b1 then 0 else - 1, c') \<and>
    c_tx c' = c_tx c @ [0x55, 0x20] \<and> c_data c' = rest \<and> flowing c'"
proof -
  let ?c = "c\<lparr>c_tx := c_tx c @ [0x55, 0x20]\<rparr>"
  have "flowing ?c" "c_data ?c = b0 # b1 # rest" using assms by (simp_all add: flowing_def c_data_def)
  from saferead_ok [OF this(1), of 2] this(2) obtain c' where
    "saferead ?c 2 = (2, [b0, b1], c')" "flowing c'" "c_data c' = rest" "same_out c' ?c" by auto
  with assms(2) safewrite_ok [OF assms(2), of "[0x55, 0x20]"] show ?thesis
    by (auto simp: init_sf_source_def same_out_def Let_def)
qed

theorem init_sf_source_accepts_witness:
  "\<exists>c'. init_sf_source (conn_with [RxBytes [0x55], RxErrno EINTR, RxBytes [0x21, 1]]) = (0, c') \<and> c_data c' = [1]"
  using init_sf_source_accepts [of "conn_with [RxBytes [0x55], RxErrno EINTR, RxBytes [0x21, 1]]" "0x55" "0x21" "[1]"]
  by (simp add: conn_with_def flowing_def c_data_def) auto

end
