(* ===== verification/SfForwarder.thy ===== *)
theory SfForwarder
  imports SerialLink SfSource
begin

section \<open>The serial forwarder\<close>

text \<open>
  src/sensor/sf.c: the process between the serial line and any number of local clients. Packets from
  the line go to every client (\<open>dispatch_packet\<close>), packets from a client go to the line
  (\<open>forward_packet\<close>); a client whose connection fails is dropped. The state has the serial source, the
  list of clients from \<open>clients\<close> on, the counters, and the state of the connection behind each
  descriptor. A pointer into the chain of links is the number of links before it.
\<close>

subsection \<open>State and single operations\<close>

record forwarder =
  fw_src :: serial_source
  clients :: "int list"
  num_clients :: int
  packets_read :: int
  packets_written :: int
  conns :: "int \<Rightarrow> conn"

text \<open>A call returns, or the process exits, or the call blocks for ever.\<close>

datatype 'a outcome = Returns 'a | Exits int | Hangs

definition bind_out :: "'a outcome ub \<Rightarrow> ('a \<Rightarrow> 'b outcome ub) \<Rightarrow> 'b outcome ub" where
  "bind_out m f = bind_ub m (\<lambda>r. case r of Returns x \<Rightarrow> f x | Exits n \<Rightarrow> Inr (Exits n) | Hangs \<Rightarrow> Inr Hangs)"

text \<open>\<open>FD_SET\<close> on a descriptor outside the set writes outside the set.\<close>

definition FD_SETSIZE :: int where "FD_SETSIZE = 1024"

definition fd_wait :: "int set \<times> int \<Rightarrow> int \<Rightarrow> (int set \<times> int) ub" where
  "fd_wait s fd =
     (if 0 \<le> fd \<and> fd < FD_SETSIZE then Inr (insert fd (fst s), if fd > snd s then fd else snd s) else Inl OutOfBounds)"

definition set_conn :: "forwarder \<Rightarrow> int \<Rightarrow> conn \<Rightarrow> forwarder" where
  "set_conn f fd c = f\<lparr>conns := (conns f)(fd := c)\<rparr>"

definition add_client :: "bool \<Rightarrow> forwarder \<Rightarrow> int \<Rightarrow> forwarder outcome" where
  "add_client mem_ok f fd =
     (if mem_ok then Returns (f\<lparr>clients := fd # clients f, num_clients := num_clients f + 1\<rparr>) else Exits 2)"

definition rem_client :: "forwarder \<Rightarrow> nat \<Rightarrow> forwarder" where
  "rem_client f c =
     (let dead = clients f ! c;
          f1 = f\<lparr>clients := take c (clients f) @ drop (Suc c) (clients f), num_clients := num_clients f - 1\<rparr>
      in set_conn f1 dead (close_conn (conns f dead)))"

definition new_client :: "bool \<Rightarrow> forwarder \<Rightarrow> int \<Rightarrow> forwarder outcome" where
  "new_client mem_ok f fd =
     (let (r, c) = init_sf_source (conns f fd); f1 = set_conn f fd c in
      if r < 0 then Returns (set_conn f1 fd (close_conn c)) else add_client mem_ok f1 fd)"

definition forward_packet :: "forwarder \<Rightarrow> u8 list \<Rightarrow> int \<Rightarrow> forwarder outcome ub" where
  "forward_packet f pkt len =
     bind_ub (write_serial_packet (fw_src f) pkt len) (\<lambda>(ok, src).
       let f1 = f\<lparr>fw_src := src, packets_written := packets_written f + 1\<rparr> in
       Inr (if ok < 0 then Exits 2 else Returns f1))"

lemma forward_packet_clients: "forward_packet f pkt len = Inr (Returns f') \<Longrightarrow> clients f' = clients f"
  by (auto simp: forward_packet_def bind_ub_eq_Inr Let_def split: if_splits)

subsection \<open>The loops over the clients\<close>

primrec wait_loop :: "int list \<Rightarrow> int set \<times> int \<Rightarrow> (int set \<times> int) ub" where
  "wait_loop [] s = Inr s"
| "wait_loop (fd # fds) s = bind_ub (fd_wait s fd) (wait_loop fds)"

definition wait_clients :: "forwarder \<Rightarrow> int set \<times> int \<Rightarrow> (int set \<times> int) ub" where
  "wait_clients f s = wait_loop (clients f) s"

function check_loop :: "(nat \<Rightarrow> bool) \<Rightarrow> (int \<Rightarrow> bool) \<Rightarrow> forwarder \<Rightarrow> nat \<Rightarrow> forwarder outcome ub" where
  "check_loop mem fds f c =
     (if length (clients f) \<le> c then Inr (Returns f)
      else
        let fd = clients f ! c in
        if fds fd then
          (case read_sf_packet mem (conns f fd) of
             (Some pkt, cn) \<Rightarrow>
               bind_ub (forward_packet (set_conn f fd cn) pkt (int (length pkt))) (\<lambda>r.
                 case r of Returns f' \<Rightarrow> check_loop mem fds f' (Suc c) | Exits n \<Rightarrow> Inr (Exits n) | Hangs \<Rightarrow> Inr Hangs)
           | (None, cn) \<Rightarrow> check_loop mem fds (rem_client (set_conn f fd cn) c) c)
        else check_loop mem fds f (Suc c))"
  by pat_completeness auto
termination
  by (relation "measure (\<lambda>(mem, fds, f, c). length (clients f) - c)")
    (auto simp: rem_client_def set_conn_def Let_def dest!: forward_packet_clients)

declare check_loop.simps [simp del]

definition check_clients :: "(nat \<Rightarrow> bool) \<Rightarrow> (int \<Rightarrow> bool) \<Rightarrow> forwarder \<Rightarrow> forwarder outcome ub" where
  "check_clients mem fds f = check_loop mem fds f 0"

function dispatch_loop :: "u8 list \<Rightarrow> int \<Rightarrow> forwarder \<Rightarrow> nat \<Rightarrow> forwarder ub" where
  "dispatch_loop pkt len f c =
     (if length (clients f) \<le> c then Inr f
      else
        let fd = clients f ! c in
        bind_ub (write_sf_packet (conns f fd) pkt len) (\<lambda>(r, cn).
          if r \<ge> 0 then dispatch_loop pkt len (set_conn f fd cn) (Suc c)
          else dispatch_loop pkt len (rem_client (set_conn f fd cn) c) c))"
  by pat_completeness auto
termination
  by (relation "measure (\<lambda>(pkt, len, f, c). length (clients f) - c)")
    (auto simp: rem_client_def set_conn_def Let_def)

declare dispatch_loop.simps [simp del]

definition dispatch_packet :: "forwarder \<Rightarrow> u8 list \<Rightarrow> int \<Rightarrow> forwarder ub" where
  "dispatch_packet f pkt len = dispatch_loop pkt len f 0"

subsection \<open>The main loop\<close>

definition check_serial :: "forwarder \<Rightarrow> forwarder outcome ub" where
  "check_serial f =
     bind_ub (read_serial_packet (fw_src f)) (\<lambda>(r, src).
       let f1 = f\<lparr>fw_src := src\<rparr> in
       case r of
         RPacket e \<Rightarrow> bind_ub (dispatch_packet (f1\<lparr>packets_read := packets_read f1 + 1\<rparr>) (pl_packet e) (int (unat (pl_len e))))
             (\<lambda>f2. Inr (Returns f2))
       | RNull \<Rightarrow> Inr (Returns f1)
       | RBlocked \<Rightarrow> Inr Hangs)"

text \<open>
  What the system answers in one turn of the loop of \<open>do_child\<close>: the result of \<open>select\<close> and the
  descriptors it left in the set, and the result of \<open>accept\<close> with the state of the new connection and
  of the allocation of its list entry.
\<close>

record turn_env =
  sel_ret :: int
  sel_set :: "int \<Rightarrow> bool"
  acc_fd :: int
  acc_conn :: conn
  acc_mem :: bool
  pkt_mem :: "nat \<Rightarrow> bool"

definition check_new_client :: "turn_env \<Rightarrow> forwarder \<Rightarrow> forwarder outcome ub" where
  "check_new_client env f =
     (if acc_fd env \<ge> 0 then Inr (new_client (acc_mem env) (set_conn f (acc_fd env) (acc_conn env)) (acc_fd env))
      else Inr (Returns f))"

definition serve_ready :: "turn_env \<Rightarrow> int \<Rightarrow> int \<Rightarrow> (int \<Rightarrow> bool) \<Rightarrow> forwarder \<Rightarrow> forwarder outcome ub" where
  "serve_ready env serfd server_socket isset f =
     bind_out (if isset serfd then check_serial f else Inr (Returns f)) (\<lambda>f1.
     bind_out (if isset server_socket then check_new_client env f1 else Inr (Returns f1)) (\<lambda>f2.
     check_clients (pkt_mem env) isset f2))"

definition turn :: "turn_env \<Rightarrow> int \<Rightarrow> int \<Rightarrow> forwarder \<Rightarrow> forwarder outcome ub" where
  "turn env serfd server_socket f =
     bind_ub (fd_wait ({}, - 1) serfd) (\<lambda>s1.
     bind_ub (fd_wait s1 server_socket) (\<lambda>s2.
     bind_ub (wait_clients f s2) (\<lambda>s3.
     bind_out (if serial_source_empty (fw_src f) then Inr (Returns f) else check_serial f) (\<lambda>f1.
       if sel_ret env \<ge> 0 then serve_ready env serfd server_socket (\<lambda>fd. fd \<in> fst s3 \<and> sel_set env fd) f1
       else Inr (Returns f1)))))"

subsection \<open>Dispatch to the clients\<close>

text \<open>
  What dispatching a packet means for one client: whether it stays, and its connection afterwards. The
  loop is this step on every client.
\<close>

definition client_step :: "u8 list \<Rightarrow> int \<Rightarrow> conn \<Rightarrow> bool \<times> conn" where
  "client_step pkt len c = (case write_sf_packet c pkt len of
      Inl _ \<Rightarrow> (False, c)
    | Inr (r, c') \<Rightarrow> if r \<ge> 0 then (True, c') else (False, close_conn c'))"

lemma set_conn_simps [simp]:
  "clients (set_conn f fd c) = clients f" "fw_src (set_conn f fd c) = fw_src f" "num_clients (set_conn f fd c) = num_clients f"
  "conns (set_conn f fd c) = (conns f)(fd := c)" "packets_read (set_conn f fd c) = packets_read f"
  "packets_written (set_conn f fd c) = packets_written f"
  by (simp_all add: set_conn_def)

lemma rem_client_simps [simp]:
  "clients (rem_client f c) = take c (clients f) @ drop (Suc c) (clients f)"
  "num_clients (rem_client f c) = num_clients f - 1" "fw_src (rem_client f c) = fw_src f"
  "packets_read (rem_client f c) = packets_read f" "packets_written (rem_client f c) = packets_written f"
  "conns (rem_client f c) = (conns f)(clients f ! c := close_conn (conns f (clients f ! c)))"
  by (simp_all add: rem_client_def Let_def)

definition same_rest :: "forwarder \<Rightarrow> forwarder \<Rightarrow> bool" where
  "same_rest f' f \<longleftrightarrow> fw_src f' = fw_src f \<and> packets_read f' = packets_read f \<and> packets_written f' = packets_written f \<and>
     num_clients f' - int (length (clients f')) = num_clients f - int (length (clients f))"

lemma dispatch_loop_spec:
  assumes "distinct (clients f)" and "n \<le> length pkt" and "n < 256"
  shows "\<exists>f'. dispatch_loop pkt (int n) f c = Inr f' \<and> same_rest f' f \<and>
    clients f' = take c (clients f) @ filter (\<lambda>fd. fst (client_step pkt (int n) (conns f fd))) (drop c (clients f)) \<and>
    (\<forall>fd. conns f' fd = (if fd \<in> set (drop c (clients f)) then snd (client_step pkt (int n) (conns f fd)) else conns f fd))"
  using assms(1)
proof (induction "length (clients f) - c" arbitrary: f c)
  case 0
  then show ?case by (simp add: dispatch_loop.simps [of pkt _ f c] same_rest_def)
next
  case (Suc k)
  then have c: "c < length (clients f)" by simp
  define fd where "fd = clients f ! c"
  have dr: "drop c (clients f) = fd # drop (Suc c) (clients f)" unfolding fd_def using c by (simp add: Cons_nth_drop_Suc)
  have fd: "fd \<notin> set (drop (Suc c) (clients f))"
    using Suc.prems dr distinct_drop [of "clients f" c] by simp
  obtain r cn where w: "write_sf_packet (conns f fd) pkt (int n) = Inr (r, cn)"
    using write_sf_packet_eq [OF assms(2,3)] by blast
  define f1 where "f1 = (if r \<ge> 0 then set_conn f fd cn else rem_client (set_conn f fd cn) c)"
  define c1 where "c1 = (if r \<ge> 0 then Suc c else c)"
  have step: "dispatch_loop pkt (int n) f c = dispatch_loop pkt (int n) f1 c1"
    using c w by (subst dispatch_loop.simps) (simp add: fd_def f1_def c1_def)
  have tk: "take c1 (clients f1) = take c (clients f) @ (if r \<ge> 0 then [fd] else [])"
    and dr1: "drop c1 (clients f1) = drop (Suc c) (clients f)"
    using c by (simp_all add: f1_def c1_def fd_def take_Suc_conv_app_nth)
  have "distinct (take c (clients f) @ drop c (clients f))" using Suc.prems by simp
  then have d1: "distinct (clients f1)" using Suc.prems unfolding dr by (simp add: f1_def)
  have "k = length (clients f1) - c1" using Suc.hyps(2) c by (simp add: f1_def c1_def)
  from Suc.hyps(1) [OF this d1] obtain f' where
    f': "dispatch_loop pkt (int n) f1 c1 = Inr f'" "same_rest f' f1"
      "clients f' = take c1 (clients f1) @ filter (\<lambda>fd. fst (client_step pkt (int n) (conns f1 fd))) (drop c1 (clients f1))"
      "\<And>fd. conns f' fd = (if fd \<in> set (drop c1 (clients f1)) then snd (client_step pkt (int n) (conns f1 fd)) else conns f1 fd)"
    by blast
  have cs: "client_step pkt (int n) (conns f fd) = (r \<ge> 0, conns f1 fd)"
    using w by (simp add: client_step_def f1_def fd_def)
  have other: "conns f1 x = conns f x" if "x \<noteq> fd" for x using that by (simp add: f1_def fd_def)
  have "filter (\<lambda>fd. fst (client_step pkt (int n) (conns f1 fd))) (drop (Suc c) (clients f)) =
      filter (\<lambda>fd. fst (client_step pkt (int n) (conns f fd))) (drop (Suc c) (clients f))"
    using fd by (intro filter_cong refl) (metis other)
  then have "clients f' = take c (clients f) @ filter (\<lambda>fd. fst (client_step pkt (int n) (conns f fd))) (drop c (clients f))"
    using f'(3) tk dr1 dr cs by simp
  moreover have "conns f' x = (if x \<in> set (drop c (clients f)) then snd (client_step pkt (int n) (conns f x)) else conns f x)" for x
    using f'(4) [of x] dr1 dr cs other [of x] fd by (cases "x = fd") auto
  moreover have "same_rest f' f" using f'(2) c by (simp add: same_rest_def f1_def)
  ultimately show ?case using step f'(1) by auto
qed

text \<open>
  \<open>dispatch_packet\<close> does to every client exactly what writing the packet to it does: a client stays,
  in its place in the list, if the whole packet went out, and is removed and closed otherwise. Nothing
  else changes, and the count follows the list.
\<close>

theorem dispatch_packet_delivers:
  assumes "distinct (clients f)" and "n \<le> length pkt" and "n < 256"
  shows "\<exists>f'. dispatch_packet f pkt (int n) = Inr f' \<and> same_rest f' f \<and>
    clients f' = filter (\<lambda>fd. fst (client_step pkt (int n) (conns f fd))) (clients f) \<and>
    (\<forall>fd. conns f' fd = (if fd \<in> set (clients f) then snd (client_step pkt (int n) (conns f fd)) else conns f fd))"
  using dispatch_loop_spec [OF assms, of 0] by (simp add: dispatch_packet_def)

subsection \<open>The invariant of the forwarder\<close>

lemma saferead_loop_open:
  "saferead_loop c n acc = (r, bs, c') \<Longrightarrow> c_open c' = c_open c \<and> c_tx c' = c_tx c \<and> c_wr c' = c_wr c"
proof (induction c n acc arbitrary: r bs c' rule: saferead_loop.induct)
  case (1 c n acc)
  note unfold = saferead_loop.simps [of c n acc]
  show ?case
  proof (cases "n = 0")
    case False
    obtain q c1 where rd: "sock_read c n = (q, c1)" by fastforce
    have k: "c_open c1 = c_open c \<and> c_tx c1 = c_tx c \<and> c_wr c1 = c_wr c"
      using rd by (auto simp: sock_read_def split: list.splits rx_event.splits if_splits)
    show ?thesis
    proof (cases q)
      case (Inl e)
      show ?thesis
      proof (cases "e = EINTR")
        case True
        with "1.prems" False rd Inl have "saferead_loop c1 n acc = (r, bs, c')" by (simp add: unfold)
        from "1.IH"(1) [OF False rd [symmetric] Inl True this] k show ?thesis by simp
      qed (use "1.prems" False rd Inl k in \<open>auto simp: unfold\<close>)
    next
      case (Inr b)
      show ?thesis
      proof (cases "b = []")
        case ne: False
        with "1.prems" False rd Inr have "saferead_loop c1 (n - length b) (acc @ b) = (r, bs, c')" by (simp add: unfold)
        from "1.IH"(2) [OF False rd [symmetric] Inr ne this] k show ?thesis by simp
      qed (use "1.prems" False rd Inr k in \<open>auto simp: unfold\<close>)
    qed
  qed (use "1.prems" in \<open>auto simp: saferead_loop.simps [of c 0]\<close>)
qed

lemma saferead_open: "saferead c n = (r, bs, c') \<Longrightarrow> c_open c' = c_open c"
  by (auto simp: saferead_def dest: saferead_loop_open)

lemma safewrite_open: "safewrite c bs = (r, c') \<Longrightarrow> c_open c' = c_open c"
  using safewrite_tx by blast

lemma read_sf_packet_open: "read_sf_packet mem c = (p, c') \<Longrightarrow> c_open c' = c_open c"
  by (auto simp: read_sf_packet_def Let_def split: prod.splits if_splits dest!: saferead_open)

lemma write_sf_packet_open: "write_sf_packet c pkt len = Inr (r, c') \<Longrightarrow> c_open c' = c_open c"
  by (auto simp: write_sf_packet_def Let_def split: prod.splits if_splits dest!: safewrite_open)

lemma init_sf_source_open: "init_sf_source c = (r, c') \<Longrightarrow> c_open c' = c_open c"
  by (auto simp: init_sf_source_def Let_def split: prod.splits if_splits dest!: safewrite_open saferead_open)

definition wf_fwd :: "forwarder \<Rightarrow> bool" where
  "wf_fwd f \<longleftrightarrow> wf_source (fw_src f) \<and> non_blocking (fw_src f) \<and> distinct (clients f) \<and>
     num_clients f = int (length (clients f)) \<and>
     (\<forall>fd \<in> set (clients f). 0 \<le> fd \<and> fd < FD_SETSIZE \<and> c_open (conns f fd))"

text \<open>What a call may do: return with the invariant, or end the process with status 2.\<close>

definition good :: "(forwarder \<Rightarrow> bool) \<Rightarrow> forwarder outcome ub \<Rightarrow> bool" where
  "good Q m \<longleftrightarrow> (case m of Inl _ \<Rightarrow> False | Inr (Returns f) \<Rightarrow> Q f | Inr (Exits n) \<Rightarrow> n = 2 | Inr Hangs \<Rightarrow> False)"

lemma good_simps [simp]:
  "good Q (Inr (Returns f)) = Q f" "good Q (Inr (Exits n)) \<longleftrightarrow> n = 2" "\<not> good Q (Inr Hangs)" "\<not> good Q (Inl e)"
  by (simp_all add: good_def)

lemma good_cases:
  assumes "good Q m"
  obtains f where "m = Inr (Returns f)" "Q f" | "m = Inr (Exits 2)"
  using assms by (auto simp: good_def split: sum.splits outcome.splits)

lemma good_bind: "good Q m \<Longrightarrow> (\<And>f. Q f \<Longrightarrow> good R (k f)) \<Longrightarrow> good R (bind_out m k)"
  by (elim good_cases) (simp_all add: bind_out_def)

lemma rem_client_wf:
  assumes "wf_fwd f" and "c < length (clients f)"
  shows "wf_fwd (rem_client f c)"
proof -
  have split: "clients f = take c (clients f) @ clients f ! c # drop (Suc c) (clients f)"
    using assms(2) by (rule id_take_nth_drop)
  have "distinct (take c (clients f) @ clients f ! c # drop (Suc c) (clients f))"
    using assms(1) unfolding split [symmetric] by (simp add: wf_fwd_def)
  moreover have "set (take c (clients f)) \<subseteq> set (clients f)" "set (drop (Suc c) (clients f)) \<subseteq> set (clients f)"
    by (rule set_take_subset, rule set_drop_subset)
  ultimately show ?thesis using assms unfolding wf_fwd_def by auto
qed

lemma set_conn_wf: "wf_fwd f \<Longrightarrow> (fd \<in> set (clients f) \<Longrightarrow> c_open c) \<Longrightarrow> wf_fwd (set_conn f fd c)"
  by (auto simp: wf_fwd_def)

lemma forward_packet_good:
  assumes "wf_fwd f"
  shows "good wf_fwd (forward_packet f pkt (int (length pkt)))"
proof -
  obtain r src where w: "write_serial_packet (fw_src f) pkt (int (length pkt)) = Inr (r, src)" "wf_source src"
    using write_serial_packet_ok [of "fw_src f" "length pkt" pkt] assms by (auto simp: wf_fwd_def)
  with write_serial_packet_non_blocking [OF w(1)] assms show ?thesis
    by (simp add: forward_packet_def wf_fwd_def Let_def)
qed

lemma check_loop_good: "wf_fwd f \<Longrightarrow> good wf_fwd (check_loop mem fds f c)"
proof (induction "length (clients f) - c" arbitrary: f c rule: less_induct)
  case less
  note unfold = check_loop.simps [of mem fds f c]
  show ?case
  proof (cases "length (clients f) \<le> c \<or> \<not> fds (clients f ! c)")
    case True
    with less show ?thesis by (cases "length (clients f) \<le> c") (auto simp: unfold)
  next
    case False
    define fd where "fd = clients f ! c"
    obtain p cn where p: "read_sf_packet mem (conns f fd) = (p, cn)" by fastforce
    have op: "c_open cn" using read_sf_packet_open [OF p] less.prems False by (auto simp: wf_fwd_def fd_def)
    have wf: "wf_fwd (set_conn f fd cn)" using less.prems op by (intro set_conn_wf)
    show ?thesis
    proof (cases p)
      case None
      have "good wf_fwd (check_loop mem fds (rem_client (set_conn f fd cn) c) c)"
        using False by (intro less.hyps rem_client_wf wf) auto
      with False p None show ?thesis by (auto simp: unfold fd_def)
    next
      case (Some pkt)
      from forward_packet_good [OF wf, of pkt] show ?thesis
      proof (cases rule: good_cases)
        case (1 f')
        then have "clients f' = clients f" using forward_packet_clients by fastforce
        then have "good wf_fwd (check_loop mem fds f' (Suc c))" using 1 False by (intro less.hyps) auto
        with False p Some 1 show ?thesis by (auto simp: unfold fd_def)
      next
        case 2
        with False p Some show ?thesis by (auto simp: unfold fd_def)
      qed
    qed
  qed
qed

lemma client_step_open: "fst (client_step pkt n c) \<Longrightarrow> c_open (snd (client_step pkt n c)) = c_open c"
  by (auto simp: client_step_def split: sum.splits if_splits dest!: write_sf_packet_open)

lemma client_step_ok:
  assumes "n \<le> length pkt" and "n < 256" and "c_wr c = []"
  shows "client_step pkt (int n) c = (True, c\<lparr>c_tx := c_tx c @ sf_code (take n pkt)\<rparr>)"
proof -
  have "unat (of_nat n :: u8) = n" using assms(2) by (simp add: unat_of_nat)
  with assms show ?thesis
    by (simp add: client_step_def write_sf_packet_def safewrite_ok sf_code_def Let_def)
qed

lemma dispatch_packet_wf:
  assumes "wf_fwd f" and "n \<le> length pkt" and "n < 256"
  shows "\<exists>f'. dispatch_packet f pkt (int n) = Inr f' \<and> wf_fwd f'"
proof -
  have "distinct (clients f)" using assms(1) by (simp add: wf_fwd_def)
  from dispatch_loop_spec [OF this assms(2,3), of 0] obtain f' where
    f': "dispatch_packet f pkt (int n) = Inr f'" "same_rest f' f"
      "clients f' = filter (\<lambda>fd. fst (client_step pkt (int n) (conns f fd))) (clients f)"
      "\<And>fd. conns f' fd = (if fd \<in> set (clients f) then snd (client_step pkt (int n) (conns f fd)) else conns f fd)"
    by (auto simp: dispatch_packet_def)
  then have "wf_fwd f'" using assms(1) client_step_open [of pkt "int n"] by (auto simp: wf_fwd_def same_rest_def)
  with f'(1) show ?thesis by blast
qed

lemma check_serial_good:
  assumes "wf_fwd f"
  shows "good wf_fwd (check_serial f)"
proof -
  obtain r src where r: "read_serial_packet (fw_src f) = Inr (r, src)" "wf_source src"
      "\<forall>e. r = RPacket e \<longrightarrow> unat (pl_len e) < length (pl_packet e)"
    using read_serial_packet_ok [of "fw_src f"] assms by (auto simp: wf_fwd_def)
  then have nb: "r \<noteq> RBlocked" "non_blocking src" using read_serial_packet_returns [OF r(1)] assms by (auto simp: wf_fwd_def)
  let ?f = "f\<lparr>fw_src := src\<rparr>"
  have wf: "wf_fwd ?f" "wf_fwd (?f\<lparr>packets_read := k\<rparr>)" for k using assms r(2) nb(2) by (auto simp: wf_fwd_def)
  show ?thesis
  proof (cases r)
    case (RPacket e)
    have "unat (pl_len e) \<le> length (pl_packet e)" "unat (pl_len e) < 256"
      using r(3) RPacket unsigned_less [of "pl_len e"] by auto
    from dispatch_packet_wf [OF wf(2) this, of "packets_read f + 1"] r(1) RPacket show ?thesis
      by (auto simp: check_serial_def)
  qed (use r(1) nb wf in \<open>simp_all add: check_serial_def\<close>)
qed

lemma new_client_good:
  assumes "wf_fwd f" and "0 \<le> fd" and "fd < FD_SETSIZE" and "fd \<notin> set (clients f)" and "c_open (conns f fd)"
  shows "good wf_fwd (Inr (new_client ok f fd))"
proof -
  obtain r c where i: "init_sf_source (conns f fd) = (r, c)" by fastforce
  note op = init_sf_source_open [OF i]
  have "wf_fwd (set_conn f fd x)" "wf_fwd (set_conn (set_conn f fd x) fd y)" for x y
    using assms by (intro set_conn_wf; simp)+
  with i op assms show ?thesis by (auto simp: new_client_def add_client_def wf_fwd_def Let_def)
qed

lemma wait_loop_ok: "\<forall>fd \<in> set fds. 0 \<le> fd \<and> fd < FD_SETSIZE \<Longrightarrow>
  \<exists>s'. wait_loop fds s = Inr s' \<and> fst s' = fst s \<union> set fds \<and> (\<forall>fd \<in> set fds. fd \<le> snd s') \<and> snd s \<le> snd s'"
proof (induction fds arbitrary: s)
  case (Cons fd fds)
  then obtain s1 where s1: "fd_wait s fd = Inr s1" "fst s1 = insert fd (fst s)" "fd \<le> snd s1" "snd s \<le> snd s1"
    by (auto simp: fd_wait_def)
  have "\<forall>fd \<in> set fds. 0 \<le> fd \<and> fd < FD_SETSIZE" using Cons.prems by simp
  from Cons.IH [OF this, of s1] obtain s2 where
    "wait_loop fds s1 = Inr s2" "fst s2 = fst s1 \<union> set fds" "\<forall>fd \<in> set fds. fd \<le> snd s2" "snd s1 \<le> snd s2" by blast
  with s1 show ?case by (intro exI [of _ s2]) auto
qed simp

text \<open>
  What the kernel promises about a turn: an accepted descriptor is not one that is in use, is open, and
  is below the limit that \<open>RLIMIT_NOFILE\<close> has by default.
\<close>

definition env_ok :: "turn_env \<Rightarrow> forwarder \<Rightarrow> bool" where
  "env_ok env f \<longleftrightarrow> acc_fd env < FD_SETSIZE \<and> acc_fd env \<notin> set (clients f) \<and> c_open (acc_conn env)"

lemma dispatch_packet_subset:
  assumes "dispatch_packet f pkt (int n) = Inr f'" and "wf_fwd f" and "n \<le> length pkt" and "n < 256"
  shows "set (clients f') \<subseteq> set (clients f)"
  using dispatch_loop_spec [of f n pkt 0] assms by (auto simp: dispatch_packet_def wf_fwd_def)

lemma check_serial_subset:
  assumes "wf_fwd f" and "check_serial f = Inr (Returns f')"
  shows "set (clients f') \<subseteq> set (clients f)"
proof -
  obtain r src where r: "read_serial_packet (fw_src f) = Inr (r, src)" "wf_source src"
      "\<forall>e. r = RPacket e \<longrightarrow> unat (pl_len e) < length (pl_packet e)"
    using read_serial_packet_ok [of "fw_src f"] assms by (auto simp: wf_fwd_def)
  have nb: "non_blocking src" using read_serial_packet_returns [OF r(1)] assms by (auto simp: wf_fwd_def)
  show ?thesis
  proof (cases r)
    case (RPacket e)
    let ?f = "f\<lparr>fw_src := src, packets_read := packets_read f + 1\<rparr>"
    have l: "unat (pl_len e) \<le> length (pl_packet e)" "unat (pl_len e) < 256"
      using r(3) RPacket unsigned_less [of "pl_len e"] by auto
    have wf: "wf_fwd ?f" using assms(1) r(2) nb by (auto simp: wf_fwd_def)
    from assms(2) r(1) RPacket have "dispatch_packet ?f (pl_packet e) (int (unat (pl_len e))) = Inr f'"
      by (auto simp: check_serial_def bind_ub_eq_Inr)
    from dispatch_packet_subset [OF this wf l] show ?thesis by simp
  qed (use assms(2) r(1) in \<open>auto simp: check_serial_def\<close>)
qed

lemma check_serial_env: "wf_fwd f \<Longrightarrow> env_ok env f \<Longrightarrow> good (\<lambda>f. wf_fwd f \<and> env_ok env f) (check_serial f)"
  using check_serial_good [of f] check_serial_subset [of f] by (auto simp: env_ok_def elim!: good_cases)

lemma check_new_client_good:
  assumes "wf_fwd f" and "env_ok env f"
  shows "good wf_fwd (check_new_client env f)"
proof (cases "acc_fd env \<ge> 0")
  case True
  with assms have "good wf_fwd (Inr (new_client (acc_mem env) (set_conn f (acc_fd env) (acc_conn env)) (acc_fd env)))"
    by (intro new_client_good set_conn_wf) (auto simp: env_ok_def)
  with True show ?thesis by (simp add: check_new_client_def)
qed (use assms in \<open>simp add: check_new_client_def\<close>)

lemma serve_ready_good:
  assumes "wf_fwd f" and "env_ok env f"
  shows "good wf_fwd (serve_ready env serfd sock isset f)"
  unfolding serve_ready_def
proof (rule good_bind)
  show "good (\<lambda>f. wf_fwd f \<and> env_ok env f) (if isset serfd then check_serial f else Inr (Returns f))"
    using check_serial_env [OF assms] assms by simp
next
  fix g assume g: "wf_fwd g \<and> env_ok env g"
  show "good wf_fwd (bind_out (if isset sock then check_new_client env g else Inr (Returns g)) (check_clients (pkt_mem env) isset))"
    using check_new_client_good [of g env] g by (intro good_bind [of wf_fwd]) (auto simp: check_clients_def check_loop_good)
qed

lemma turn_good:
  assumes "wf_fwd f" and "env_ok env f" and "0 \<le> serfd" and "serfd < FD_SETSIZE" and "0 \<le> sock" and "sock < FD_SETSIZE"
  shows "good wf_fwd (turn env serfd sock f)"
proof -
  obtain s1 s2 where s12: "fd_wait ({}, - 1) serfd = Inr s1" "fd_wait s1 sock = Inr s2"
    using assms by (simp add: fd_wait_def)
  have "\<forall>fd \<in> set (clients f). 0 \<le> fd \<and> fd < FD_SETSIZE" using assms(1) by (auto simp: wf_fwd_def)
  from wait_loop_ok [OF this, of s2] obtain s3 where s3: "wait_clients f s2 = Inr s3" by (auto simp: wait_clients_def)
  have "good (\<lambda>f. wf_fwd f \<and> env_ok env f) (if serial_source_empty (fw_src f) then Inr (Returns f) else check_serial f)"
    using check_serial_env [OF assms(1,2)] assms by simp
  then show ?thesis
    unfolding turn_def s12 s3 bind_ub_simps by (rule good_bind) (simp add: serve_ready_good)
qed

text \<open>
  A turn of the forwarder's loop, whatever the serial line, the clients and \<open>select\<close> do, never leaves
  a buffer or a descriptor set and never hangs on the line: it returns, or exits with status 2 when the
  line can no longer be written or memory is used up. Afterwards the clients are distinct, their
  number is \<open>num_clients\<close>, and the connection of each is open.
\<close>

theorem forwarder_turn_safe:
  assumes "wf_fwd f" and "env_ok env f" and "0 \<le> serfd" and "serfd < FD_SETSIZE" and "0 \<le> sock" and "sock < FD_SETSIZE"
  shows "(\<exists>f'. turn env serfd sock f = Inr (Returns f') \<and> wf_fwd f') \<or> turn env serfd sock f = Inr (Exits 2)"
  using turn_good [OF assms] by (auto elim: good_cases)

definition fwd_of :: "serial_source \<Rightarrow> int list \<Rightarrow> (int \<Rightarrow> conn) \<Rightarrow> forwarder" where
  "fwd_of src cl cs = \<lparr>fw_src = src, clients = cl, num_clients = int (length cl), packets_read = 0, packets_written = 0, conns = cs\<rparr>"

definition open_conn :: "rx_event list \<Rightarrow> conn" where
  "open_conn evs = \<lparr>c_rx = evs, c_wr = [], c_tx = [], c_open = True\<rparr>"

lemma fresh_non_blocking: "non_blocking (fresh_source w)"
  by (simp add: fresh_source_def open_serial_source_def parse_baudrate_def baud_rates_def)

lemma fwd_of_wf:
  "distinct cl \<Longrightarrow> \<forall>fd \<in> set cl. 0 \<le> fd \<and> fd < FD_SETSIZE \<Longrightarrow> wf_fwd (fwd_of (fresh_source w) cl (\<lambda>_. open_conn evs))"
  using fresh_source_wf [of w] fresh_non_blocking [of w] by (simp add: wf_fwd_def fwd_of_def open_conn_def)

theorem dispatch_packet_delivers_witness:
  "\<exists>f'. dispatch_packet (fwd_of (fresh_source quiet_os) [5, 7] ((\<lambda>_. open_conn [])(7 := (open_conn [])\<lparr>c_wr := [WrErrno EOTHER]\<rparr>))) [1, 2, 3] 3 = Inr f' \<and>
     clients f' = [5] \<and> c_tx (conns f' 5) = [3, 1, 2, 3] \<and> \<not> c_open (conns f' 7)"
proof -
  let ?f = "fwd_of (fresh_source quiet_os) [5, 7] ((\<lambda>_. open_conn [])(7 := (open_conn [])\<lparr>c_wr := [WrErrno EOTHER]\<rparr>))"
  have 5: "client_step [1, 2, 3] 3 (open_conn []) = (True, (open_conn [])\<lparr>c_tx := [3, 1, 2, 3]\<rparr>)"
    by (simp add: client_step_def write_sf_packet_def safewrite_ok open_conn_def)
  have 7: "client_step [1, 2, 3] 3 ((open_conn [])\<lparr>c_wr := [WrErrno EOTHER]\<rparr>) = (False, (open_conn [])\<lparr>c_open := False\<rparr>)"
    by (simp add: client_step_def write_sf_packet_def safewrite_def safewrite_loop.simps sock_write_def open_conn_def close_conn_def)
  from dispatch_packet_delivers [of ?f 3 "[1, 2, 3]"] obtain f' where "dispatch_packet ?f [1, 2, 3] 3 = Inr f'"
      "clients f' = filter (\<lambda>fd. fst (client_step [1, 2, 3] 3 (conns ?f fd))) (clients ?f)"
      "\<forall>fd. conns f' fd = (if fd \<in> set (clients ?f) then snd (client_step [1, 2, 3] 3 (conns ?f fd)) else conns ?f fd)"
    by (auto simp: fwd_of_def)
  with 5 7 show ?thesis by (simp add: fwd_of_def)
qed

theorem forwarder_turn_safe_witness:
  "(\<exists>f'. turn \<lparr>sel_ret = 1, sel_set = (\<lambda>_. True), acc_fd = 9, acc_conn = open_conn [], acc_mem = True, pkt_mem = (\<lambda>_. True)\<rparr> 3 4
       (fwd_of (fresh_source quiet_os) [5, 7] (\<lambda>_. open_conn [])) = Inr (Returns f') \<and> wf_fwd f') \<or>
   turn \<lparr>sel_ret = 1, sel_set = (\<lambda>_. True), acc_fd = 9, acc_conn = open_conn [], acc_mem = True, pkt_mem = (\<lambda>_. True)\<rparr> 3 4
       (fwd_of (fresh_source quiet_os) [5, 7] (\<lambda>_. open_conn [])) = Inr (Exits 2)"
  by (rule forwarder_turn_safe [OF fwd_of_wf]) (simp_all add: FD_SETSIZE_def env_ok_def fwd_of_def open_conn_def)

subsection \<open>From the line to the clients\<close>

text \<open>
  C13: The forwarder as a whole: a frame that arrives on the serial line with a packet of up to 251 bytes
  reaches every client as one packet of the local protocol, the sender gets its acknowledgement, and
  the line is ready for the bytes that follow.
\<close>

theorem serial_packet_reaches_clients:
  assumes "wf_fwd f" and "idle_link (fw_src f)" and "queue (fw_src f) P_PACKET_NO_ACK = []"
    and "pending (fw_src f) = frame (P_PACKET_ACK # seq # pkt) @ rest" and "length pkt \<le> 251"
    and "\<forall>fd \<in> set (clients f). c_wr (conns f fd) = []"
  shows "\<exists>f'. check_serial f = Inr (Returns f') \<and> clients f' = clients f \<and> packets_read f' = packets_read f + 1 \<and>
    (\<forall>fd \<in> set (clients f). c_tx (conns f' fd) = c_tx (conns f fd) @ sf_code pkt) \<and>
    idle_link (fw_src f') \<and> pending (fw_src f') = rest \<and> tx (os (fw_src f')) = tx (os (fw_src f)) @ frame [P_ACK, seq]"
proof -
  obtain e src where r: "read_serial_packet (fw_src f) = Inr (RPacket e, src)" "payload e = pkt" "idle_link src" "pending src = rest"
      "tx (os src) = tx (os (fw_src f)) @ frame [P_ACK, seq]"
    using read_serial_packet_deliver [OF assms(2-5)] by blast
  let ?n = "unat (pl_len e)" and ?f = "f\<lparr>fw_src := src, packets_read := packets_read f + 1\<rparr>"
  have n: "?n \<le> length (pl_packet e)" "?n < 256"
    using read_serial_packet_ok [of "fw_src f"] r(1) assms(1) unsigned_less [of "pl_len e"] by (auto simp: wf_fwd_def)
  have step: "client_step (pl_packet e) (int ?n) (conns f fd) = (True, (conns f fd)\<lparr>c_tx := c_tx (conns f fd) @ sf_code pkt\<rparr>)"
    if "fd \<in> set (clients f)" for fd
    using client_step_ok [OF n] assms(6) that r(2) by (simp add: payload_def)
  have "distinct (clients ?f)" using assms(1) by (simp add: wf_fwd_def)
  from dispatch_loop_spec [OF this n, of 0] obtain f' where
    f': "dispatch_packet ?f (pl_packet e) (int ?n) = Inr f'" "same_rest f' ?f"
      "clients f' = filter (\<lambda>fd. fst (client_step (pl_packet e) (int ?n) (conns f fd))) (clients f)"
      "\<And>fd. conns f' fd = (if fd \<in> set (clients f) then snd (client_step (pl_packet e) (int ?n) (conns f fd)) else conns f fd)"
    by (auto simp: dispatch_packet_def)
  have "clients f' = clients f" using f'(3) step by (simp add: filter_id_conv)
  moreover have "check_serial f = Inr (Returns f')" using r(1) f'(1) by (simp add: check_serial_def)
  ultimately show ?thesis using f'(2,4) step r by (auto simp: same_rest_def)
qed

theorem serial_packet_reaches_clients_witness:
  "\<exists>f'. check_serial (fwd_of (fresh_source (line_of [frame [P_PACKET_ACK, 1, 9, 8]])) [5, 7] (\<lambda>_. open_conn [])) = Inr (Returns f') \<and>
     c_tx (conns f' 5) = [2, 9, 8] \<and> c_tx (conns f' 7) = [2, 9, 8] \<and> pending (fw_src f') = []"
proof -
  let ?src = "fresh_source (line_of [frame [P_PACKET_ACK, 1, 9, 8]])"
  let ?f = "fwd_of ?src [5, 7] (\<lambda>_. open_conn [])"
  have "[] \<notin> set [frame [P_PACKET_ACK, 1, 9, 8]]" by (simp add: frame_def)
  note i = fresh_idle [OF this]
  have "wf_fwd ?f" by (rule fwd_of_wf) (simp_all add: FD_SETSIZE_def)
  from serial_packet_reaches_clients [OF this, of 1 "[9, 8]" "[]"] i show ?thesis
    by (auto simp: fwd_of_def sf_code_def open_conn_def)
qed

end
