(* ===== verification/OpenFiles.thy ===== *)
theory OpenFiles
  imports Prelude
begin

section \<open>The open files of a process\<close>

text \<open>
  A process is its table of open files, with the flags the sources set; and the signals the sources name. The system gives out the lowest
  free number, as POSIX requires. The web server, the serial forwarder, the sensor client and the
  sensor server open their files and sockets through it.
\<close>

datatype open_file = Terminal | Lock_file string | Config_file string | Listening u16 | Unbound | Log_file string | Datagram u16 | Peer string u16 | Device string

record proc =
  fds :: "nat \<Rightarrow> open_file option"
  fd_limit :: nat
  nonblocking :: "nat \<Rightarrow> bool"
  lock_text :: string

definition sys_open :: "open_file \<Rightarrow> proc \<Rightarrow> int \<times> proc" where
  "sys_open f p = (case find (\<lambda>i. fds p i = None) [0..<fd_limit p] of
      None \<Rightarrow> (- 1, p)
    | Some i \<Rightarrow> (int i, p\<lparr>fds := (fds p)(i \<mapsto> f), nonblocking := (nonblocking p)(i := False)\<rparr>))"

definition sys_close :: "int \<Rightarrow> proc \<Rightarrow> proc" where
  "sys_close fd p = (if fd < 0 then p else p\<lparr>fds := (fds p)(nat fd := None)\<rparr>)"

text \<open>\<open>dup2\<close> onto an open or closed number.\<close>

definition sys_dup2 :: "int \<Rightarrow> nat \<Rightarrow> proc \<Rightarrow> proc" where
  "sys_dup2 old new p = (if old < 0 \<or> fds p (nat old) = None then p else p\<lparr>fds := (fds p)(new := fds p (nat old))\<rparr>)"

text \<open>Whether a process goes on after a call or has ended with a status.\<close>

datatype 'a after = Ends int | Goes_on 'a

text \<open>Signals.\<close>

datatype signo = SIGINT | SIGPIPE | SIGHUP | SIGTERM | SIGALRM | SIGCHLD | SIGUSR1

subsection \<open>Which number a new file gets\<close>

lemma sys_open_lowest:
  assumes "fds p i = None" "\<forall>j < i. fds p j \<noteq> None" "i < fd_limit p"
  shows "sys_open f p = (int i, p\<lparr>fds := (fds p)(i \<mapsto> f), nonblocking := (nonblocking p)(i := False)\<rparr>)"
proof -
  have "[0..<fd_limit p] = [0..<i] @ i # [Suc i..<fd_limit p]" 
    using assms(3) upt_add_eq_append [of 0 i "fd_limit p - i"] by (simp add: upt_conv_Cons)
  moreover have "find (\<lambda>j. fds p j = None) [0..<i] = None" using assms(2) by (simp add: find_None_iff)
  moreover have "find P (xs @ ys) = (case find P xs of None \<Rightarrow> find P ys | Some x \<Rightarrow> Some x)" for P and xs ys :: "nat list"
    by (induction xs) auto
  ultimately show ?thesis using assms(1) by (simp add: sys_open_def)
qed

text \<open>A table that holds exactly the numbers below \<open>k\<close> gives out \<open>k\<close>.\<close>

definition dense :: "nat \<Rightarrow> proc \<Rightarrow> bool" where
  "dense k p \<longleftrightarrow> (\<forall>i. fds p i \<noteq> None \<longleftrightarrow> i < k)"

lemma dense_open:
  assumes "dense k p" "k < fd_limit p"
  shows "sys_open f p = (int k, p\<lparr>fds := (fds p)(k \<mapsto> f), nonblocking := (nonblocking p)(k := False)\<rparr>)"
    and "dense (Suc k) (p\<lparr>fds := (fds p)(k \<mapsto> f), nonblocking := nb\<rparr>)"
  using assms sys_open_lowest [of p k f] by (auto simp: dense_def less_Suc_eq)

lemma sys_open_cases:
  obtains "sys_open f p = (- 1, p)"
  | i where "fds p i = None" "sys_open f p = (int i, p\<lparr>fds := (fds p)(i \<mapsto> f), nonblocking := (nonblocking p)(i := False)\<rparr>)"
proof (cases "find (\<lambda>i. fds p i = None) [0..<fd_limit p]")
  case None
  then show thesis using that(1) by (simp add: sys_open_def)
next
  case (Some i)
  then have "fds p i = None" by (auto simp: find_Some_iff)
  then show thesis using that(2) Some by (simp add: sys_open_def)
qed

text \<open>A process started from a terminal.\<close>

definition shell :: proc where
  "shell = \<lparr>fds = [0 \<mapsto> Terminal, 1 \<mapsto> Terminal, 2 \<mapsto> Terminal], fd_limit = 1024, nonblocking = (\<lambda>_. False), lock_text = []\<rparr>"

lemma shell_dense: "dense 3 shell"
  by (auto simp: dense_def shell_def)

end
