(* ===== verification/CString.thy ===== *)
theory CString
  imports Prelude "HOL-Library.Sublist"
begin

section \<open>C strings\<close>

text \<open>
  The functions of string.h, stdio.h and stdlib.h that the web server uses. A C string is the list of
  its characters without the terminating null character; a fixed array that receives one is given by
  its capacity, and a string that does not fit together with its terminator is an access outside
  the array.
\<close>

subsection \<open>Copying\<close>

definition put_str :: "nat \<Rightarrow> string \<Rightarrow> string ub" where
  "put_str cap s = (if length s < cap then Inr s else Inl OutOfBounds)"

text \<open>\<open>strncat(dst, src, n)\<close> on an array of the given capacity.\<close>

definition strncat :: "nat \<Rightarrow> string \<Rightarrow> string \<Rightarrow> nat \<Rightarrow> string ub" where
  "strncat cap dst src n = put_str cap (dst @ take n src)"

lemma put_str_simps [simp]:
  "length s < cap \<Longrightarrow> put_str cap s = Inr s"
  "cap \<le> length s \<Longrightarrow> put_str cap s = Inl OutOfBounds"
  by (simp_all add: put_str_def)

lemma put_str_Inr: "put_str cap s = Inr t \<longleftrightarrow> t = s \<and> length s < cap"
  by (auto simp: put_str_def)

subsection \<open>Raw buffers\<close>

text \<open>
  A heap buffer holds characters, null characters among them; the C string in it ends at the first.
  Without one, reading the string leaves the buffer.
\<close>

definition NUL :: char where "NUL = CHR 0x00"

definition cstr :: "char list \<Rightarrow> string ub" where
  "cstr buf = (if NUL \<in> set buf then Inr (takeWhile (\<lambda>c. c \<noteq> NUL) buf) else Inl OutOfBounds)"

definition strncpy :: "char list \<Rightarrow> string \<Rightarrow> nat \<Rightarrow> char list ub" where
  "strncpy buf src n = (if n \<le> length buf then Inr (take n (src @ replicate n NUL) @ drop n buf) else Inl OutOfBounds)"

definition memset0 :: "char list \<Rightarrow> nat \<Rightarrow> char list ub" where
  "memset0 buf n = (if n \<le> length buf then Inr (replicate n NUL @ drop n buf) else Inl OutOfBounds)"

lemma cstr_terminated: "NUL \<notin> set s \<Longrightarrow> cstr (s @ NUL # r) = Inr s"
  by (auto simp: cstr_def takeWhile_append)

lemma strncpy_fits:
  "NUL \<notin> set s \<Longrightarrow> length s \<le> n \<Longrightarrow> n < length buf \<Longrightarrow> drop n buf = NUL # r \<Longrightarrow>
   bind_ub (strncpy buf s n) cstr = Inr s"
  using cstr_terminated [of s "replicate (n - length s - 1) NUL @ NUL # r"] cstr_terminated [of s r]
  by (cases "n - length s") (simp_all add: strncpy_def)

subsection \<open>Searching\<close>

fun strstr :: "string \<Rightarrow> string \<Rightarrow> string option" where
  "strstr [] n = (if n = [] then Some [] else None)"
| "strstr (c # cs) n = (if take (length n) (c # cs) = n then Some (c # cs) else strstr cs n)"

definition contains :: "string \<Rightarrow> string \<Rightarrow> bool" where
  "contains s n \<longleftrightarrow> strstr s n \<noteq> None"

definition strncmp_eq :: "string \<Rightarrow> string \<Rightarrow> nat \<Rightarrow> bool" where
  "strncmp_eq a b n \<longleftrightarrow> take n a = take n b"

lemma take_length_prefix: "take (length n) s = n \<longleftrightarrow> prefix n s"
  by (metis append_eq_conv_conj prefix_def)

text \<open>\<open>strstr\<close> finds the first occurrence, and only fails when there is none.\<close>

lemma strstr_Some:
  "strstr s n = Some t \<Longrightarrow> \<exists>p. s = p @ t \<and> prefix n t \<and> (\<forall>q. strict_prefix q p \<longrightarrow> \<not> prefix n (drop (length q) s))"
proof (induction s)
  case (Cons c cs)
  show ?case
  proof (cases "prefix n (c # cs)")
    case True
    with Cons.prems show ?thesis by (intro exI [of _ "[]"]) (auto simp: take_length_prefix)
  next
    case False
    with Cons.prems have "strstr cs n = Some t" by (auto simp: take_length_prefix split: if_splits)
    from Cons.IH [OF this] obtain p where
      p: "cs = p @ t" "prefix n t" "\<And>q. strict_prefix q p \<Longrightarrow> \<not> prefix n (drop (length q) cs)" by blast
    have "\<not> prefix n (drop (length q) (c # cs))" if "strict_prefix q (c # p)" for q
    proof (cases q)
      case (Cons d q')
      with that have "strict_prefix q' p" by auto
      with p(3) Cons show ?thesis by simp
    qed (use False in simp)
    with p(1,2) show ?thesis by (intro exI [of _ "c # p"]) auto
  qed
qed (auto split: if_splits)

lemma strstr_None: "strstr s n = None \<longleftrightarrow> \<not> sublist n s"
proof (induction s)
  case (Cons c cs)
  then show ?case by (auto simp: take_length_prefix sublist_Cons_right)
qed auto

lemma contains_sublist: "contains s n \<longleftrightarrow> sublist n s"
  by (simp add: contains_def strstr_None)

subsection \<open>Numbers\<close>

definition is_digit :: "char \<Rightarrow> bool" where
  "is_digit c \<longleftrightarrow> 48 \<le> (of_char c :: nat) \<and> (of_char c :: nat) \<le> 57"

definition is_space :: "char \<Rightarrow> bool" where
  "is_space c \<longleftrightarrow> (of_char c :: nat) = 32 \<or> 9 \<le> (of_char c :: nat) \<and> (of_char c :: nat) \<le> 13"

definition digit_val :: "char \<Rightarrow> int" where
  "digit_val c = int (of_char c) - 48"

definition atoi_digits :: "string \<Rightarrow> int" where
  "atoi_digits s = foldl (\<lambda>n c. 10 * n + digit_val c) 0 (takeWhile is_digit s)"

text \<open>\<open>atoi\<close>, for numbers that fit into an \<open>int\<close>; what it does with others is undefined.\<close>

definition atoi :: "string \<Rightarrow> int" where
  "atoi s = (case dropWhile is_space s of
      [] \<Rightarrow> 0
    | c # cs \<Rightarrow> if c = CHR ''-'' then - atoi_digits cs else if c = CHR ''+'' then atoi_digits cs else atoi_digits (c # cs))"

definition int_ub :: "int \<Rightarrow> int ub" where
  "int_ub n = (if - 2147483648 \<le> n \<and> n \<le> 2147483647 then Inr n else Inl IntOverflow)"

definition atoi_ub :: "string \<Rightarrow> int ub" where
  "atoi_ub s = int_ub (atoi s)"

lemma int_ub_Inr: "int_ub n = Inr m \<longleftrightarrow> m = n \<and> - 2147483648 \<le> n \<and> n \<le> 2147483647"
  by (auto simp: int_ub_def)

text \<open>The decimal form that \<open>printf\<close> writes for \<open>%d\<close>, for numbers that are not negative.\<close>

fun decimal :: "nat \<Rightarrow> string" where
  "decimal n = (if n < 10 then [char_of (48 + n)] else decimal (n div 10) @ [char_of (48 + n mod 10)])"

declare decimal.simps [simp del]

lemma digit_char:
  assumes "d < 10"
  shows "is_digit (char_of (48 + d))" and "digit_val (char_of (48 + d)) = int d"
proof -
  have "of_char (char_of (48 + d) :: char) = 48 + d" using assms by (simp add: of_char_of)
  then show "is_digit (char_of (48 + d))" "digit_val (char_of (48 + d)) = int d"
    using assms by (simp_all add: is_digit_def digit_val_def)
qed

lemma decimal_digits: "list_all is_digit (decimal n) \<and> decimal n \<noteq> []"
proof (induction n rule: decimal.induct)
  case (1 n)
  show ?case
  proof (cases "n < 10")
    case True
    then show ?thesis by (simp add: decimal.simps [of n] digit_char)
  next
    case False
    then show ?thesis using 1 digit_char(1) [of "n mod 10"] by (simp add: decimal.simps [of n])
  qed
qed

lemma atoi_digits_append:
  "list_all is_digit s \<Longrightarrow> atoi_digits (s @ [c]) = (if is_digit c then 10 * atoi_digits s + digit_val c else atoi_digits s)"
proof -
  assume a: "list_all is_digit s"
  then have t: "takeWhile is_digit s = s" by (simp add: list_all_iff takeWhile_eq_all_conv)
  have "takeWhile is_digit (s @ [c]) = s @ takeWhile is_digit [c]"
    using a by (intro takeWhile_append2) (simp add: list_all_iff)
  then show ?thesis unfolding atoi_digits_def t by simp
qed

lemma atoi_digits_decimal: "atoi_digits (decimal n) = int n"
proof (induction n rule: decimal.induct)
  case (1 n)
  show ?case
  proof (cases "n < 10")
    case True
    then show ?thesis by (simp add: decimal.simps [of n] atoi_digits_def digit_char)
  next
    case False
    have "atoi_digits (decimal n) = 10 * atoi_digits (decimal (n div 10)) + int (n mod 10)"
      using False decimal_digits [of "n div 10"] digit_char [of "n mod 10"]
      by (simp add: decimal.simps [of n] atoi_digits_append)
    also have "\<dots> = int (10 * (n div 10) + n mod 10)" by (simp only: of_nat_add of_nat_mult of_nat_numeral 1 [OF False])
    also have "\<dots> = int n" by (simp only: mult_div_mod_eq)
    finally show ?thesis .
  qed
qed

lemma atoi_decimal: "atoi (decimal n) = int n"
proof -
  obtain c cs where d: "decimal n = c # cs" using decimal_digits [of n] by (cases "decimal n") auto
  then have "is_digit c" using decimal_digits [of n] by simp
  then have "\<not> is_space c" "c \<noteq> CHR ''-''" "c \<noteq> CHR ''+''" by (auto simp: is_digit_def is_space_def)
  then have "atoi (c # cs) = atoi_digits (c # cs)" by (simp add: atoi_def)
  with atoi_digits_decimal [of n] d show ?thesis by simp
qed

lemma decimal_length: "n < 10 ^ k \<Longrightarrow> 0 < k \<Longrightarrow> length (decimal n) \<le> k"
proof (induction k arbitrary: n)
  case (Suc k)
  show ?case
  proof (cases "n < 10")
    case False
    then have k: "0 < k" using Suc.prems by (cases k) auto
    have "n div 10 < 10 ^ k" using Suc.prems by (simp add: div_less_iff_less_mult mult.commute)
    with Suc.IH k have "length (decimal (n div 10)) \<le> k" by blast
    then show ?thesis using False by (simp add: decimal.simps [of n])
  qed (simp add: decimal.simps [of n])
qed simp

end
