(* ===== verification/ForwarderStart.thy ===== *)
theory ForwarderStart
  imports SfForwarder OpenFiles CString
begin

section \<open>The serial forwarder from its start\<close>

text \<open>
  The part of src/sensor/sf.c before and around its loop: opening the serial device and the server socket,
  with the exits when a call fails, and the loop itself for any number of turns; with the
  functions of lib/sf/serialsource.c it calls for that (\<open>platform_baud_rate\<close>, \<open>serial_source_fd\<close>,
  \<open>close_serial_source\<close>).
\<close>

subsection \<open>The rate of a platform\<close>

text \<open>The table of lib/sf/BaudRate.java, which the C code includes: one call of \<open>padd\<close> for each line.\<close>

definition platforms :: "(string \<times> int) list" where
  "platforms = [(''mica'', 19200), (''mica2'', 57600), (''mica2dot'', 19200), (''telos'', 115200), (''telosb'', 115200),
     (''tinynode'', 115200), (''tmote'', 115200), (''micaz'', 57600), (''eyesIFX'', 57600), (''intelmote2'', 115200),
     (''iris'', 57600), (''shimmer'', 115200), (''ucmini'', 115200)]"

definition padd :: "string \<Rightarrow> string \<times> int \<Rightarrow> int \<Rightarrow> int" where
  "padd name line rate = (if name = fst line then snd line else rate)"

definition platform_baud_rate :: "string \<Rightarrow> int ub" where
  "platform_baud_rate name =
     (if name \<noteq> [] \<and> is_digit (hd name) then atoi_ub name else Inr (fold (padd name) platforms (- 1)))"

subsection \<open>Opening\<close>

text \<open>A source with its descriptor, the field \<open>fd\<close> of \<open>struct serial_source_t\<close>.\<close>

type_synonym fd_source = "int \<times> serial_source"

definition serial_source_fd :: "fd_source \<Rightarrow> int" where
  "serial_source_fd src = fst src"

definition close_serial_source :: "fd_source \<Rightarrow> proc \<Rightarrow> int \<times> proc" where
  "close_serial_source src p = (if fst src < 0 \<or> fds p (nat (fst src)) = None then - 1 else 0, sys_close (fst src) p)"

text \<open>
  What the system answers while the forwarder starts: the constants of termios.h, whether the device can
  be opened and set up, memory, the later answers of the device, and the results for the socket.
\<close>

record fwd_env =
  fe_flag :: "int \<Rightarrow> u32 option"
  fe_device :: bool
  fe_flushed :: bool
  fe_attr :: bool
  fe_mem :: bool
  fe_os :: os
  fe_socket :: bool
  fe_nonblock :: int
  fe_sockopt :: int
  fe_bind :: "u16 \<Rightarrow> int"
  fe_listen :: int

definition unix_check :: "int \<Rightarrow> int outcome" where
  "unix_check result = (if result < 0 then Exits 2 else Returns result)"

primrec check_all :: "int list \<Rightarrow> unit outcome" where
  "check_all [] = Returns ()"
| "check_all (r # rs) = (case unix_check r of Returns _ \<Rightarrow> check_all rs | Exits n \<Rightarrow> Exits n | Hangs \<Rightarrow> Hangs)"

definition open_server_socket :: "fwd_env \<Rightarrow> int \<Rightarrow> proc \<Rightarrow> (int \<times> proc) outcome" where
  "open_server_socket env prt p =
     (let (fd, p) = (if fe_socket env then sys_open Unbound p else (- 1, p)) in
      case unix_check fd of
        Exits n \<Rightarrow> Exits n
      | Hangs \<Rightarrow> Hangs
      | Returns server_socket \<Rightarrow>
          let sin_port = word_of_int prt in
          (case check_all [fe_nonblock env, fe_sockopt env, fe_bind env sin_port, fe_listen env] of
             Exits n \<Rightarrow> Exits n
           | Hangs \<Rightarrow> Hangs
           | Returns _ \<Rightarrow> Returns (server_socket,
               p\<lparr>fds := (fds p)(nat server_socket \<mapsto> Listening sin_port), nonblocking := (nonblocking p)(nat server_socket := True)\<rparr>)))"

text \<open>
  \<open>open_serial\<close> copies the name of the device to a buffer of 80 characters. The device is opened only if
  the rate is one that the system knows, and closed again if it cannot be set up.
\<close>

definition open_serial :: "fwd_env \<Rightarrow> string \<Rightarrow> int \<Rightarrow> proc \<Rightarrow> (fd_source \<times> proc) outcome ub" where
  "open_serial env dev baud p =
     bind_ub (put_str 80 dev) (\<lambda>ldev.
       let (fd, p1) = (if parse_baudrate (fe_flag env) baud \<noteq> 0 \<and> fe_device env then sys_open (Device ldev) p else (- 1, p)) in
       case open_serial_source (fe_flag env) (0 \<le> fd) (fe_flushed env) (fe_attr env) (fe_mem env) (fe_os env) baud True True of
         None \<Rightarrow> Inr (Exits 1)
       | Some src \<Rightarrow> Inr (Returns ((fd, src), p1\<lparr>nonblocking := (nonblocking p1)(nat fd := True)\<rparr>)))"

text \<open>The text for a message of the serial source; the enumeration is the index into the table.\<close>

fun stderr_msg :: "serial_source_msg \<Rightarrow> string" where
  "stderr_msg msg_unknown_packet_type = ''unknown_packet_type''"
| "stderr_msg msg_ack_timeout = ''ack_timeout''"
| "stderr_msg msg_sync = ''sync''"
| "stderr_msg msg_too_long = ''too_long''"
| "stderr_msg msg_too_short = ''too_short''"
| "stderr_msg msg_bad_sync = ''bad_sync''"
| "stderr_msg msg_bad_crc = ''bad_crc''"
| "stderr_msg msg_closed = ''closed''"
| "stderr_msg msg_no_memory = ''no_memory''"
| "stderr_msg msg_unix_error = ''unix_error''"

subsection \<open>The process\<close>

text \<open>The globals of the process before anything is opened: no client, both counters at zero.\<close>

definition fwd_init :: "serial_source \<Rightarrow> forwarder" where
  "fwd_init src = \<lparr>fw_src = src, clients = [], num_clients = 0, packets_read = 0, packets_written = 0,
     conns = (\<lambda>_. \<lparr>c_rx = [], c_wr = [], c_tx = [], c_open = False\<rparr>)\<rparr>"

definition do_child_start :: "fwd_env \<Rightarrow> proc \<Rightarrow> (int \<times> int \<times> forwarder \<times> proc) outcome ub" where
  "do_child_start env p =
     bind_ub (platform_baud_rate ''57600'') (\<lambda>baud.
     bind_ub (open_serial env ''/dev/ttyUSB1'' baud p) (\<lambda>r. case r of
       Exits n \<Rightarrow> Inr (Exits n)
     | Hangs \<Rightarrow> Inr Hangs
     | Returns (src, p) \<Rightarrow>
         let serfd = serial_source_fd src in
         (case open_server_socket env 8989 p of
            Exits n \<Rightarrow> Inr (Exits n)
          | Hangs \<Rightarrow> Inr Hangs
          | Returns (server_socket, p) \<Rightarrow> Inr (Returns (serfd, server_socket, fwd_init (snd src), p)))))"

primrec turns :: "turn_env list \<Rightarrow> int \<Rightarrow> int \<Rightarrow> forwarder \<Rightarrow> forwarder outcome ub" where
  "turns [] serfd sock f = Inr (Returns f)"
| "turns (e # es) serfd sock f = bind_out (turn e serfd sock f) (turns es serfd sock)"

definition do_child :: "fwd_env \<Rightarrow> turn_env list \<Rightarrow> proc \<Rightarrow> forwarder outcome ub" where
  "do_child env es p = bind_out (do_child_start env p) (\<lambda>(serfd, sock, f, _). turns es serfd sock f)"

subsection \<open>Properties\<close>

lemma rate_57600: "platform_baud_rate ''57600'' = Inr 57600"
  by code_simp

text \<open>The rate is that of the table, and \<open>-1\<close> for a name that is neither a number nor in it.\<close>

lemma platform_baud_rate_eq:
  assumes "name = [] \<or> \<not> is_digit (hd name)"
  shows "platform_baud_rate name = Inr (case map_of platforms name of None \<Rightarrow> - 1 | Some r \<Rightarrow> r)"
proof -
  have "fold (padd name) platforms (- 1) = (case map_of platforms name of None \<Rightarrow> - 1 | Some r \<Rightarrow> r)"
    by (simp add: platforms_def padd_def)
  with assms show ?thesis by (auto simp: platform_baud_rate_def)
qed

text \<open>What the kernel promises in every turn of a run.\<close>

primrec turns_ok :: "turn_env list \<Rightarrow> int \<Rightarrow> int \<Rightarrow> forwarder \<Rightarrow> bool" where
  "turns_ok [] serfd sock f = True"
| "turns_ok (e # es) serfd sock f \<longleftrightarrow>
     env_ok e f \<and> (case turn e serfd sock f of Inr (Returns f') \<Rightarrow> turns_ok es serfd sock f' | _ \<Rightarrow> True)"

lemma turns_safe:
  assumes "0 \<le> serfd" "serfd < FD_SETSIZE" "0 \<le> sock" "sock < FD_SETSIZE" "wf_fwd f" "turns_ok es serfd sock f"
  shows "good wf_fwd (turns es serfd sock f)"
  using assms(5,6)
proof (induction es arbitrary: f)
  case (Cons e es)
  have e: "env_ok e f" using Cons.prems(2) by simp
  from turn_good [OF Cons.prems(1) e assms(1-4)] have "good wf_fwd (turn e serfd sock f)" .
  then show ?case
  proof (cases rule: good_cases)
    case (1 f')
    with Cons show ?thesis by (simp add: bind_out_def)
  qed (simp add: bind_out_def)
qed simp

lemma fwd_init_wf: "wf_source src \<Longrightarrow> non_blocking src \<Longrightarrow> wf_fwd (fwd_init src)"
  by (simp add: wf_fwd_def fwd_init_def)

lemma check_all_cases: "check_all rs = (if \<forall>r \<in> set rs. 0 \<le> r then Returns () else Exits 2)"
  by (induction rs) (auto simp: unix_check_def)

lemma open_serial_cases:
  assumes "dense k p" "k < fd_limit p" "length dev < 80"
  obtains "open_serial env dev baud p = Inr (Exits 1)" "\<not> (parse_baudrate (fe_flag env) baud \<noteq> 0 \<and> fe_device env \<and> fe_flushed env \<and> fe_attr env \<and> fe_mem env)"
  | src p' where "open_serial env dev baud p = Inr (Returns ((int k, src), p'))" "wf_source src" "non_blocking src" "os src = fe_os env"
      "dense (Suc k) p'" "fds p' = (fds p)(k \<mapsto> Device dev)" "fd_limit p' = fd_limit p"
proof (cases "parse_baudrate (fe_flag env) baud \<noteq> 0 \<and> fe_device env \<and> fe_flushed env \<and> fe_attr env \<and> fe_mem env")
  case True
  note o = dense_open [OF assms(1,2)]
  obtain src where src: "open_serial_source (fe_flag env) True (fe_flushed env) (fe_attr env) (fe_mem env) (fe_os env) baud True True = Some src"
      "non_blocking src" "os src = fe_os env"
    using True by (simp add: open_serial_source_def)
  let ?p = "p\<lparr>fds := (fds p)(k \<mapsto> Device dev), nonblocking := (nonblocking p)(k := True)\<rparr>"
  have "open_serial env dev baud p = Inr (Returns ((int k, src), ?p))"
    using True o(1) src(1) assms(3) by (simp add: open_serial_def Let_def)
  moreover have "dense (Suc k) ?p" by (rule o(2))
  ultimately show thesis using that(2) src open_serial_source_wf [OF src(1)] by simp
next
  case False
  then have "open_serial env dev baud p = Inr (Exits 1)"
    using assms(3) dense_open(1) [OF assms(1,2)] by (auto simp: open_serial_def open_serial_source_def Let_def)
  then show thesis using that(1) False by blast
qed

lemma open_server_socket_cases:
  assumes "dense k p" "k < fd_limit p"
  shows "open_server_socket env prt p =
    (if fe_socket env \<and> 0 \<le> fe_nonblock env \<and> 0 \<le> fe_sockopt env \<and> 0 \<le> fe_bind env (word_of_int prt) \<and> 0 \<le> fe_listen env
     then Returns (int k, p\<lparr>fds := (fds p)(k \<mapsto> Listening (word_of_int prt)), nonblocking := (nonblocking p)(k := True)\<rparr>)
     else Exits 2)"
  using dense_open(1) [OF assms, of Unbound]
  by (simp add: open_server_socket_def unix_check_def check_all_cases Let_def del: check_all.simps)

text \<open>The answers with which the forwarder comes up.\<close>

definition fwd_ok :: "fwd_env \<Rightarrow> bool" where
  "fwd_ok env \<longleftrightarrow> parse_baudrate (fe_flag env) 57600 \<noteq> 0 \<and> fe_device env \<and> fe_flushed env \<and> fe_attr env \<and> fe_mem env \<and>
     fe_socket env \<and> 0 \<le> fe_nonblock env \<and> 0 \<le> fe_sockopt env \<and> 0 \<le> fe_bind env 8989 \<and> 0 \<le> fe_listen env"

lemma do_child_start_cases:
  assumes "dense k p" "k + 2 \<le> fd_limit p"
  obtains "do_child_start env p = Inr (Exits 1)" "\<not> fwd_ok env"
  | "do_child_start env p = Inr (Exits 2)" "\<not> fwd_ok env"
  | f p' where "do_child_start env p = Inr (Returns (int k, int k + 1, f, p'))" "wf_fwd f" "clients f = []" "os (fw_src f) = fe_os env"
      "fds p' = (fds p)(k \<mapsto> Device ''/dev/ttyUSB1'', k + 1 \<mapsto> Listening 8989)"
proof -
  have k: "k < fd_limit p" "length ''/dev/ttyUSB1'' < 80" using assms(2) by simp_all
  show thesis
  proof (cases rule: open_serial_cases [OF assms(1) k, of env 57600])
    case 1
    then show thesis using that(1) by (auto simp: do_child_start_def rate_57600 fwd_ok_def)
  next
    case (2 src p1)
    note s = open_server_socket_cases [OF 2(5), of env 8989]
    show thesis
    proof (cases "open_server_socket env 8989 p1 = Exits 2")
      case True
      then have "do_child_start env p = Inr (Exits 2)" "\<not> fwd_ok env"
        using 2 s assms(2) by (auto simp: do_child_start_def rate_57600 fwd_ok_def split: if_splits)
      then show thesis by (rule that(2))
    next
      case False
      then have "open_server_socket env 8989 p1 =
          Returns (int k + 1, p1\<lparr>fds := (fds p1)(Suc k \<mapsto> Listening 8989), nonblocking := (nonblocking p1)(Suc k := True)\<rparr>)"
        using s 2 assms(2) by (auto split: if_splits)
      then show thesis using that(3) 2 fwd_init_wf [OF 2(2,3)]
        by (auto simp: do_child_start_def rate_57600 serial_source_fd_def fwd_init_def)
    qed
  qed
qed


text \<open>Started from a terminal, with one turn in which a client connects.\<close>

definition linux_fwd :: fwd_env where
  "linux_fwd = \<lparr>fe_flag = (\<lambda>_. Some 15), fe_device = True, fe_flushed = True, fe_attr = True, fe_mem = True, fe_os = quiet_os, fe_socket = True,
     fe_nonblock = 0, fe_sockopt = 0, fe_bind = (\<lambda>_. 0), fe_listen = 0\<rparr>"

definition one_client :: turn_env where
  "one_client = \<lparr>sel_ret = 1, sel_set = (\<lambda>fd. fd = 4), acc_fd = 5, acc_conn = open_conn [], acc_mem = True, pkt_mem = (\<lambda>_. True)\<rparr>"

lemma one_client_ok: "clients f = [] \<Longrightarrow> turns_ok [one_client] serfd sock f"
  by (simp add: env_ok_def one_client_def open_conn_def FD_SETSIZE_def split: sum.splits outcome.splits)


end
