(* ===== verification/SensorClient.thy ===== *)
theory SensorClient
  imports Crc SfSource
begin

unbundle bit_operations_syntax

section \<open>The sensor client\<close>

text \<open>
  src/sensor/tgx_sensor_client.c: the process that takes sample packets from the serial forwarder,
  checks the checksum that the mote put at the end of the sample, and passes intact packets on to the
  collection server. A packet has 8 bytes of header before the sample. Text output is a list of
  tokens; the conversion of a temperature reading to degrees is done when a token is printed and is not
  part of the model. The start of the process and its signal handler are in theory ClientStart.
\<close>

subsection \<open>Reading numbers\<close>

text \<open>\<open>mypow\<close> counts with an \<open>int\<close>; it is only called for powers of two below the sixteenth.\<close>

primrec mypow_loop :: "nat \<Rightarrow> int \<Rightarrow> int \<Rightarrow> int" where
  "mypow_loop 0 x m = m"
| "mypow_loop (Suc n) x m = mypow_loop n x (m * x)"

definition mypow :: "int \<Rightarrow> int \<Rightarrow> int" where
  "mypow x y = mypow_loop (nat y) x 1"

text \<open>The inner loop of \<open>to_int\<close> over the bits of one character, from bit \<open>j\<close> on.\<close>

function to_int_bits :: "u8 \<Rightarrow> int \<Rightarrow> nat \<Rightarrow> u16 \<Rightarrow> u16" where
  "to_int_bits tmp base j s =
     (if j < 8 then to_int_bits tmp base (Suc j) (if bit tmp j then s + word_of_int (mypow 2 (int j + base)) else s)
      else s)"
  by pat_completeness auto
termination by (relation "measure (\<lambda>(tmp, base, j, s). 8 - j)") auto

declare to_int_bits.simps [simp del]

text \<open>The outer loop runs from the last character to the first; \<open>str\<close> is an offset into the packet.\<close>

function to_int_loop :: "u8 list \<Rightarrow> int \<Rightarrow> int \<Rightarrow> int \<Rightarrow> u16 \<Rightarrow> u16 ub" where
  "to_int_loop mem str len i s =
     (if i \<ge> 0 then bind_ub (peek mem (str + i)) (\<lambda>tmp.
        to_int_loop mem str len (i - 1) (to_int_bits tmp ((len - i - 1) * 8) 0 s))
      else Inr s)"
  by pat_completeness auto
termination by (relation "measure (\<lambda>(mem, str, len, i, s). nat (i + 1))") auto

declare to_int_loop.simps [simp del]

definition to_int :: "u8 list \<Rightarrow> int \<Rightarrow> int \<Rightarrow> u16 ub" where
  "to_int mem str len = to_int_loop mem str len (len - 1) 0"

subsection \<open>The checksum of a sample\<close>

definition crcByte :: "u16 \<Rightarrow> u8 \<Rightarrow> u16" where
  "crcByte crc b = crc_loop 8 (crc XOR push_bit 8 (ucast b))"

text \<open>\<open>crc16\<close> counts with an 8-bit length.\<close>

function crc16_loop :: "u8 list \<Rightarrow> int \<Rightarrow> u8 \<Rightarrow> u16 \<Rightarrow> u16 ub" where
  "crc16_loop mem tmp len crc =
     (if len > 0 then bind_ub (peek mem tmp) (\<lambda>b. crc16_loop mem (tmp + 1) (len - 1) (crcByte crc b)) else Inr crc)"
  by pat_completeness auto
termination by (relation "measure (\<lambda>(mem, tmp, len, crc). unat len)") (auto intro: unat_pred simp: word_neq_0_conv)

declare crc16_loop.simps [simp del]

definition crc16 :: "u8 list \<Rightarrow> int \<Rightarrow> u8 \<Rightarrow> u16 ub" where
  "crc16 mem buf len = crc16_loop mem buf len 0"

definition dataCorrupt :: "u8 list \<Rightarrow> int \<Rightarrow> int \<Rightarrow> int ub" where
  "dataCorrupt mem pkt len =
     bind_ub (crc16 mem pkt (word_of_int (len - 2))) (\<lambda>crc.
     bind_ub (to_int mem (pkt + len - 2) 2) (\<lambda>actualCrc.
       Inr (if crc = actualCrc then 0 else - 1)))"

subsection \<open>Output\<close>

datatype token = Label string | Degrees u16 | Number u16 | Hex u8 | Bracket string

definition label_of :: "nat \<Rightarrow> token list" where
  "label_of i =
     (if i = 16 then [Label ''T:  ''] else if i = 18 then [Label ''L:  ''] else if i = 20 then [Label ''S:  '']
      else if i = 22 then [Label ''Ax: ''] else if i = 24 then [Label ''Ay: ''] else if i = 26 then [Label ''Mx: '']
      else if i = 28 then [Label ''My: ''] else if i = 30 then [Label ''CrC: ''] else [])"

definition print_item :: "u8 list \<Rightarrow> nat \<Rightarrow> token list ub" where
  "print_item mem i =
     (if i > 7 then
        if i mod 2 = 0 then bind_ub (to_int mem (int i) 2) (\<lambda>v. Inr (label_of i @ [if i = 16 then Degrees v else Number v]))
        else Inr []
      else bind_ub (peek mem (int i)) (\<lambda>b. Inr [Hex b]))"

definition print_bracket :: "nat \<Rightarrow> int \<Rightarrow> token list" where
  "print_bracket i nwrite =
     (if i \<ge> 7 \<and> int i < nwrite - 1 then
        if i = 7 then [Bracket ''( ''] else if i mod 2 \<noteq> 0 then [Bracket '') ( ''] else []
      else [])"

function print_loop :: "u8 list \<Rightarrow> int \<Rightarrow> nat \<Rightarrow> token list ub" where
  "print_loop mem nwrite i =
     (if int i < nwrite then
        bind_ub (print_item mem i) (\<lambda>t. bind_ub (print_loop mem nwrite (Suc i)) (\<lambda>ts. Inr (t @ print_bracket i nwrite @ ts)))
      else Inr [])"
  by pat_completeness auto
termination by (relation "measure (\<lambda>(mem, nwrite, i). nat (nwrite - int i))") auto

declare print_loop.simps [simp del]

subsection \<open>One packet\<close>

record client =
  cl_sf :: conn
  cl_srv :: conn
  cl_out :: "token list"

datatype next_action = Continue | Exit_0

text \<open>
  The branch of \<open>main\<close> for a ready forwarder connection. \<open>errno\<close> is what \<open>write\<close> left behind when it
  failed; the packet is released on every path except the one after \<open>EINTR\<close>.
\<close>

definition handle_packet :: "(nat \<Rightarrow> bool) \<Rightarrow> errno \<Rightarrow> client \<Rightarrow> (next_action \<times> client) ub" where
  "handle_packet mem errno c =
     (let (p, sf) = read_sf_packet mem (cl_sf c); c1 = c\<lparr>cl_sf := sf\<rparr> in
      case p of
        None \<Rightarrow> Inr (Exit_0, c1)
      | Some pkt \<Rightarrow>
          let len = int (length pkt) in
          bind_ub (dataCorrupt pkt 8 (len - 8)) (\<lambda>bad.
            if bad < 0 then Inr (Continue, c1)
            else
              let (nwrite, srv) = safewrite (cl_srv c1) pkt in
              bind_ub (print_loop pkt nwrite 0) (\<lambda>out.
                let c2 = c1\<lparr>cl_srv := srv, cl_out := cl_out c1 @ out @ [Bracket '')'']\<rparr> in
                if nwrite = - 1 then
                  if errno = EINTR then Inr (Continue, c2) else Inr (Exit_0, c2)
                else if nwrite \<noteq> len then Inr (Exit_0, c2)
                else Inr (Continue, c2))))"

text \<open>The loop around it, for \<open>n\<close> packets or until the client exits.\<close>

primrec client_loop :: "nat \<Rightarrow> (nat \<Rightarrow> bool) \<Rightarrow> errno \<Rightarrow> client \<Rightarrow> (next_action \<times> client) ub" where
  "client_loop 0 mem errno c = Inr (Continue, c)"
| "client_loop (Suc n) mem errno c = bind_ub (handle_packet mem errno c) (\<lambda>(act, c).
     if act = Continue then client_loop n mem errno c else Inr (act, c))"

subsection \<open>The arithmetic\<close>

lemma mypow_eq: "mypow x (int n) = x ^ n"
proof -
  have "mypow_loop n x m = m * x ^ n" for m by (induction n arbitrary: m) simp_all
  then show ?thesis by (simp add: mypow_def)
qed

lemma to_int_bits_sum:
  "to_int_bits t (int n) j s = s + (\<Sum>k = j..<8. if bit t k then 2 ^ (k + n) else 0)"
proof (induction t "int n" j s rule: to_int_bits.induct)
  case (1 t j s)
  have "word_of_int (mypow 2 (int j + int n)) = (2 ^ (j + n) :: u16)"
    using mypow_eq [of 2 "j + n"] by simp
  with 1 show ?case
    by (cases "j < 8") (simp_all add: to_int_bits.simps [of t "int n" j s] sum.atLeast_Suc_lessThan)
qed

lemma u8_as_sum: "(\<Sum>k = 0..<8. if bit t k then 2 ^ (k + n) else 0) = 2 ^ n * (ucast t :: u16)" for t :: u8
proof -
  have "ucast t = take_bit 8 (ucast t :: u16)"
    by (rule bit_word_eqI) (auto simp: bit_simps dest: bit_imp_le_length)
  also have "\<dots> = (\<Sum>k = 0..<8. push_bit k (of_bool (bit (ucast t :: u16) k)))" by (rule take_bit_sum)
  also have "\<dots> = (\<Sum>k = 0..<8. if bit t k then 2 ^ k else 0)"
    by (rule sum.cong) (auto simp: bit_simps push_bit_eq_mult)
  finally have "2 ^ n * (ucast t :: u16) = (\<Sum>k = 0..<8. 2 ^ n * (if bit t k then 2 ^ k else 0))"
    by (simp add: sum_distrib_left)
  then show ?thesis by (simp add: power_add mult.commute if_distrib cong: if_cong)
qed

lemma to_int_bits_eq: "to_int_bits t (int n) 0 s = s + 2 ^ n * ucast t"
  by (simp add: to_int_bits_sum u8_as_sum)

text \<open>The two-character number is the big-endian one.\<close>

lemma to_int_2:
  assumes "peek mem p = Inr a" and "peek mem (p + 1) = Inr b"
  shows "to_int mem p 2 = Inr (256 * ucast a + ucast b)"
  using assms to_int_bits_eq [of b 0] to_int_bits_eq [of a 8]
  by (simp add: to_int_def to_int_loop.simps)

lemma crc16_loop_run:
  "unat len = n \<Longrightarrow> 0 \<le> p \<Longrightarrow> nat p + n \<le> length mem \<Longrightarrow>
   crc16_loop mem p len crc = Inr (crc_run crc (take n (drop (nat p) mem)))"
proof (induction n arbitrary: len p crc)
  case 0
  then have "len = 0" by (simp add: unat_eq_0)
  then show ?case by (simp add: crc16_loop.simps)
next
  case (Suc n)
  then have "0 < len" by (auto simp: word_gt_0)
  moreover from this have "unat (len - 1) = n" using Suc.prems(1) by (simp add: unat_minus_one)
  moreover have "peek mem p = Inr (mem ! nat p)" using Suc.prems by (simp add: peek_def)
  moreover have "drop (nat p) mem = mem ! nat p # drop (Suc (nat p)) mem" using Suc.prems by (simp add: Cons_nth_drop_Suc)
  moreover have "nat (p + 1) = Suc (nat p)" using Suc.prems by simp
  ultimately show ?case using Suc.IH [of "len - 1" "p + 1"] Suc.prems
    by (simp add: crc16_loop.simps [of mem p len] crcByte_def crc_byte_def)
qed

lemma crc16_loop_out:
  "0 \<le> p \<Longrightarrow> 0 < len \<Longrightarrow> length mem < nat p + unat len \<Longrightarrow> crc16_loop mem p len crc = Inl OutOfBounds"
proof (induction mem p len crc rule: crc16_loop.induct)
  case (1 mem p len crc)
  show ?case
  proof (cases "nat p < length mem")
    case True
    have u: "unat (len - 1) = unat len - 1" using "1.prems"(2) by (simp add: unat_minus_one word_gt_0)
    have "1 < unat len" using True "1.prems"(3) by simp
    then have "unat (len - 1) \<noteq> 0" using u by simp
    then have "0 < len - 1" by (metis unat_0 word_gt_0)
    moreover have "peek mem p = Inr (mem ! nat p)" using True "1.prems" by (simp add: peek_def)
    ultimately show ?thesis using "1.IH" "1.prems" u by (simp add: crc16_loop.simps [of mem p len] nat_add_distrib)
  next
    case False
    then have "peek mem p = Inl OutOfBounds" using "1.prems"(1) by (auto simp: peek_def)
    with "1.prems"(2) show ?thesis by (simp add: crc16_loop.simps [of mem p len])
  qed
qed

subsection \<open>What the check means\<close>

definition be16 :: "u8 \<Rightarrow> u8 \<Rightarrow> u16" where
  "be16 a b = 256 * ucast a + ucast b"

text \<open>A sample is what follows the header; it is intact if its last two bytes are the checksum of the others.\<close>

definition intact :: "u8 list \<Rightarrow> bool" where
  "intact sample \<longleftrightarrow> crc_run 0 (take (length sample - 2) sample) =
     be16 (sample ! (length sample - 2)) (sample ! (length sample - 1))"

lemma dataCorrupt_eq:
  assumes "10 \<le> length pkt" and "length pkt < 256"
  shows "dataCorrupt pkt 8 (int (length pkt) - 8) = Inr (if intact (drop 8 pkt) then 0 else - 1)"
proof -
  define m where "m = length pkt - 10"
  have l: "length pkt = m + 10" using assms(1) by (simp add: m_def)
  have "unat (word_of_int (int m) :: u8) = m" using assms(2) l by (simp add: unat_of_nat)
  moreover have "word_of_int (int (length pkt) - 8 - 2) = (word_of_int (int m) :: u8)" using l by simp
  ultimately have c: "crc16 pkt 8 (word_of_int (int (length pkt) - 8 - 2)) = Inr (crc_run 0 (take m (drop 8 pkt)))"
    using l crc16_loop_run [of "word_of_int (int m)" m 8 pkt 0] by (simp add: crc16_def)
  have p: "8 + (int (length pkt) - 8) - 2 = int (m + 8)" using l by simp
  have "peek pkt (int (m + 8)) = Inr (pkt ! (m + 8))" "peek pkt (int (m + 8) + 1) = Inr (pkt ! (m + 9))"
    using l peek_in [of "m + 8" pkt] peek_in [of "m + 9" pkt] by (simp_all add: algebra_simps)
  from to_int_2 [OF this] have t: "to_int pkt (8 + (int (length pkt) - 8) - 2) 2 = Inr (be16 (pkt ! (m + 8)) (pkt ! (m + 9)))"
    unfolding p by (simp add: be16_def)
  show ?thesis using l unfolding dataCorrupt_def c t bind_ub_simps intact_def
    by (simp add: add.commute)
qed

lemma short_sample_fault:
  assumes "length pkt < 10"
  shows "dataCorrupt pkt 8 (int (length pkt) - 8) = Inl OutOfBounds"
proof -
  let ?k = "length pkt"
  have "word_of_int (int ?k - 10) = (of_nat (?k + 246) :: u8)"
    by (simp add: of_nat_add [where 'a = u8])
  then have u: "unat (word_of_int (int ?k - 10) :: u8) = ?k + 246"
    using assms unat_of_nat [of "?k + 246", where 'a = 8] by (simp only:) simp
  then have "0 < (word_of_int (int ?k - 10) :: u8)" by (metis add_is_0 unat_0 word_gt_0 zero_neq_numeral)
  with crc16_loop_out [of 8 "word_of_int (int ?k - 10)" pkt 0] u show ?thesis
    by (simp add: dataCorrupt_def crc16_def)
qed

lemma crc_shifts_low: "n \<le> 8 \<Longrightarrow> (crc_shift ^^ n) (ucast b) = push_bit n (ucast b)" for b :: u8
proof (induction n)
  case (Suc n)
  have "\<not> bit (push_bit n (ucast b) :: u16) 15"
    using Suc.prems by (auto simp: bit_simps dest: bit_imp_le_length)
  then have "crc_shift (push_bit n (ucast b)) = push_bit 1 (push_bit n (ucast b))" unfolding crc_shift_alt by simp
  also have "\<dots> = push_bit (Suc n) (ucast b)" unfolding push_bit_push_bit by simp
  finally show ?case using Suc by simp
qed simp

lemma be16_xor: "be16 a b = push_bit 8 (ucast a) XOR ucast b"
proof -
  have "push_bit 8 (ucast a) AND ucast b = (0 :: u16)"
    by (rule bit_word_eqI) (auto simp: bit_simps dest: bit_imp_le_length)
  then have "push_bit 8 (ucast a) + ucast b = (push_bit 8 (ucast a) XOR ucast b :: u16)"
    by (rule disjunctive_add_eq_xor)
  then show ?thesis by (simp add: be16_def push_bit_eq_mult mult.commute)
qed

text \<open>Run over the sample together with its checksum, the register ends at zero exactly for intact samples.\<close>

lemma crc_run_residue: "crc_run c (bs @ [hi, lo]) = 0 \<longleftrightarrow> crc_run c bs = be16 hi lo"
proof -
  let ?r = "crc_run c bs XOR push_bit 8 (ucast hi)"
  have "crc_run c (bs @ [hi, lo]) = (crc_shift ^^ 8) ((crc_shift ^^ 8) ?r XOR push_bit 8 (ucast lo))"
    by (simp add: crc_run_append crc_byte_alt)
  also have "(crc_shift ^^ 8) ?r XOR push_bit 8 (ucast lo) = (crc_shift ^^ 8) (?r XOR ucast lo)"
    using crc_shifts_low [of 8 lo] by (simp add: crc_shifts_xor)
  finally have "crc_run c (bs @ [hi, lo]) = 0 \<longleftrightarrow> ?r XOR ucast lo = 0" by (simp only: crc_shifts_eq_0)
  also have "\<dots> \<longleftrightarrow> crc_run c bs = be16 hi lo"
    unfolding be16_xor xor.assoc by (rule xor_word_eq_0)
  finally show ?thesis .
qed

lemma intact_residue: "2 \<le> length s \<Longrightarrow> intact s \<longleftrightarrow> crc_run 0 s = 0"
proof -
  assume l: "2 \<le> length s"
  let ?k = "length s - 2"
  have "drop ?k s = [s ! ?k, s ! Suc ?k]"
    using l by (intro nth_equalityI) (auto simp: less_Suc_eq numeral_2_eq_2 Suc_diff_Suc Suc_diff_le)
  then have "s = take ?k s @ [s ! ?k, s ! Suc ?k]" by (metis append_take_drop_id)
  then show ?thesis using crc_run_residue [of 0 "take ?k s" "s ! ?k" "s ! Suc ?k"] l
    by (simp add: intact_def Suc_diff_Suc numeral_2_eq_2)
qed

subsection \<open>Properties\<close>

lemma print_item_ok:
  assumes "even (length pkt)" and "i < length pkt"
  shows "\<exists>ts. print_item pkt i = Inr ts"
proof (cases "i > 7 \<and> even i")
  case True
  then have "Suc i < length pkt" using assms by (metis Suc_lessI even_Suc)
  then have "peek pkt (int i) = Inr (pkt ! i)" "peek pkt (int i + 1) = Inr (pkt ! Suc i)"
    using assms(2) peek_in [of "Suc i" pkt] by (simp_all add: add.commute)
  from to_int_2 [OF this] True show ?thesis by (simp add: print_item_def even_iff_mod_2_eq_zero)
qed (use assms in \<open>auto simp: print_item_def even_iff_mod_2_eq_zero\<close>)

lemma print_loop_ok: "even (length pkt) \<Longrightarrow> \<exists>ts. print_loop pkt (int (length pkt)) i = Inr ts"
proof (induction "length pkt - i" arbitrary: i)
  case 0
  then show ?case by (simp add: print_loop.simps [of pkt _ i])
next
  case (Suc k)
  then have "i < length pkt" "k = length pkt - Suc i" by simp_all
  with Suc print_item_ok [of pkt i] obtain t ts where "print_item pkt i = Inr t" "print_loop pkt (int (length pkt)) (Suc i) = Inr ts"
    by blast
  with \<open>i < length pkt\<close> show ?case by (simp add: print_loop.simps [of pkt _ i])
qed

lemma handle_packet_forwards:
  assumes "flowing (cl_sf c)" and "c_data (cl_sf c) = sf_code pkt @ rest" and "c_wr (cl_srv c) = []"
    and "10 \<le> length pkt" and "length pkt < 256" and "even (length pkt)"
  shows "\<exists>c'. handle_packet (\<lambda>_. True) e c = Inr (Continue, c') \<and> flowing (cl_sf c') \<and> c_data (cl_sf c') = rest \<and>
    c_tx (cl_srv c') = c_tx (cl_srv c) @ (if intact (drop 8 pkt) then pkt else [])"
proof -
  obtain sf where r: "read_sf_packet (\<lambda>_. True) (cl_sf c) = (Some pkt, sf)" "flowing sf" "c_data sf = rest"
    using read_sf_packet_eq [OF assms(1,2,5), of "\<lambda>_. True"] by blast
  obtain ts where p: "print_loop pkt (int (length pkt)) 0 = Inr ts" using print_loop_ok [OF assms(6)] by blast
  have w: "safewrite (cl_srv c) pkt = (int (length pkt), (cl_srv c)\<lparr>c_tx := c_tx (cl_srv c) @ pkt\<rparr>)"
    using assms(3) by (rule safewrite_ok)
  show ?thesis
    using r p w dataCorrupt_eq [OF assms(4,5)] by (simp add: handle_packet_def Let_def)
qed

text \<open>
  A packet of 10 to 254 bytes, of even length as the motes' packets are, that the forwarder sends
  is passed on to the server byte for byte if the checksum at its end is that of the sample, and
  dropped otherwise; in both cases the client goes on with what follows on the connection. (The server's
  connection accepts what is written to it.)
\<close>

theorem client_forwards_intact:
  assumes "flowing (cl_sf c)" and "c_data (cl_sf c) = sf_code pkt @ rest" and "c_wr (cl_srv c) = []"
    and "10 \<le> length pkt" and "length pkt < 256" and "even (length pkt)"
  shows "\<exists>c'. handle_packet (\<lambda>_. True) e c = Inr (Continue, c') \<and> flowing (cl_sf c') \<and> c_data (cl_sf c') = rest \<and>
    c_tx (cl_srv c') = c_tx (cl_srv c) @ (if intact (drop 8 pkt) then pkt else [])"
  using assms by (rule handle_packet_forwards)

lemma handle_packet_wr:
  assumes "c_wr (cl_srv c) = []" "handle_packet mem e c = Inr (act, c')"
  shows "c_wr (cl_srv c') = []"
  using assms safewrite_ok [OF assms(1)]
  by (auto simp: handle_packet_def Let_def bind_ub_eq_Inr split: prod.splits option.splits if_splits)

lemma client_loop_forwards:
  assumes "flowing (cl_sf c)" and "c_data (cl_sf c) = concat (map sf_code pkts) @ rest" and "c_wr (cl_srv c) = []"
    and "\<forall>p \<in> set pkts. 10 \<le> length p \<and> length p < 256 \<and> even (length p)"
  shows "\<exists>c'. client_loop (length pkts) (\<lambda>_. True) e c = Inr (Continue, c') \<and> flowing (cl_sf c') \<and> c_data (cl_sf c') = rest \<and>
    c_tx (cl_srv c') = c_tx (cl_srv c) @ concat (filter (\<lambda>p. intact (drop 8 p)) pkts)"
  using assms
proof (induction pkts arbitrary: c)
  case (Cons p ps)
  have d: "c_data (cl_sf c) = sf_code p @ concat (map sf_code ps) @ rest" using Cons.prems(2) by simp
  have p: "10 \<le> length p" "length p < 256" "even (length p)" using Cons.prems(4) by simp_all
  from handle_packet_forwards [OF Cons.prems(1) d Cons.prems(3) p, of e] obtain c1 where
    c1: "handle_packet (\<lambda>_. True) e c = Inr (Continue, c1)" "flowing (cl_sf c1)" "c_data (cl_sf c1) = concat (map sf_code ps) @ rest"
      "c_tx (cl_srv c1) = c_tx (cl_srv c) @ (if intact (drop 8 p) then p else [])" by blast
  have "c_wr (cl_srv c1) = []" using handle_packet_wr [OF Cons.prems(3) c1(1)] .
  from Cons.IH [OF c1(2,3) this] Cons.prems(4) obtain c' where
    "client_loop (length ps) (\<lambda>_. True) e c1 = Inr (Continue, c')" "flowing (cl_sf c')" "c_data (cl_sf c') = rest"
    "c_tx (cl_srv c') = c_tx (cl_srv c1) @ concat (filter (\<lambda>p. intact (drop 8 p)) ps)" by auto
  with c1(1,4) show ?case by auto
qed simp

text \<open>
  C26: A sample that was intact when it was sent and was then damaged in a burst of at most 16 bits,
  anywhere in it, its checksum included, is dropped by the client.
\<close>

theorem damaged_sample_dropped:
  assumes "intact (drop 8 sent)" and "length pkt = length sent" and "10 \<le> length pkt" and "length pkt < 256"
    and "flips (drop 8 sent) (drop 8 pkt) = replicate k False @ burst @ replicate l False"
    and "length burst \<le> 16" and "True \<in> set burst"
  shows "dataCorrupt pkt 8 (int (length pkt) - 8) = Inr (- 1)"
proof -
  have "crc_run 0 (drop 8 sent) \<noteq> crc_run 0 (drop 8 pkt)"
    using crc_run_detects_bursts [OF _ assms(5-7)] assms(2) by simp
  moreover have "crc_run 0 (drop 8 sent) = 0" using assms(1-3) intact_residue [of "drop 8 sent"] by simp
  ultimately have "\<not> intact (drop 8 pkt)" using assms(3) intact_residue [of "drop 8 pkt"] by simp
  with dataCorrupt_eq [OF assms(3,4)] show ?thesis by simp
qed

text \<open>
  A packet of fewer than 10 bytes has no room for header and checksum. The client does not test for
  it: the length of the sample goes through an 8-bit counter as a number close to 256, and the checksum
  is computed over memory behind the packet.
\<close>

theorem short_packet_overreads:
  assumes "flowing (cl_sf c)" and "c_data (cl_sf c) = sf_code pkt @ rest" and "length pkt < 10"
  shows "handle_packet (\<lambda>_. True) e c = Inl OutOfBounds"
proof -
  obtain sf where r: "read_sf_packet (\<lambda>_. True) (cl_sf c) = (Some pkt, sf)"
    using read_sf_packet_eq [OF assms(1,2), of "\<lambda>_. True"] assms(3) by auto
  with short_sample_fault [OF assms(3)] show ?thesis by (simp add: handle_packet_def Let_def)
qed

definition client_of :: "u8 list \<Rightarrow> client" where
  "client_of bs = \<lparr>cl_sf = conn_with [RxBytes bs], cl_srv = conn_with [], cl_out = []\<rparr>"

theorem client_forwards_intact_witness:
  "\<exists>c'. handle_packet (\<lambda>_. True) EOTHER (client_of (sf_code [1, 2, 3, 4, 5, 6, 7, 8, 0, 0])) = Inr (Continue, c') \<and>
     c_tx (cl_srv c') = [1, 2, 3, 4, 5, 6, 7, 8, 0, 0]"
proof -
  have "flowing (cl_sf (client_of (sf_code bs)))" "c_data (cl_sf (client_of (sf_code bs))) = sf_code bs"
      "c_wr (cl_srv (client_of (sf_code bs))) = []" "c_tx (cl_srv (client_of (sf_code bs))) = []" for bs
    by (simp_all add: client_of_def conn_with_def flowing_def c_data_def sf_code_def)
  moreover have "intact (drop 8 [1, 2, 3, 4, 5, 6, 7, 8, 0, 0])" by (simp add: intact_def be16_def)
  ultimately show ?thesis
    using client_forwards_intact [of "client_of (sf_code [1, 2, 3, 4, 5, 6, 7, 8, 0, 0])" "[1, 2, 3, 4, 5, 6, 7, 8, 0, 0]" "[]" EOTHER]
    by auto
qed

theorem damaged_sample_dropped_witness:
  "dataCorrupt [1, 2, 3, 4, 5, 6, 7, 8, 0, 1] 8 2 = Inr (- 1)"
proof -
  have "flips (drop 8 [1, 2, 3, 4, 5, 6, 7, 8, 0, 0]) (drop 8 [1, 2, 3, 4, 5, 6, 7, 8, 0, 1]) =
      replicate 15 False @ [True] @ replicate 0 False"
    by (simp add: flips_def packet_bits_def msb_bits_def numeral_eq_Suc)
  from damaged_sample_dropped [OF _ _ _ _ this] show ?thesis by (simp add: intact_def be16_def)
qed

theorem short_packet_overreads_witness:
  "handle_packet (\<lambda>_. True) EOTHER (client_of (sf_code [1, 2, 3])) = Inl OutOfBounds"
  by (rule short_packet_overreads [of _ "[1, 2, 3]" "[]"])
    (simp_all add: client_of_def conn_with_def flowing_def c_data_def sf_code_def)

end
