(* ===== verification/ClientStart.thy ===== *)
theory ClientStart
  imports SensorClient ForwarderStart
begin

section \<open>The sensor client from its start\<close>

text \<open>
  \<open>main\<close> of src/sensor/tgx_sensor_client.c up to its loop, with \<open>open_srv_source\<close> and the signal handler. The
  process forks: the child is the forwarder (theory ForwarderStart), the parent connects to it and to
  the sensor server.
\<close>

subsection \<open>Definitions\<close>

text \<open>
  The answers of the system: the result of \<open>fork\<close>; for both connections whether the socket is created, the
  host found and the connection made; the connections themselves; \<open>errno\<close> at an exit.
\<close>

record client_env =
  ce_pid :: int
  sf_socket :: bool
  sf_found :: bool
  sf_connected :: bool
  sf_conn :: conn
  srv_socket :: bool
  srv_found :: bool
  srv_connected :: bool
  srv_conn :: conn
  exit_errno :: int

definition open_srv_source :: "client_env \<Rightarrow> string \<Rightarrow> int \<Rightarrow> proc \<Rightarrow> int \<times> proc" where
  "open_srv_source env host prt p =
     (let (fd, p) = (if srv_socket env then sys_open Unbound p else (- 1, p)) in
      if fd < 0 then (fd, p)
      else if \<not> srv_found env then (- 1, sys_close fd p)
      else if \<not> srv_connected env then (- 1, sys_close fd p)
      else (fd, p\<lparr>fds := (fds p)(nat fd \<mapsto> Peer host (word_of_int prt))\<rparr>))"

text \<open>\<open>open_sf_source\<close> with its descriptor; it has closed the socket when it fails.\<close>

definition open_sf_fd :: "client_env \<Rightarrow> proc \<Rightarrow> int \<times> conn \<times> proc" where
  "open_sf_fd env p =
     (let (fd, p) = (if sf_socket env then sys_open Unbound p else (- 1, p));
          (r, c) = open_sf_source fd (sf_found env) (sf_connected env) (sf_conn env) in
      (r, c, if r < 0 then sys_close fd p else p\<lparr>fds := (fds p)(nat fd \<mapsto> Peer ''127.0.0.1'' 8989)\<rparr>))"

text \<open>What the process does after the fork: \<open>sf_source\<close>, \<open>srv_source\<close> and \<open>maxfd\<close> of the client.\<close>

datatype client_role = Forwarder_process | Client_process int int int client proc

text \<open>The descriptors are compared with 0 although a failure is \<open>-1\<close>; \<open>FD_SET\<close> then writes outside the set.\<close>

definition client_start :: "client_env \<Rightarrow> string list \<Rightarrow> proc \<Rightarrow> client_role outcome ub" where
  "client_start env argv p =
     (if length argv \<noteq> 3 then Inr (Exits (exit_errno env))
      else if ce_pid env < 0 then Inr (Exits (exit_errno env))
      else if ce_pid env = 0 then Inr (Returns Forwarder_process)
      else
        let (sf_source, c, p) = open_sf_fd env p in
        bind_ub (atoi_ub (argv ! 2)) (\<lambda>prt.
          let (srv_source, p) = open_srv_source env (argv ! 1) prt p in
          if sf_source = 0 \<or> srv_source = 0 then Inr (Exits 0)
          else bind_ub (fd_wait ({}, - 1) sf_source) (\<lambda>_.
            Inr (Returns (Client_process sf_source srv_source (sf_source + 1)
              \<lparr>cl_sf = c, cl_srv = srv_conn env, cl_out = []\<rparr> p)))))"

text \<open>Whom \<open>kill\<close> reaches.\<close>

datatype kill_target = Process int | Own_group | Everyone | Group int

definition kill_target :: "int \<Rightarrow> kill_target" where
  "kill_target pid = (if 0 < pid then Process pid else if pid = 0 then Own_group else if pid = - 1 then Everyone else Group (- pid))"

datatype sig_effect = Prints | Waits | Stops | Kills kill_target | Ends_0

definition client_sig_handler :: "int \<Rightarrow> signo \<Rightarrow> sig_effect list" where
  "client_sig_handler pid s = (case s of
      SIGPIPE \<Rightarrow> [Prints]
    | SIGCHLD \<Rightarrow> [Prints, Waits]
    | SIGINT \<Rightarrow> [Stops, Kills (kill_target pid), Prints, Ends_0]
    | _ \<Rightarrow> [])"

subsection \<open>Properties\<close>

definition forwarder_up :: "client_env \<Rightarrow> bool" where
  "forwarder_up env \<longleftrightarrow> sf_socket env \<and> sf_found env \<and> sf_connected env \<and> 0 \<le> fst (init_sf_source (sf_conn env))"

definition server_up :: "client_env \<Rightarrow> bool" where
  "server_up env \<longleftrightarrow> srv_socket env \<and> srv_found env \<and> srv_connected env"

lemma open_srv_source_eq:
  assumes "dense k p" "k < fd_limit p"
  shows "\<exists>p'. open_srv_source env host prt p = (if server_up env then int k else - 1, p') \<and>
    fds p' = (if server_up env then (fds p)(k \<mapsto> Peer host (word_of_int prt)) else fds p)"
proof -
  have "(fds p)(k := None) = fds p" using assms(1) by (auto simp: dense_def fun_eq_iff)
  then show ?thesis using dense_open(1) [OF assms, of Unbound]
    by (auto simp: open_srv_source_def server_up_def sys_close_def Let_def)
qed

lemma open_sf_fd_eq:
  assumes "dense k p" "k < fd_limit p"
  shows "\<exists>c p'. open_sf_fd env p = (if forwarder_up env then int k else - 1, c, p') \<and> fd_limit p' = fd_limit p \<and>
    (if forwarder_up env then c = snd (init_sf_source (sf_conn env)) \<and> dense (Suc k) p' \<and> fds p' = (fds p)(k \<mapsto> Peer ''127.0.0.1'' 8989)
     else dense k p' \<and> fds p' = fds p)"
proof -
  have n: "(fds p)(k := None) = fds p" using assms(1) by (auto simp: dense_def fun_eq_iff)
  have d: "dense (Suc k) (p\<lparr>fds := (fds p)(k \<mapsto> f), nonblocking := nb\<rparr>)" for f nb using dense_open(2) [OF assms] .
  obtain r c where i: "init_sf_source (sf_conn env) = (r, c)" by fastforce
  show ?thesis using dense_open(1) [OF assms, of Unbound] assms(1) n d i
    by (auto simp: open_sf_fd_def forwarder_up_def open_sf_source_def sys_close_def Let_def dense_def)
qed

lemma refused_write_ends:
  assumes "flowing (cl_sf c)" "c_data (cl_sf c) = sf_code pkt @ rest" "10 \<le> length pkt" "length pkt < 256"
    and "intact (drop 8 pkt)" "c_wr (cl_srv c) = [WrErrno e]" "e \<noteq> EINTR"
  shows "\<exists>c'. handle_packet (\<lambda>_. True) e c = Inr (Exit_0, c')"
proof -
  obtain sf where r: "read_sf_packet (\<lambda>_. True) (cl_sf c) = (Some pkt, sf)"
    using read_sf_packet_eq [OF assms(1,2,4), of "\<lambda>_. True"] by blast
  have "pkt \<noteq> []" using assms(3) by auto
  then have "safewrite (cl_srv c) pkt = (- 1, (cl_srv c)\<lparr>c_wr := []\<rparr>)"
    using assms(6,7) by (simp add: safewrite_def safewrite_loop.simps sock_write_def)
  then show ?thesis
    using r assms(5,7) dataCorrupt_eq [OF assms(3,4)] by (simp add: handle_packet_def print_loop.simps Let_def)
qed

lemma client_start_cases:
  assumes "dense k p" "0 < k" "k + 2 \<le> fd_limit p" "int k < FD_SETSIZE" "atoi_ub prt = Inr n" "0 < ce_pid env"
  shows "\<exists>p'. client_start env [prog, host, prt] p =
      (if forwarder_up env then Inr (Returns (Client_process (int k) (if server_up env then int k + 1 else - 1) (int k + 1)
         \<lparr>cl_sf = snd (init_sf_source (sf_conn env)), cl_srv = srv_conn env, cl_out = []\<rparr> p'))
       else Inl OutOfBounds) \<and>
    (forwarder_up env \<and> server_up env \<longrightarrow>
      fds p' = (fds p)(k \<mapsto> Peer ''127.0.0.1'' 8989, Suc k \<mapsto> Peer host (word_of_int n)))"
proof -
  have k: "k < fd_limit p" using assms(3) by simp
  obtain c p1 where c: "open_sf_fd env p = (if forwarder_up env then int k else - 1, c, p1)" "fd_limit p1 = fd_limit p"
      "if forwarder_up env then c = snd (init_sf_source (sf_conn env)) \<and> dense (Suc k) p1 \<and> fds p1 = (fds p)(k \<mapsto> Peer ''127.0.0.1'' 8989)
       else dense k p1 \<and> fds p1 = fds p"
    using open_sf_fd_eq [OF assms(1) k, of env] by blast
  show ?thesis
  proof (cases "forwarder_up env")
    case True
    have "dense (Suc k) p1" "Suc k < fd_limit p1" using c True assms(3) by simp_all
    from open_srv_source_eq [OF this, of env host n] obtain p2 where
      "open_srv_source env host n p1 = (if server_up env then int (Suc k) else - 1, p2)"
      "fds p2 = (if server_up env then (fds p1)(Suc k \<mapsto> Peer host (word_of_int n)) else fds p1)" by blast
    with True c assms show ?thesis by (intro exI [of _ p2]) (simp add: client_start_def fd_wait_def Let_def)
  next
    case False
    have "dense k p1" "k < fd_limit p1" using c False k by simp_all
    from open_srv_source_eq [OF this, of env host n] obtain p2 where
      "open_srv_source env host n p1 = (if server_up env then int k else - 1, p2)" by blast
    with False c assms show ?thesis by (intro exI [of _ p2]) (simp add: client_start_def fd_wait_def Let_def)
  qed
qed


definition both_up :: "rx_event list \<Rightarrow> client_env" where
  "both_up evs = \<lparr>ce_pid = 4712, sf_socket = True, sf_found = True, sf_connected = True, sf_conn = conn_with evs,
     srv_socket = True, srv_found = True, srv_connected = True, srv_conn = conn_with [], exit_errno = 0\<rparr>"

lemma port_9001: "atoi_ub ''9001'' = Inr 9001"
  by code_simp


subsection \<open>From the start to the packets\<close>

text \<open>
  With a forwarder that answers the handshake the loop starts behind the two bytes of the handshake.
\<close>

lemma client_start_ready:
  assumes "dense k p" "0 < k" "k + 2 \<le> fd_limit p" "int k < FD_SETSIZE" "atoi_ub prt = Inr n" "0 < ce_pid env" "server_up env"
    and "sf_socket env" "sf_found env" "sf_connected env"
    and "flowing (sf_conn env)" "c_wr (sf_conn env) = []" "c_data (sf_conn env) = 0x55 # v # rest" "0x20 \<le> sint v"
  shows "\<exists>c p'. client_start env [prog, host, prt] p = Inr (Returns (Client_process (int k) (int k + 1) (int k + 1) c p')) \<and>
    flowing (cl_sf c) \<and> c_data (cl_sf c) = rest \<and> cl_srv c = srv_conn env"
proof -
  obtain c where c: "init_sf_source (sf_conn env) = (0, c)" "c_data c = rest" "flowing c"
    using init_sf_source_accepts [OF assms(11-13)] assms(14) by auto
  then have "forwarder_up env" using assms(8-10) by (simp add: forwarder_up_def)
  with client_start_cases [OF assms(1-6), of prog host] assms(7) c show ?thesis by auto
qed

text \<open>
  An interrupt that reaches the forwarder process, in which \<open>pid\<close> is 0, is passed on to the whole process group as a
  signal that cannot be caught; in the client it ends the forwarder only.
\<close>

lemma interrupt_kills:
  "Kills t \<in> set (client_sig_handler pid s) \<longleftrightarrow> s = SIGINT \<and> t = kill_target pid"
  "kill_target 0 = Own_group" "0 < pid \<Longrightarrow> kill_target pid = Process pid"
  by (cases s) (auto simp: client_sig_handler_def kill_target_def)

end
