(* ===== verification/TaskQueue.thy ===== *)
theory TaskQueue
  imports Prelude
begin

section \<open>The task queue of the worker pool\<close>

text \<open>
  The queue of src/core/tgx_task.c: nodes on the heap, linked by \<open>next\<close> and \<open>prev\<close>, a counter
  \<open>n_task\<close> beside the two ends, and a semaphore that counts what the workers may take. Locks are
  the business of the scheduler (theory TaskSched). The heap maps live addresses to nodes; a
  \<open>NULL\<close> or dangling dereference is a fault.
\<close>

type_synonym addr = nat

record 't node =
  nd_task :: 't
  nd_next :: "addr option"
  nd_prev :: "addr option"

record 't heap =
  cells :: "addr \<Rightarrow> 't node option"
  brk :: addr

record task_queue =
  qhead :: "addr option"
  qtail :: "addr option"
  resource :: nat
  n_task :: int

subsection \<open>Memory\<close>

definition load :: "'t heap \<Rightarrow> addr option \<Rightarrow> 't node ub" where
  "load h p = (case p of None \<Rightarrow> Inl NullDeref
     | Some a \<Rightarrow> (case cells h a of None \<Rightarrow> Inl UseAfterFree | Some n \<Rightarrow> Inr n))"

definition store :: "'t heap \<Rightarrow> addr option \<Rightarrow> 't node \<Rightarrow> 't heap ub" where
  "store h p n = bind_ub (load h p) (\<lambda>_. Inr (h\<lparr>cells := (cells h)(the p \<mapsto> n)\<rparr>))"

definition free_node :: "'t heap \<Rightarrow> addr option \<Rightarrow> 't heap ub" where
  "free_node h p = bind_ub (load h p) (\<lambda>_. Inr (h\<lparr>cells := (cells h)(the p := None)\<rparr>))"

text \<open>
  \<open>calloc\<close> of a node and the store of its task, as \<open>tgx_post_task\<close> does them; \<open>brk\<close> is the next
  address never used before.
\<close>

definition calloc_node :: "'t heap \<Rightarrow> 't \<Rightarrow> addr \<times> 't heap" where
  "calloc_node h t = (brk h,
     h\<lparr>cells := (cells h)(brk h \<mapsto> \<lparr>nd_task = t, nd_next = None, nd_prev = None\<rparr>), brk := Suc (brk h)\<rparr>)"

subsection \<open>Operations\<close>

definition tgx_task_queue_init :: task_queue where
  "tgx_task_queue_init = \<lparr>qhead = None, qtail = None, resource = 0, n_task = 0\<rparr>"

text \<open>A missing queue or node gives \<open>-1\<close> and changes nothing.\<close>

definition tgx_task_queue_push_back ::
  "'t heap \<Rightarrow> task_queue option \<Rightarrow> addr option \<Rightarrow> (int \<times> 't heap \<times> task_queue option) ub" where
  "tgx_task_queue_push_back h tq t_task_internal = (case (tq, t_task_internal) of
      (Some q, Some a) \<Rightarrow>
        bind_ub
          (if n_task q = 0
           then Inr (h, q\<lparr>qhead := Some a, qtail := Some a\<rparr>)
           else bind_ub (load h (Some a)) (\<lambda>n.
                bind_ub (store h (Some a) (n\<lparr>nd_prev := qtail q\<rparr>)) (\<lambda>h1.
                bind_ub (load h1 (qtail q)) (\<lambda>t.
                bind_ub (store h1 (qtail q) (t\<lparr>nd_next := Some a\<rparr>)) (\<lambda>h2.
                  Inr (h2, q\<lparr>qtail := Some a\<rparr>))))))
          (\<lambda>(h', q').
             bind_ub (load h' (qtail q')) (\<lambda>t.
             bind_ub (store h' (qtail q') (t\<lparr>nd_next := None\<rparr>)) (\<lambda>h''.
               Inr (0, h'', Some (q'\<lparr>n_task := n_task q' + 1\<rparr>)))))
    | _ \<Rightarrow> Inr (- 1, h, tq))"

definition tgx_task_queue_pop_front ::
  "'t heap \<Rightarrow> task_queue option \<Rightarrow> ('t option \<times> 't heap \<times> task_queue option) ub" where
  "tgx_task_queue_pop_front h tq = (case tq of
      None \<Rightarrow> Inr (None, h, tq)
    | Some q \<Rightarrow>
        if n_task q = 0 then Inr (None, h, tq)
        else
          bind_ub
            (if n_task q = 1 then Inr (qtail q, q\<lparr>qhead := None, qtail := None\<rparr>)
             else bind_ub (load h (qhead q)) (\<lambda>n. Inr (qhead q, q\<lparr>qhead := nd_next n\<rparr>)))
            (\<lambda>(p, q').
               bind_ub (load h p) (\<lambda>n.
               bind_ub (free_node h p) (\<lambda>h'.
                 Inr (Some (nd_task n), h', Some (q'\<lparr>n_task := n_task q' - 1\<rparr>))))))"

definition tgx_task_queue_signal :: "task_queue \<Rightarrow> int \<times> task_queue" where
  "tgx_task_queue_signal q = (0, q\<lparr>resource := resource q + 1\<rparr>)"

text \<open>\<open>sem_wait\<close> returns only when it can take a unit; \<open>None\<close> means that it blocks.\<close>

definition tgx_task_queue_wait :: "task_queue \<Rightarrow> (int \<times> task_queue) option" where
  "tgx_task_queue_wait q = (if 0 < resource q then Some (0, q\<lparr>resource := resource q - 1\<rparr>) else None)"

subsection \<open>What the queue holds\<close>

primrec walk :: "'t heap \<Rightarrow> addr option \<Rightarrow> nat \<Rightarrow> 't list" where
  "walk h p 0 = []"
| "walk h p (Suc n) = (case load h p of Inl _ \<Rightarrow> [] | Inr nd \<Rightarrow> nd_task nd # walk h (nd_next nd) n)"

definition items :: "'t heap \<times> task_queue \<Rightarrow> 't list" where
  "items s = walk (fst s) (qhead (snd s)) (nat (n_task (snd s)))"

primrec linked :: "'t heap \<Rightarrow> addr list \<Rightarrow> bool" where
  "linked h [] = True"
| "linked h (a # as) = (\<exists>n. cells h a = Some n \<and> nd_next n = (case as of [] \<Rightarrow> None | b # _ \<Rightarrow> Some b) \<and> linked h as)"

definition spine :: "'t heap \<times> task_queue \<Rightarrow> addr list \<Rightarrow> bool" where
  "spine s as \<longleftrightarrow> distinct as \<and> linked (fst s) as \<and> n_task (snd s) = int (length as) \<and>
     (as \<noteq> [] \<longrightarrow> qhead (snd s) = Some (hd as) \<and> qtail (snd s) = Some (last as)) \<and>
     (\<forall>a. cells (fst s) a \<noteq> None \<longrightarrow> a < brk (fst s))"

definition wf_queue :: "'t heap \<times> task_queue \<Rightarrow> bool" where
  "wf_queue s \<longleftrightarrow> (\<exists>as. spine s as)"

definition task_of :: "'t heap \<Rightarrow> addr \<Rightarrow> 't" where
  "task_of h a = nd_task (the (cells h a))"

lemma linked_cells: "linked h as \<Longrightarrow> a \<in> set as \<Longrightarrow> cells h a \<noteq> None"
  by (induction as) auto

lemma linked_frame:
  "linked h as \<Longrightarrow> (\<And>a. a \<in> set as \<Longrightarrow> cells h' a = cells h a) \<Longrightarrow> linked h' as"
  by (induction as) auto

lemma linked_walk: "linked h as \<Longrightarrow> as \<noteq> [] \<Longrightarrow> walk h (Some (hd as)) (length as) = map (task_of h) as"
proof (induction as)
  case (Cons a as)
  then show ?case by (cases as) (auto simp: load_def task_of_def)
qed simp

lemma spine_items: "spine s as \<Longrightarrow> items s = map (task_of (fst s)) as"
  by (cases "as = []") (auto simp: items_def spine_def linked_walk)

lemma linked_snoc:
  assumes "linked h (as @ [l])" and "distinct (as @ [l])" and "a \<notin> set (as @ [l])"
    and "cells h l = Some n"
    and "cells h' = (cells h)(l \<mapsto> n\<lparr>nd_next := Some a\<rparr>, a \<mapsto> m)" and "nd_next m = None"
  shows "linked h' ((as @ [l]) @ [a])"
  using assms(1-3)
proof (induction as)
  case Nil
  then show ?case using assms(4-6) by auto
next
  case (Cons x as)
  then have "linked h' ((as @ [l]) @ [a])" by auto
  moreover have "cells h' x = cells h x" using Cons.prems assms(5) by auto
  ultimately show ?case using Cons.prems by (cases as) auto
qed

subsection \<open>Adding and taking\<close>

text \<open>What \<open>tgx_post_task\<close> and \<open>do_pthread\<close> do to heap and queue while they hold the lock.\<close>

definition enqueue :: "'t heap \<times> task_queue \<Rightarrow> 't \<Rightarrow> ('t heap \<times> task_queue) ub" where
  "enqueue s t =
     (let (a, h) = calloc_node (fst s) t in
      bind_ub (tgx_task_queue_push_back h (Some (snd s)) (Some a)) (\<lambda>(r, h', tq). Inr (h', the tq)))"

definition dequeue :: "'t heap \<times> task_queue \<Rightarrow> ('t option \<times> 't heap \<times> task_queue) ub" where
  "dequeue s = bind_ub (tgx_task_queue_pop_front (fst s) (Some (snd s))) (\<lambda>(t, h, tq). Inr (t, h, the tq))"

lemma enqueue_spine:
  assumes "spine s as"
  obtains s' where "enqueue s t = Inr s'" "spine s' (as @ [brk (fst s)])"
    "map (task_of (fst s')) (as @ [brk (fst s)]) = map (task_of (fst s)) as @ [t]"
    "resource (snd s') = resource (snd s)"
proof -
  obtain h q where s: "s = (h, q)" by fastforce
  define a where "a = brk h"
  define h1 where "h1 = snd (calloc_node h t)"
  have c: "calloc_node h t = (a, h1)" "brk h1 = Suc a"
      "cells h1 = (cells h)(a \<mapsto> \<lparr>nd_task = t, nd_next = None, nd_prev = None\<rparr>)"
    by (simp_all add: calloc_node_def a_def h1_def)
  have sp: "distinct as" "linked h as" "n_task q = int (length as)" "\<And>b. cells h b \<noteq> None \<Longrightarrow> b < a"
    using assms by (auto simp: spine_def s a_def)
  have fresh: "cells h a = None" "a \<notin> set as" using sp(4) linked_cells [OF sp(2)] by blast+
  show thesis
  proof (cases "as = []")
    case True
    define h2 where "h2 = h1\<lparr>cells := (cells h)(a \<mapsto> \<lparr>nd_task = t, nd_next = None, nd_prev = None\<rparr>)\<rparr>"
    define q' where "q' = q\<lparr>qhead := Some a, qtail := Some a, n_task := n_task q + 1\<rparr>"
    have "enqueue s t = Inr (h2, q')"
      using c sp(3) True
      by (simp add: enqueue_def s h2_def q'_def tgx_task_queue_push_back_def load_def store_def)
    moreover have "spine (h2, q') (as @ [a])"
      using True sp(3,4) c(2) by (auto simp: spine_def h2_def q'_def less_Suc_eq)
    ultimately show thesis using that [of "(h2, q')"] True by (simp add: s a_def h2_def q'_def task_of_def)
  next
    case False
    then obtain as0 l where as: "as = as0 @ [l]" by (cases as rule: rev_cases) auto
    have tail: "qtail q = Some l" "qhead q = Some (hd as)" using assms False by (auto simp: spine_def s as)
    obtain n where n: "cells h l = Some n" using linked_cells [OF sp(2), of l] by (auto simp: as)
    have la: "l \<noteq> a" using fresh(1) n by auto
    define m where "m = \<lparr>nd_task = t, nd_next = None, nd_prev = Some l\<rparr>"
    define h2 where "h2 = h1\<lparr>cells := (cells h)(l \<mapsto> n\<lparr>nd_next := Some a\<rparr>, a \<mapsto> m)\<rparr>"
    define s' where "s' = (h2, q\<lparr>qtail := Some a, n_task := n_task q + 1\<rparr>)"
    have twist: "(cells h)(a \<mapsto> x, l \<mapsto> y, a \<mapsto> z) = (cells h)(l \<mapsto> y, a \<mapsto> z)" for x y z
      using la by (simp add: fun_eq_iff)
    have "enqueue s t = Inr s'"
      using c sp(3) False tail n la
      by (simp add: enqueue_def s s'_def h2_def m_def tgx_task_queue_push_back_def load_def store_def twist)
    moreover have "linked h2 ((as0 @ [l]) @ [a])"
      using sp(1,2) fresh(2) n by (intro linked_snoc [of h as0 l a n h2 m]) (simp_all add: as h2_def m_def)
    then have "linked h2 (as @ [a])" by (simp add: as)
    then have "spine s' (as @ [a])"
      using sp False fresh tail c(2) n by (auto simp: spine_def s'_def h2_def less_Suc_eq hd_append split: if_splits)
    moreover have "map (task_of h2) (as @ [a]) = map (task_of h) as @ [t]"
      using fresh(2) n la by (auto simp: task_of_def h2_def m_def)
    ultimately show thesis using that [of s'] by (auto simp: s a_def s'_def)
  qed
qed

lemma dequeue_spine:
  assumes "spine s as"
  obtains s' where "dequeue s = Inr (case as of [] \<Rightarrow> None | a # _ \<Rightarrow> Some (task_of (fst s) a), s')"
    "spine s' (tl as)" "map (task_of (fst s')) (tl as) = map (task_of (fst s)) (tl as)"
    "resource (snd s') = resource (snd s)"
proof -
  obtain h q where s: "s = (h, q)" by fastforce
  have sp: "distinct as" "linked h as" "n_task q = int (length as)" "\<And>b. cells h b \<noteq> None \<Longrightarrow> b < brk h"
    using assms by (auto simp: spine_def s)
  show thesis
  proof (cases as)
    case Nil
    with assms sp that [of s] show thesis by (simp add: dequeue_def tgx_task_queue_pop_front_def s)
  next
    case (Cons a as')
    from sp(2) obtain n where n: "cells h a = Some n" "nd_next n = (case as' of [] \<Rightarrow> None | b # _ \<Rightarrow> Some b)"
      by (auto simp: Cons)
    define h' where "h' = h\<lparr>cells := (cells h)(a := None)\<rparr>"
    define q' where "q' = (if as' = [] then q\<lparr>qhead := None, qtail := None, n_task := n_task q - 1\<rparr>
        else q\<lparr>qhead := nd_next n, n_task := n_task q - 1\<rparr>)"
    have ends: "qhead q = Some a" "qtail q = Some (last as)" using assms Cons by (auto simp: spine_def s)
    have deq: "dequeue s = Inr (Some (task_of h a), h', q')"
      using sp(3) n ends Cons
      by (simp add: dequeue_def s tgx_task_queue_pop_front_def load_def free_node_def h'_def q'_def task_of_def)
    have "linked h' as'"
    proof (rule linked_frame)
      show "linked h as'" using sp(2) by (auto simp: Cons)
      show "cells h' b = cells h b" if "b \<in> set as'" for b
        using that sp(1) by (auto simp: Cons h'_def)
    qed
    moreover have "as' \<noteq> [] \<longrightarrow> qhead q' = Some (hd as') \<and> qtail q' = Some (last as')"
      using ends n(2) Cons by (cases as') (simp_all add: q'_def)
    moreover have "n_task q' = int (length as')" using sp(3) Cons by (simp add: q'_def)
    moreover have "cells h' b \<noteq> None \<Longrightarrow> b < brk h'" for b
      using sp(4) [of b] by (cases "b = a") (simp_all add: h'_def)
    ultimately have "spine (h', q') as'" using sp(1) Cons by (simp add: spine_def)
    moreover have "map (task_of h') as' = map (task_of h) as'"
      using sp(1) Cons by (auto simp: task_of_def h'_def)
    ultimately show thesis using that [of "(h', q')"] deq Cons by (auto simp: s q'_def)
  qed
qed

subsection \<open>The queue as a FIFO\<close>

text \<open>
  The interface the scheduler relies on: a state with a list of items, an operation that appends
  and one that takes the first.
\<close>

locale fifo =
  fixes inv :: "'s \<Rightarrow> bool"
    and contents :: "'s \<Rightarrow> 't list"
    and put :: "'s \<Rightarrow> 't \<Rightarrow> 's ub"
    and take_first :: "'s \<Rightarrow> ('t option \<times> 's) ub"
  assumes put_ok: "inv s \<Longrightarrow> \<exists>s'. put s t = Inr s' \<and> inv s' \<and> contents s' = contents s @ [t]"
    and take_ok: "inv s \<Longrightarrow> \<exists>s'. take_first s =
        Inr (case contents s of [] \<Rightarrow> None | t # _ \<Rightarrow> Some t, s') \<and> inv s' \<and> contents s' = tl (contents s)"
begin

text \<open>A run of the queue: \<open>Some t\<close> puts \<open>t\<close>, \<open>None\<close> takes; the result lists what was taken.\<close>

primrec run_ops :: "'s \<Rightarrow> 't option list \<Rightarrow> ('t option list \<times> 's) ub" where
  "run_ops s [] = Inr ([], s)"
| "run_ops s (op # ops) = (case op of
       Some t \<Rightarrow> bind_ub (put s t) (\<lambda>s'. run_ops s' ops)
     | None \<Rightarrow> bind_ub (take_first s) (\<lambda>(r, s'). bind_ub (run_ops s' ops) (\<lambda>(rs, s''). Inr (r # rs, s''))))"

primrec spec_ops :: "'t list \<Rightarrow> 't option list \<Rightarrow> 't option list \<times> 't list" where
  "spec_ops xs [] = ([], xs)"
| "spec_ops xs (op # ops) = (case op of
       Some t \<Rightarrow> spec_ops (xs @ [t]) ops
     | None \<Rightarrow> (case xs of
           [] \<Rightarrow> (let (rs, ys) = spec_ops [] ops in (None # rs, ys))
         | x # xs' \<Rightarrow> (let (rs, ys) = spec_ops xs' ops in (Some x # rs, ys))))"

lemma run_ops_refines:
  "inv s \<Longrightarrow> \<exists>s'. run_ops s ops = Inr (fst (spec_ops (contents s) ops), s') \<and> inv s' \<and>
     contents s' = snd (spec_ops (contents s) ops)"
proof (induction ops arbitrary: s)
  case (Cons op ops)
  show ?case
  proof (cases op)
    case (Some t)
    from put_ok [OF Cons.prems, of t] obtain s1 where "put s t = Inr s1" "inv s1" "contents s1 = contents s @ [t]"
      by blast
    with Cons.IH [of s1] Some show ?thesis by simp
  next
    case None
    from take_ok [OF Cons.prems] obtain s1 where
      "take_first s = Inr (case contents s of [] \<Rightarrow> None | t # _ \<Rightarrow> Some t, s1)" "inv s1" "contents s1 = tl (contents s)"
      by blast
    with Cons.IH [of s1] None show ?thesis by (cases "contents s") (auto simp: case_prod_beta)
  qed
qed simp

end

interpretation tq: fifo wf_queue items enqueue dequeue
proof
  fix s :: "'t heap \<times> task_queue" and t :: 't
  assume "wf_queue s"
  then obtain as where as: "spine s as" by (auto simp: wf_queue_def)
  from enqueue_spine [OF this, of t] obtain s' where "enqueue s t = Inr s'" "spine s' (as @ [brk (fst s)])"
    "map (task_of (fst s')) (as @ [brk (fst s)]) = map (task_of (fst s)) as @ [t]" by metis
  then show "\<exists>s'. enqueue s t = Inr s' \<and> wf_queue s' \<and> items s' = items s @ [t]"
    using spine_items [OF as] spine_items [of s'] by (auto simp: wf_queue_def)
next
  fix s :: "'t heap \<times> task_queue"
  assume "wf_queue s"
  then obtain as where as: "spine s as" by (auto simp: wf_queue_def)
  from dequeue_spine [OF this] obtain s' where
    d: "dequeue s = Inr (case as of [] \<Rightarrow> None | a # _ \<Rightarrow> Some (task_of (fst s) a), s')" "spine s' (tl as)"
      "map (task_of (fst s')) (tl as) = map (task_of (fst s)) (tl as)" by metis
  moreover have "items s' = tl (items s)"
    using spine_items [OF as] spine_items [OF d(2)] d(3) by (simp add: map_tl)
  ultimately show "\<exists>s'. dequeue s = Inr (case items s of [] \<Rightarrow> None | t # _ \<Rightarrow> Some t, s') \<and> wf_queue s' \<and>
      items s' = tl (items s)"
    using spine_items [OF as] by (cases as) (auto simp: wf_queue_def)
qed

lemma init_wf: "(\<And>a. cells h a \<noteq> None \<Longrightarrow> a < brk h) \<Longrightarrow> wf_queue (h, tgx_task_queue_init) \<and> items (h, tgx_task_queue_init) = []"
  by (auto simp: wf_queue_def spine_def tgx_task_queue_init_def items_def intro!: exI [of _ "[]"])

text \<open>
  C17: Any sequence of pushes and pops on the linked queue, from the state that
  \<open>tgx_task_queue_init\<close> sets up, gives exactly the results of a mathematical first-in first-out queue,
  never follows a null or dangling pointer, and keeps the representation invariant.
\<close>

theorem task_queue_fifo:
  assumes "\<And>a. cells h a \<noteq> None \<Longrightarrow> a < brk h"
  shows "\<exists>s'. tq.run_ops (h, tgx_task_queue_init) ops = Inr (fst (tq.spec_ops [] ops), s') \<and> wf_queue s' \<and>
    items s' = snd (tq.spec_ops [] ops)"
  using tq.run_ops_refines [of "(h, tgx_task_queue_init)" ops] init_wf [OF assms] by simp

theorem task_queue_fifo_witness:
  "\<exists>s'. tq.run_ops (\<lparr>cells = (\<lambda>_. None), brk = 1\<rparr>, tgx_task_queue_init)
     [Some (5 :: nat), Some 6, None, Some 7, None, None, None] = Inr ([Some 5, Some 6, Some 7, None], s') \<and> items s' = []"
  using task_queue_fifo [of "\<lparr>cells = (\<lambda>_. None), brk = 1\<rparr>" "[Some (5 :: nat), Some 6, None, Some 7, None, None, None]"]
  by auto

end
