(* ===== verification/PidVector.thy ===== *)
theory PidVector
  imports TaskQueue
begin

section \<open>The list of client processes\<close>

text \<open>
  The list the sensor server keeps of its child processes (src/src/sensor/pid_vector.c and
  pid_vector.h): a sentinel node made by \<open>pid_vector_init\<close>, the entries behind it, linked by
  \<open>next\<close> and \<open>prev\<close>, and pointers to both ends. Nodes live on the heap of theory TaskQueue, with
  the entry as their content. A loop over the list that does not end has the value \<open>None\<close>.
\<close>

record pid_info =
  client_fd :: int
  pid :: int
  pipe_r :: int
  pipe_w :: int
  p_id :: int
  p_name :: string

record pid_vector =
  pv_head :: "addr option"
  pv_tail :: "addr option"
  num_process :: int

type_synonym pid_heap = "pid_info heap"

definition PIPE_READER :: int where "PIPE_READER = 1"
definition PIPE_WRITER :: int where "PIPE_WRITER = 2"

definition no_info :: pid_info where
  "no_info = \<lparr>client_fd = 0, pid = 0, pipe_r = 0, pipe_w = 0, p_id = 0, p_name = []\<rparr>"

subsection \<open>Operations\<close>

text \<open>Without memory \<open>log_err\<close> ends the process: \<open>None\<close>.\<close>

definition pid_vector_init :: "bool \<Rightarrow> pid_heap \<Rightarrow> pid_vector \<Rightarrow> (int \<times> pid_heap \<times> pid_vector) option" where
  "pid_vector_init mem h pv =
     (if \<not> mem then None
      else let (a, h') = calloc_node h no_info in Some (0, h', pv\<lparr>pv_head := Some a, pv_tail := Some a\<rparr>))"

definition set_next :: "pid_heap \<Rightarrow> addr option \<Rightarrow> addr option \<Rightarrow> pid_heap ub" where
  "set_next h p x = bind_ub (load h p) (\<lambda>n. store h p (n\<lparr>nd_next := x\<rparr>))"

definition set_prev :: "pid_heap \<Rightarrow> addr option \<Rightarrow> addr option \<Rightarrow> pid_heap ub" where
  "set_prev h p x = bind_ub (load h p) (\<lambda>n. store h p (n\<lparr>nd_prev := x\<rparr>))"

text \<open>
  The four statements that \<open>pid_vector_destroy\<close> and both deletions share: \<open>q->next = p->next\<close>,
  \<open>p->next->prev = p\<close> and \<open>free(q)\<close>.
\<close>

definition unlink_free :: "pid_heap \<Rightarrow> addr option \<Rightarrow> addr option \<Rightarrow> pid_heap ub" where
  "unlink_free h q p =
     bind_ub (load h p) (\<lambda>n. bind_ub (set_next h q (nd_next n)) (\<lambda>h.
     bind_ub (load h p) (\<lambda>n. bind_ub (set_prev h (nd_next n) p) (\<lambda>h. free_node h q))))"

partial_function (option) destroy_loop :: "pid_heap \<Rightarrow> addr option \<Rightarrow> addr option \<Rightarrow> pid_heap ub option" where
  "destroy_loop h q p =
     (if p = None then Some (Inr h)
      else case bind_ub (unlink_free h q p) (\<lambda>h. bind_ub (load h p) (\<lambda>n. Inr (h, nd_next n))) of
        Inl e \<Rightarrow> Some (Inl e)
      | Inr (h', p') \<Rightarrow> destroy_loop h' p' p')"

definition pid_vector_destroy :: "pid_heap \<Rightarrow> pid_vector \<Rightarrow> (pid_heap \<times> pid_vector) ub option" where
  "pid_vector_destroy h pv = (case load h (pv_head pv) of
      Inl e \<Rightarrow> Some (Inl e)
    | Inr n \<Rightarrow> (case destroy_loop h (pv_head pv) (nd_next n) of
        None \<Rightarrow> None
      | Some r \<Rightarrow> Some (bind_ub r (\<lambda>h. bind_ub (free_node h (pv_head pv)) (\<lambda>h.
          Inr (h, pv\<lparr>pv_head := None, pv_tail := None, num_process := 0\<rparr>))))))"

definition pid_vector_query_by_name :: "pid_vector \<Rightarrow> string \<Rightarrow> addr option" where
  "pid_vector_query_by_name pv nm = None"

definition pid_vector_query_by_id :: "pid_vector \<Rightarrow> int \<Rightarrow> addr option" where
  "pid_vector_query_by_id pv i = None"

text \<open>Without an id and without a name the local variable \<open>r\<close> is tested before it was set.\<close>

definition pid_vector_query_pipe :: "pid_heap \<Rightarrow> pid_vector \<Rightarrow> int \<Rightarrow> string option \<Rightarrow> int \<Rightarrow> int ub" where
  "pid_vector_query_pipe h pv i nm flag =
     (let query = (if i \<noteq> - 1 then 2 else 0) + (if nm \<noteq> None then 1 else 0 :: int) in
      bind_ub
        (if query = 1 then Inr (pid_vector_query_by_name pv (the nm))
         else if query = 2 then Inr (pid_vector_query_by_id pv i)
         else if query = 3 then
           (let p = pid_vector_query_by_id pv i in Inr (if p = pid_vector_query_by_name pv (the nm) then p else None))
         else Inl Uninitialised)
        (\<lambda>r. if r = None then Inr (- 1)
             else bind_ub (load h r) (\<lambda>n.
               if flag = PIPE_READER then Inr (pipe_r (nd_task n))
               else if flag = PIPE_WRITER then Inr (pipe_w (nd_task n))
               else Inr (- 1))))"

definition pid_vector_add :: "pid_heap \<Rightarrow> pid_vector option \<Rightarrow> addr option \<Rightarrow> (int \<times> pid_heap \<times> pid_vector option) ub" where
  "pid_vector_add h pv pinfo = (case (pv, pinfo) of
      (Some v, Some a) \<Rightarrow>
        bind_ub (set_next h (pv_tail v) (Some a)) (\<lambda>h.
        bind_ub (set_prev h (Some a) (pv_tail v)) (\<lambda>h.
        bind_ub (set_next h (Some a) None) (\<lambda>h. Inr (0, h, Some (v\<lparr>pv_tail := Some a\<rparr>)))))
    | _ \<Rightarrow> Inr (- 1, h, pv))"

partial_function (option) del_loop ::
  "(pid_info \<Rightarrow> bool) \<Rightarrow> pid_heap \<Rightarrow> addr option \<Rightarrow> addr option \<Rightarrow> (int \<times> pid_heap) ub option" where
  "del_loop hit h q p =
     (if p = None then Some (Inr (- 1, h))
      else case load h p of
        Inl e \<Rightarrow> Some (Inl e)
      | Inr n \<Rightarrow>
          if hit (nd_task n) then Some (bind_ub (unlink_free h q p) (\<lambda>h. Inr (0, h)))
          else del_loop hit h (nd_next n) (nd_next n))"

definition pid_vector_del_by_id :: "pid_heap \<Rightarrow> pid_vector \<Rightarrow> int \<Rightarrow> (int \<times> pid_heap) ub option" where
  "pid_vector_del_by_id h pv i = (case load h (pv_head pv) of
      Inl e \<Rightarrow> Some (Inl e)
    | Inr n \<Rightarrow> del_loop (\<lambda>x. p_id x = i) h (pv_head pv) (nd_next n))"

definition pid_vector_del_by_name :: "pid_heap \<Rightarrow> pid_vector \<Rightarrow> string \<Rightarrow> (int \<times> pid_heap) ub option" where
  "pid_vector_del_by_name h pv nm = (case load h (pv_head pv) of
      Inl e \<Rightarrow> Some (Inl e)
    | Inr n \<Rightarrow> del_loop (\<lambda>x. p_name x = nm) h (pv_head pv) (nd_next n))"

definition pid_vector_del :: "pid_heap \<Rightarrow> pid_vector \<Rightarrow> int \<Rightarrow> string \<Rightarrow> int" where
  "pid_vector_del h pv i nm = 0"

subsection \<open>What the list holds\<close>

text \<open>The nodes of a list in order, the sentinel first.\<close>

definition chain :: "pid_heap \<Rightarrow> pid_vector \<Rightarrow> addr list \<Rightarrow> bool" where
  "chain h pv as \<longleftrightarrow> as \<noteq> [] \<and> distinct as \<and> linked h as \<and> pv_head pv = Some (hd as) \<and> pv_tail pv = Some (last as)"

definition wf_vector :: "pid_heap \<Rightarrow> pid_vector \<Rightarrow> bool" where
  "wf_vector h pv \<longleftrightarrow> (\<exists>as. chain h pv as)"

definition infos :: "pid_heap \<Rightarrow> addr list \<Rightarrow> pid_info list" where
  "infos h as = map (task_of h) (tl as)"

lemma chain_load: "linked h as \<Longrightarrow> a \<in> set as \<Longrightarrow> \<exists>n. load h (Some a) = Inr n \<and> cells h a = Some n"
  using linked_cells [of h as a] by (auto simp: load_def)

lemma set_next_live: "cells h a = Some n \<Longrightarrow> set_next h (Some a) x = Inr (h\<lparr>cells := (cells h)(a \<mapsto> n\<lparr>nd_next := x\<rparr>)\<rparr>)"
  by (simp add: set_next_def load_def store_def)

lemma set_prev_live: "cells h a = Some n \<Longrightarrow> set_prev h (Some a) x = Inr (h\<lparr>cells := (cells h)(a \<mapsto> n\<lparr>nd_prev := x\<rparr>)\<rparr>)"
  by (simp add: set_prev_def load_def store_def)

lemma init_chain:
  assumes "pid_vector_init mem h pv = Some (r, h', pv')"
  shows "chain h' pv' [brk h] \<and> infos h' [brk h] = [] \<and> r = 0"
  using assms by (auto simp: pid_vector_init_def calloc_node_def chain_def infos_def Let_def split: if_splits)

text \<open>Adding a node puts its entry at the end and touches no other.\<close>

lemma add_chain:
  assumes "chain h pv as" "cells h a = Some n" "a \<notin> set as"
  shows "\<exists>h' pv'. pid_vector_add h (Some pv) (Some a) = Inr (0, h', Some pv') \<and> chain h' pv' (as @ [a]) \<and>
           infos h' (as @ [a]) = infos h as @ [nd_task n]"
proof -
  obtain as0 l where as: "as = as0 @ [l]" using assms(1) by (cases as rule: rev_cases) (auto simp: chain_def)
  have ch: "distinct as" "linked h as" "pv_head pv = Some (hd as)" "pv_tail pv = Some l"
    using assms(1) by (auto simp: chain_def as)
  obtain m where m: "cells h l = Some m" using linked_cells [OF ch(2), of l] as by auto
  have la: "l \<noteq> a" using assms(3) as by auto
  let ?h1 = "h\<lparr>cells := (cells h)(l \<mapsto> m\<lparr>nd_next := Some a\<rparr>)\<rparr>"
  let ?n = "n\<lparr>nd_prev := Some l, nd_next := None\<rparr>"
  let ?h = "h\<lparr>cells := (cells h)(l \<mapsto> m\<lparr>nd_next := Some a\<rparr>, a \<mapsto> ?n)\<rparr>"
  have s1: "set_next h (Some l) (Some a) = Inr ?h1" using m by (rule set_next_live)
  have s2: "set_prev ?h1 (Some a) (Some l) = Inr (?h1\<lparr>cells := (cells ?h1)(a \<mapsto> n\<lparr>nd_prev := Some l\<rparr>)\<rparr>)"
    using la assms(2) by (intro set_prev_live) simp
  have s3: "set_next (?h1\<lparr>cells := (cells ?h1)(a \<mapsto> n\<lparr>nd_prev := Some l\<rparr>)\<rparr>) (Some a) None = Inr ?h"
    by (subst set_next_live [where n = "n\<lparr>nd_prev := Some l\<rparr>"]) simp_all
  have add: "pid_vector_add h (Some pv) (Some a) = Inr (0, ?h, Some (pv\<lparr>pv_tail := Some a\<rparr>))"
    using ch(4) s1 s2 s3 by (simp add: pid_vector_add_def)
  have "linked ?h ((as0 @ [l]) @ [a])"
    using ch(1,2) assms(3) m by (intro linked_snoc [of h as0 l a m _ ?n]) (simp_all add: as)
  then have "chain ?h (pv\<lparr>pv_tail := Some a\<rparr>) (as @ [a])"
    using ch as assms(3) by (auto simp: chain_def hd_append)
  moreover have "infos ?h (as @ [a]) = infos h as @ [nd_task n]"
  proof -
    have "tl as \<noteq> [] \<Longrightarrow> set (tl as) \<subseteq> set as" by (cases as) auto
    then have "a \<notin> set (tl as)" using assms(3) by (cases "tl as = []") auto
    moreover have "tl (as @ [a]) = tl as @ [a]" using assms(1) by (cases as) (auto simp: chain_def)
    ultimately show ?thesis using m by (auto simp: infos_def task_of_def)
  qed
  ultimately show ?thesis using add by blast
qed


subsection \<open>Unlinking\<close>

definition hd_opt :: "addr list \<Rightarrow> addr option" where
  "hd_opt as = (case as of [] \<Rightarrow> None | a # _ \<Rightarrow> Some a)"

lemma hd_opt_simps [simp]: "hd_opt [] = None" "hd_opt (a # as) = Some a"
  by (simp_all add: hd_opt_def)

lemma linked_drop: "linked h (us @ vs) \<Longrightarrow> linked h vs"
  by (induction us) auto

lemma linked_at:
  assumes "linked h (us @ a # vs)"
  obtains n where "cells h a = Some n" "nd_next n = hd_opt vs"
proof -
  from linked_drop [OF assms] obtain n where
    "cells h a = Some n" "nd_next n = (case vs of [] \<Rightarrow> None | b # _ \<Rightarrow> Some b)" by auto
  then show thesis using that [of n] by (simp add: hd_opt_def)
qed

text \<open>
  Freeing through \<open>q\<close>: the last entry has no successor whose \<open>prev\<close> could be set; any other
  frees \<open>q\<close> and changes the node behind \<open>p\<close> only.
\<close>

lemma unlink_free_last:
  assumes "cells h p = Some n" "nd_next n = None" "cells h q \<noteq> None"
  shows "unlink_free h (Some q) (Some p) = Inl NullDeref"
proof -
  obtain m where m: "cells h q = Some m" using assms(3) by auto
  have "load (h\<lparr>cells := (cells h)(q \<mapsto> m\<lparr>nd_next := None\<rparr>)\<rparr>) (Some p) = Inr (if p = q then m\<lparr>nd_next := None\<rparr> else n)"
    using assms(1) by (simp add: load_def)
  with assms(1,2) show ?thesis
    by (simp add: unlink_free_def set_next_live [OF m] set_prev_def) (simp add: load_def)
qed

lemma unlink_free_inner:
  assumes "cells h p = Some n" "nd_next n = Some c" "cells h q = Some m" "cells h c = Some k" "c \<noteq> q" "c \<noteq> p"
  shows "\<exists>h'. unlink_free h (Some q) (Some p) = Inr h' \<and> cells h' q = None \<and>
           (\<forall>u. u \<noteq> q \<longrightarrow> u \<noteq> c \<longrightarrow> cells h' u = cells h u) \<and> (\<exists>k'. cells h' c = Some k' \<and> nd_next k' = nd_next k)"
proof -
  let ?h1 = "h\<lparr>cells := (cells h)(q \<mapsto> m\<lparr>nd_next := Some c\<rparr>)\<rparr>"
  let ?h2 = "?h1\<lparr>cells := (cells ?h1)(c \<mapsto> k\<lparr>nd_prev := Some p\<rparr>)\<rparr>"
  have l: "load h (Some p) = Inr n" using assms(1) by (simp add: load_def)
  have l1: "\<exists>n'. load ?h1 (Some p) = Inr n' \<and> nd_next n' = Some c" using assms(1,2) by (simp add: load_def)
  have s1: "set_next h (Some q) (Some c) = Inr ?h1" using assms(3) by (rule set_next_live)
  have s2: "set_prev ?h1 (Some c) (Some p) = Inr ?h2" using assms(4,5) by (intro set_prev_live) simp
  have f: "free_node ?h2 (Some q) = Inr (?h2\<lparr>cells := (cells ?h2)(q := None)\<rparr>)"
    using assms(5) by (simp add: free_node_def load_def)
  from l1 obtain n' where "load ?h1 (Some p) = Inr n'" "nd_next n' = Some c" by blast
  with l s1 s2 f assms(2) have "unlink_free h (Some q) (Some p) = Inr (?h2\<lparr>cells := (cells ?h2)(q := None)\<rparr>)"
    by (simp add: unlink_free_def)
  then show ?thesis using assms(5) by auto
qed

text \<open>A list that runs into a freed node is no list.\<close>

lemma dangling_not_linked:
  assumes "linked h (us @ f # vs)" "\<forall>u \<in> set us. cells h' u = cells h u" "cells h' f = None"
    and "linked h' bs" "bs \<noteq> []" "hd bs = hd (us @ [f])"
  shows False
  using assms
proof (induction us arbitrary: bs)
  case Nil
  then show ?case by (cases bs) auto
next
  case (Cons u us)
  then obtain bs' where bs: "bs = u # bs'" by (cases bs) auto
  obtain n where n: "cells h u = Some n" "nd_next n = Some (hd (us @ [f]))"
    using Cons.prems(1) by (cases us) auto
  with bs Cons.prems(2,4) have "(case bs' of [] \<Rightarrow> None | b # _ \<Rightarrow> Some b) = Some (hd (us @ [f]))" by auto
  then have "bs' \<noteq> []" "hd bs' = hd (us @ [f])" by (auto split: list.splits)
  with Cons bs show ?case by auto
qed

lemma freed_not_wf:
  assumes "chain h pv (us @ f # vs)" "\<forall>u \<in> set us. cells h' u = cells h u" "cells h' f = None"
  shows "\<not> wf_vector h' pv"
  using assms dangling_not_linked [of h us f vs h'] by (cases us) (auto simp: wf_vector_def chain_def)

subsection \<open>Deletion\<close>

lemma del_loop_inner:
  assumes "chain h pv (us @ vs)"
  shows "(\<forall>a \<in> set vs. \<not> hit (task_of h a)) \<and> del_loop hit h (hd_opt vs) (hd_opt vs) = Some (Inr (- 1, h)) \<or>
    (\<exists>a \<in> set vs. hit (task_of h a)) \<and> (del_loop hit h (hd_opt vs) (hd_opt vs) = Some (Inl NullDeref) \<or>
      (\<exists>h'. del_loop hit h (hd_opt vs) (hd_opt vs) = Some (Inr (0, h')) \<and> \<not> wf_vector h' pv))"
  using assms
proof (induction vs arbitrary: us)
  case Nil
  then show ?case by (simp add: del_loop.simps)
next
  case (Cons p vs)
  then have ln: "linked h (us @ p # vs)" "distinct (us @ p # vs)" by (auto simp: chain_def)
  obtain n where n: "cells h p = Some n" "nd_next n = hd_opt vs" using linked_at [OF ln(1)] .
  then have ld: "load h (Some p) = Inr n" and tk: "task_of h p = nd_task n" by (simp_all add: load_def task_of_def)
  show ?case
  proof (cases "hit (nd_task n)")
    case True
    have run: "del_loop hit h (Some p) (Some p) = Some (bind_ub (unlink_free h (Some p) (Some p)) (\<lambda>h. Inr (0, h)))"
      using ld True by (simp add: del_loop.simps)
    show ?thesis
    proof (cases vs)
      case Nil
      then show ?thesis using unlink_free_last [of h p n p] n run True tk by simp
    next
      case (Cons c vs')
      obtain k where k: "cells h c = Some k" using linked_at [of h "us @ [p]" c vs'] ln(1) Cons by auto
      obtain h' where h': "unlink_free h (Some p) (Some p) = Inr h'" "cells h' p = None"
          "\<forall>u. u \<noteq> p \<longrightarrow> u \<noteq> c \<longrightarrow> cells h' u = cells h u"
        using unlink_free_inner [of h p n c p n k] n k ln(2) Cons by auto
      have "\<forall>u \<in> set us. cells h' u = cells h u" using h'(3) ln(2) Cons by auto
      from freed_not_wf [OF Cons.prems this h'(2)] have "\<not> wf_vector h' pv" .
      then show ?thesis using run h'(1) True tk by auto
    qed
  next
    case False
    then have "del_loop hit h (Some p) (Some p) = del_loop hit h (hd_opt vs) (hd_opt vs)"
      using ld n(2) by (subst del_loop.simps) simp
    with Cons.IH [of "us @ [p]"] Cons.prems False tk show ?thesis by auto
  qed
qed


lemma del_outcome:
  assumes "chain h pv (s # as)" "load h (pv_head pv) = Inr n"
  shows "(\<forall>a \<in> set as. \<not> hit (task_of h a)) \<and> del_loop hit h (pv_head pv) (nd_next n) = Some (Inr (- 1, h)) \<or>
    (\<exists>a \<in> set as. hit (task_of h a)) \<and> (del_loop hit h (pv_head pv) (nd_next n) = Some (Inl NullDeref) \<or>
      (\<exists>h'. del_loop hit h (pv_head pv) (nd_next n) = Some (Inr (0, h')) \<and> \<not> wf_vector h' pv))"
proof -
  have hs: "pv_head pv = Some s" and ln: "linked h ([] @ s # as)" "distinct (s # as)" using assms(1) by (auto simp: chain_def)
  have sn: "cells h s = Some n" using assms(2) hs by (auto simp: load_def split: option.splits)
  then have nx: "nd_next n = hd_opt as" using linked_at [OF ln(1)] by auto
  show ?thesis
  proof (cases as)
    case Nil
    then show ?thesis using nx by (simp add: del_loop.simps)
  next
    case (Cons p vs)
    obtain k where k: "cells h p = Some k" "nd_next k = hd_opt vs" using linked_at [of h "[s]" p vs] ln Cons by auto
    then have ld: "load h (Some p) = Inr k" and tk: "task_of h p = nd_task k" by (simp_all add: load_def task_of_def)
    show ?thesis
    proof (cases "hit (nd_task k)")
      case True
      have run: "del_loop hit h (Some s) (Some p) = Some (bind_ub (unlink_free h (Some s) (Some p)) (\<lambda>h. Inr (0, h)))"
        using ld True by (simp add: del_loop.simps)
      show ?thesis
      proof (cases vs)
        case Nil
        then show ?thesis using unlink_free_last [of h p k s] k sn run True tk hs nx \<open>as = p # vs\<close> by simp
      next
        case (Cons c vs')
        obtain j where j: "cells h c = Some j" using linked_at [of h "[s, p]" c vs'] ln Cons \<open>as = p # vs\<close> by auto
        obtain h' where h': "unlink_free h (Some s) (Some p) = Inr h'" "cells h' s = None"
          using unlink_free_inner [of h p k c s n j] k j sn ln(2) Cons \<open>as = p # vs\<close> by auto
        have "\<not> wf_vector h' pv" using freed_not_wf [of h pv "[]" s as h'] assms(1) h'(2) by simp
        then show ?thesis using run h'(1) True tk hs nx \<open>as = p # vs\<close> by auto
      qed
    next
      case False
      then have "del_loop hit h (Some s) (Some p) = del_loop hit h (hd_opt vs) (hd_opt vs)"
        using ld k(2) by (subst del_loop.simps) simp
      with del_loop_inner [of h pv "[s, p]" vs hit] assms(1) False tk hs nx Cons show ?thesis by auto
    qed
  qed
qed

text \<open>
  Deleting by id does nothing and returns \<open>-1\<close> when no entry has the id. When
  one has, it never works: either the code dereferences the null successor of the last entry, or it
  frees a node the list still points to and returns 0 with a broken list.
\<close>

theorem pid_vector_del_outcome:
  assumes "chain h pv as"
  shows "i \<notin> p_id ` set (infos h as) \<and> pid_vector_del_by_id h pv i = Some (Inr (- 1, h)) \<or>
    i \<in> p_id ` set (infos h as) \<and> (pid_vector_del_by_id h pv i = Some (Inl NullDeref) \<or>
      (\<exists>h'. pid_vector_del_by_id h pv i = Some (Inr (0, h')) \<and> \<not> wf_vector h' pv))"
proof -
  obtain s as' where as: "as = s # as'" using assms by (cases as) (auto simp: chain_def)
  obtain n where n: "load h (pv_head pv) = Inr n" using assms as by (auto simp: chain_def load_def)
  have "i \<in> p_id ` set (infos h as) \<longleftrightarrow> (\<exists>a \<in> set as'. p_id (task_of h a) = i)" by (auto simp: infos_def as)
  then show ?thesis
    using del_outcome [OF assms [unfolded as] n, of "\<lambda>x. p_id x = i"] n by (auto simp: pid_vector_del_by_id_def)
qed

subsection \<open>Destroying the list\<close>

text \<open>
  Destroying an empty list frees its sentinel. Destroying any other list is a
  fault: the loop dereferences the null successor of the last entry or reads an entry it has freed.
\<close>

theorem pid_vector_destroy_outcome:
  assumes "chain h pv (s # as)"
  shows "(as = [] \<longrightarrow> pid_vector_destroy h pv =
            Some (Inr (h\<lparr>cells := (cells h)(s := None)\<rparr>, pv\<lparr>pv_head := None, pv_tail := None, num_process := 0\<rparr>))) \<and>
         (as \<noteq> [] \<longrightarrow> pid_vector_destroy h pv \<in> {Some (Inl NullDeref), Some (Inl UseAfterFree)})"
proof -
  have hs: "pv_head pv = Some s" and ln: "linked h ([] @ s # as)" "distinct (s # as)" using assms by (auto simp: chain_def)
  obtain n where n: "cells h s = Some n" "nd_next n = hd_opt as" using linked_at [OF ln(1)] .
  then have ld: "load h (pv_head pv) = Inr n" using hs by (simp add: load_def)
  show ?thesis
  proof (cases as)
    case Nil
    then show ?thesis using ld n hs by (simp add: pid_vector_destroy_def destroy_loop.simps free_node_def)
  next
    case (Cons p vs)
    have start: "pid_vector_destroy h pv = (case destroy_loop h (Some s) (Some p) of None \<Rightarrow> None
        | Some r \<Rightarrow> Some (bind_ub r (\<lambda>h. bind_ub (free_node h (pv_head pv)) (\<lambda>h.
            Inr (h, pv\<lparr>pv_head := None, pv_tail := None, num_process := 0\<rparr>)))))"
      using ld n(2) Cons hs by (simp add: pid_vector_destroy_def)
    obtain k where k: "cells h p = Some k" "nd_next k = hd_opt vs" using linked_at [of h "[s]" p vs] ln Cons by auto
    show ?thesis
    proof (cases vs)
      case Nil
      then show ?thesis using start unlink_free_last [of h p k s] k n \<open>as = p # vs\<close> by (simp add: destroy_loop.simps)
    next
      case (Cons c vs')
      obtain j where j: "cells h c = Some j" "nd_next j = hd_opt vs'"
        using linked_at [of h "[s, p]" c vs'] ln Cons \<open>as = p # vs\<close> by auto
      obtain h' j' where h': "unlink_free h (Some s) (Some p) = Inr h'" "\<forall>u. u \<noteq> s \<longrightarrow> u \<noteq> c \<longrightarrow> cells h' u = cells h u"
          "cells h' c = Some j'" "nd_next j' = nd_next j"
        using unlink_free_inner [of h p k c s n j] k j n ln(2) Cons \<open>as = p # vs\<close> by auto
      have "cells h' p = Some k" using h'(2) k(1) ln(2) Cons \<open>as = p # vs\<close> by auto
      then have one: "destroy_loop h (Some s) (Some p) = destroy_loop h' (Some c) (Some c)"
        using h'(1) k(2) Cons by (subst destroy_loop.simps) (simp add: load_def)
      have two: "destroy_loop h' (Some c) (Some c) \<in> {Some (Inl NullDeref), Some (Inl UseAfterFree)}"
      proof (cases vs')
        case Nil
        then show ?thesis using unlink_free_last [of h' c j' c] h'(3,4) j(2) by (simp add: destroy_loop.simps)
      next
        case (Cons d ws)
        obtain m where m: "cells h d = Some m"
          using linked_at [of h "[s, p, c]" d ws] ln Cons \<open>as = p # vs\<close> \<open>vs = c # vs'\<close> by auto
        have "cells h' d = Some m" using h'(2) m ln(2) Cons \<open>as = p # vs\<close> \<open>vs = c # vs'\<close> by auto
        then obtain h'' where "unlink_free h' (Some c) (Some c) = Inr h''" "cells h'' c = None"
          using unlink_free_inner [of h' c j' d c j' m] h'(3,4) j(2) ln(2) Cons \<open>as = p # vs\<close> \<open>vs = c # vs'\<close> by auto
        then show ?thesis by (simp add: destroy_loop.simps load_def)
      qed
      then show ?thesis using start one \<open>as = p # vs\<close> by auto
    qed
  qed
qed


text \<open>A list of two entries.\<close>

definition two_entries :: pid_heap where
  "two_entries = \<lparr>cells = [0 \<mapsto> \<lparr>nd_task = no_info, nd_next = Some 1, nd_prev = None\<rparr>,
     1 \<mapsto> \<lparr>nd_task = no_info\<lparr>p_id := 7\<rparr>, nd_next = Some 2, nd_prev = Some 0\<rparr>,
     2 \<mapsto> \<lparr>nd_task = no_info\<lparr>p_id := 8\<rparr>, nd_next = None, nd_prev = Some 1\<rparr>], brk = 3\<rparr>"

definition two_vector :: pid_vector where
  "two_vector = \<lparr>pv_head = Some 0, pv_tail = Some 2, num_process = 0\<rparr>"

lemma two_chain: "chain two_entries two_vector [0, 1, 2]" "infos two_entries [0, 1, 2] = [no_info\<lparr>p_id := 7\<rparr>, no_info\<lparr>p_id := 8\<rparr>]"
  by (simp_all add: chain_def two_entries_def two_vector_def infos_def task_of_def)

theorem pid_vector_del_outcome_witness:
  "7 \<in> p_id ` set (infos two_entries [0, 1, 2]) \<and> (pid_vector_del_by_id two_entries two_vector 7 = Some (Inl NullDeref) \<or>
     (\<exists>h'. pid_vector_del_by_id two_entries two_vector 7 = Some (Inr (0, h')) \<and> \<not> wf_vector h' two_vector))"
  using pid_vector_del_outcome [OF two_chain(1), of 7] two_chain(2) by auto

theorem pid_vector_destroy_outcome_witness:
  "pid_vector_destroy two_entries two_vector \<in> {Some (Inl NullDeref), Some (Inl UseAfterFree)}"
  using pid_vector_destroy_outcome [OF two_chain(1)] by simp

lemma pid_vector_query_pipe_outcome:
  "pid_vector_query_pipe h pv i nm flag = (if i = - 1 \<and> nm = None then Inl Uninitialised else Inr (- 1))"
  by (simp add: pid_vector_query_pipe_def pid_vector_query_by_id_def pid_vector_query_by_name_def Let_def)

end
