(* ===== verification/DbConnector.thy ===== *)
theory DbConnector
  imports CString Complex_Main
begin

section \<open>The database connector\<close>

text \<open>
  The functions that write samples to the database and read them back
  (src/src/db/db_connector/src/in.c, out.c and get_connect_handle.c, with the structures of
  include/sensor.h). The MySQL library is outside the repository: what it answers to a command is an
  argument of every function, and the commands sent are recorded. Doubles are real numbers without
  rounding, or one of the two values arithmetic can leave them with.
\<close>

datatype double = NaN | Infinite | Fin real

subsection \<open>Printing\<close>

definition fmt_d :: "int \<Rightarrow> string" where
  "fmt_d n = (if n < 0 then CHR ''-'' # decimal (nat (- n)) else decimal (nat n))"

definition pad6 :: "nat \<Rightarrow> string" where
  "pad6 n = replicate (6 - length (decimal n)) (CHR ''0'') @ decimal n"

text \<open>\<open>%f\<close> and \<open>%lf\<close>: six digits after the point.\<close>

definition fmt_f :: "double \<Rightarrow> string" where
  "fmt_f x = (case x of
      NaN \<Rightarrow> ''-nan''
    | Infinite \<Rightarrow> ''inf''
    | Fin r \<Rightarrow> let n = nat (round (\<bar>r\<bar> * 1000000)) in
        (if r < 0 then ''-'' else []) @ decimal (n div 1000000) @ ''.'' @ pad6 (n mod 1000000))"

lemma pad6_length: "n < 1000000 \<Longrightarrow> length (pad6 n) = 6"
  using decimal_length [of n 6] by (simp add: pad6_def)

lemma fmt_f_nat: "fmt_f (Fin (real n)) = decimal n @ ''.000000''"
proof -
  have "\<bar>real n\<bar> * 1000000 = real (n * 1000000)" by simp
  then have "nat (round (\<bar>real n\<bar> * 1000000)) = n * 1000000" by (simp only: round_of_nat nat_int)
  moreover have "pad6 0 = ''000000''" by code_simp
  ultimately show ?thesis by (simp add: fmt_f_def)
qed

lemma fmt_f_length:
  assumes "\<bar>r\<bar> < 999"
  shows "length (fmt_f (Fin r)) \<le> 11"
proof -
  define n where "n = nat (round (\<bar>r\<bar> * 1000000))"
  have "round (\<bar>r\<bar> * 1000000) \<le> round (999 * 1000000 :: real)" using assms by (intro round_mono) simp
  also have "round (999 * 1000000 :: real) = 999000000" using round_of_int [of 999000000] by simp
  finally have "n \<le> 999000000" by (simp add: n_def)
  then have "n div 1000000 < 10 ^ 3" by simp
  then have "length (decimal (n div 1000000)) \<le> 3" by (rule decimal_length) simp
  moreover have "length (pad6 (n mod 1000000)) = 6" by (rule pad6_length) simp
  ultimately show ?thesis by (simp add: fmt_f_def Let_def n_def [symmetric] del: abs_of_neg abs_of_nonneg split del: if_split)
      (simp split: if_splits)
qed

subsection \<open>Data\<close>

definition DB_COMMAND_LENGTH :: nat where "DB_COMMAND_LENGTH = 200"
definition NETWORK_FLUSH_TIMEOUT :: int where "NETWORK_FLUSH_TIMEOUT = 50"
definition DB_NO_VALUE :: int where "DB_NO_VALUE = - 1004"

record node_t =
  nt_network_id :: int
  nt_network_name :: string
  nt_node_id :: int
  nt_parent_id :: int
  nt_work_state :: string
  nt_node_status :: string
  nt_power :: int
  nt_x :: double
  nt_y :: double

record sensor_t =
  st_network_id :: int
  st_network_name :: string
  st_node_id :: int
  st_temp :: double
  st_photo :: double
  st_sound :: double
  st_x_acc :: double
  st_y_acc :: double
  st_x_mag :: double
  st_y_mag :: double
  st_time :: string

record network_t =
  wt_network_id :: int
  wt_network_name :: string
  wt_node_id :: int
  wt_parent_id :: int
  wt_quality :: int

definition node_zero :: node_t where
  "node_zero = \<lparr>nt_network_id = 0, nt_network_name = [], nt_node_id = 0, nt_parent_id = 0, nt_work_state = [],
     nt_node_status = [], nt_power = 0, nt_x = Fin 0, nt_y = Fin 0\<rparr>"

definition sensor_zero :: sensor_t where
  "sensor_zero = \<lparr>st_network_id = 0, st_network_name = [], st_node_id = 0, st_temp = Fin 0, st_photo = Fin 0,
     st_sound = Fin 0, st_x_acc = Fin 0, st_y_acc = Fin 0, st_x_mag = Fin 0, st_y_mag = Fin 0, st_time = []\<rparr>"

definition network_zero :: network_t where
  "network_zero = \<lparr>wt_network_id = 0, wt_network_name = [], wt_node_id = 0, wt_parent_id = 0, wt_quality = 0\<rparr>"

text \<open>
  What the library answers to one command: the code of \<open>mysql_real_query\<close>, the number of affected
  rows, the stored result (rows of fields, a field may be \<open>NULL\<close>), the field count, and the codes
  of the following calls of \<open>mysql_next_result\<close>, which ends with \<open>-1\<close>.
\<close>

record reply =
  rp_ret :: int
  rp_affected :: int
  rp_rows :: "string option list list option"
  rp_field_count :: nat
  rp_next :: "int list"

type_synonym mysql = "string \<Rightarrow> reply"

subsection \<open>Writing\<close>

text \<open>The result of a writing function: its return value and the command it sent, if any.\<close>

definition send :: "mysql \<Rightarrow> string \<Rightarrow> (int \<times> string list) ub" where
  "send db text = bind_ub (put_str DB_COMMAND_LENGTH text) (\<lambda>command.
     Inr (if rp_ret (db command) \<noteq> 0 then - 1 else 0, [command]))"

text \<open>The text of a call of a stored procedure.\<close>

fun commas :: "string list \<Rightarrow> string" where
  "commas [] = []"
| "commas [a] = a"
| "commas (a # as) = a @ '','' @ commas as"

definition call :: "string \<Rightarrow> string list \<Rightarrow> string" where
  "call f args = ''call '' @ f @ ''('' @ commas args @ '')''"

definition quoted :: "string \<Rightarrow> string" where
  "quoted s = CHR 0x27 # s @ [CHR 0x27]"

definition update_node_info :: "mysql \<Rightarrow> node_t \<Rightarrow> (int \<times> string list) ub" where
  "update_node_info db info =
     (if nt_node_id info = DB_NO_VALUE then Inr (- 1, [])
      else send db (call ''sp_update_node_info''
             [quoted (nt_network_name info), fmt_d (nt_node_id info), quoted (nt_work_state info), quoted (nt_node_status info),
              fmt_d (nt_power info), ''point('' @ commas [fmt_f (nt_x info), fmt_f (nt_y info)] @ '')'']))"

definition update_network :: "mysql \<Rightarrow> network_t \<Rightarrow> (int \<times> string list) ub" where
  "update_network db info =
     send db (call ''sp_update_network''
       [quoted (wt_network_name info), fmt_d (wt_node_id info), fmt_d (wt_parent_id info), fmt_d (wt_quality info)])"

definition insert_sense_record :: "mysql \<Rightarrow> sensor_t \<Rightarrow> (int \<times> string list) ub" where
  "insert_sense_record db info =
     (if st_node_id info = DB_NO_VALUE then Inr (- 1, [])
      else send db (call ''sp_insert_sense_record''
             [quoted (st_network_name info), fmt_d (st_node_id info), fmt_f (st_temp info), fmt_f (st_photo info),
              fmt_f (st_sound info), fmt_f (st_x_acc info), fmt_f (st_y_acc info), fmt_f (st_x_mag info), fmt_f (st_y_mag info),
              ''NULL'', ''NULL'', ''NULL'', ''NULL'']))"

subsection \<open>Connecting\<close>

record db_connect_info =
  ci_host :: string
  ci_user :: string
  ci_password :: string
  ci_db_name :: string

definition fill_connect_info :: db_connect_info where
  "fill_connect_info = \<lparr>ci_host = ''10.18.46.169'', ci_user = ''tinyos'', ci_password = ''njjizyj0826'', ci_db_name = ''tinyos''\<rparr>"

text \<open>Whether \<open>mysql_init\<close> and \<open>mysql_real_connect\<close> work is the library's answer; the second value says that
  the handle was closed.\<close>

definition get_db_handler :: "bool \<Rightarrow> (db_connect_info \<Rightarrow> bool) \<Rightarrow> int \<times> bool" where
  "get_db_handler init_ok connect =
     (if \<not> init_ok then (- 1, False) else if \<not> connect fill_connect_info then (- 1, True) else (0, False))"

subsection \<open>Reading\<close>

definition column :: "string option list \<Rightarrow> nat \<Rightarrow> string ub" where
  "column row k = bind_ub (peek row (int k)) (\<lambda>f. case f of None \<Rightarrow> Inl NullDeref | Some t \<Rightarrow> Inr t)"

definition int_column :: "string option list \<Rightarrow> nat \<Rightarrow> int ub" where
  "int_column row k = bind_ub (column row k) atoi_ub"

text \<open>\<open>strcpy\<close> of a column into an array of the structure.\<close>

definition str_column :: "nat \<Rightarrow> string option list \<Rightarrow> nat \<Rightarrow> string ub" where
  "str_column cap row k = bind_ub (column row k) (put_str cap)"

definition double_column :: "(string \<Rightarrow> double) \<Rightarrow> string option list \<Rightarrow> nat \<Rightarrow> double ub" where
  "double_column strtod row k = bind_ub (column row k) (\<lambda>t. Inr (strtod t))"

text \<open>The loop over the rows: row \<open>i\<close> goes into \<open>info[i]\<close>, whether or not the array has that element.\<close>

primrec fetch :: "(string option list \<Rightarrow> 'r \<Rightarrow> 'r ub) \<Rightarrow> string option list list \<Rightarrow> 'r list \<Rightarrow> nat \<Rightarrow> ('r list \<times> nat) ub" where
  "fetch conv [] info i = Inr (info, i)"
| "fetch conv (row # rows) info i =
     bind_ub (peek info (int i)) (\<lambda>r. bind_ub (conv row r) (\<lambda>r. bind_ub (poke info (int i) r) (\<lambda>info.
       fetch conv rows info (i + 1))))"

text \<open>The final loop, which only reports errors: the code \<open>mysql_next_result\<close> ended with.\<close>

primrec next_results :: "int list \<Rightarrow> int" where
  "next_results [] = - 1"
| "next_results (r # rs) = (if r = 0 then next_results rs else r)"

text \<open>What all readers but the first have in common: an affected row counts as an error.\<close>

definition read_rows :: "mysql \<Rightarrow> string \<Rightarrow> (string option list \<Rightarrow> 'r \<Rightarrow> 'r ub) \<Rightarrow> 'r list \<Rightarrow> (int \<times> 'r list) ub" where
  "read_rows db text conv info = bind_ub (put_str DB_COMMAND_LENGTH text) (\<lambda>command.
     let r = db command in
     if rp_ret r \<noteq> 0 then Inr (- 1, info)
     else if rp_affected r \<ge> 1 then Inr (- 1, info)
     else (case rp_rows r of
       None \<Rightarrow> Inr (- 1, info)
     | Some rows \<Rightarrow> bind_ub (fetch conv rows info 0) (\<lambda>(info, i).
         let _ = next_results (rp_next r) in Inr (int i, info))))"

definition node_row :: "(string \<Rightarrow> double) \<Rightarrow> string option list \<Rightarrow> node_t \<Rightarrow> node_t ub" where
  "node_row strtod row n =
     bind_ub (int_column row 0) (\<lambda>network_id.
     bind_ub (int_column row 2) (\<lambda>node_id.
     bind_ub (int_column row 3) (\<lambda>parent_id.
     bind_ub (int_column row 6) (\<lambda>power.
     bind_ub (double_column strtod row 7) (\<lambda>x.
     bind_ub (double_column strtod row 8) (\<lambda>y.
     bind_ub (str_column 50 row 1) (\<lambda>name.
     bind_ub (str_column 50 row 4) (\<lambda>work.
     bind_ub (str_column 50 row 5) (\<lambda>status.
       Inr \<lparr>nt_network_id = network_id, nt_network_name = name, nt_node_id = node_id, nt_parent_id = parent_id,
            nt_work_state = work, nt_node_status = status, nt_power = power, nt_x = x, nt_y = y\<rparr>)))))))))"

text \<open>This reader takes a missing result for an empty one when the command has no columns.\<close>

definition get_all_node_info :: "mysql \<Rightarrow> (string \<Rightarrow> double) \<Rightarrow> node_t list \<Rightarrow> (int \<times> node_t list) ub" where
  "get_all_node_info db strtod info =
     bind_ub (put_str DB_COMMAND_LENGTH (call ''sp_get_all_node_info'' [fmt_d NETWORK_FLUSH_TIMEOUT])) (\<lambda>command.
     let r = db command in
     if rp_ret r \<noteq> 0 then Inr (- 1, info)
     else (case rp_rows r of
       None \<Rightarrow> if rp_field_count r = 0 then Inr (0, info) else Inr (- 1, info)
     | Some rows \<Rightarrow> bind_ub (fetch (node_row strtod) rows info 0) (\<lambda>(info, i).
         let _ = next_results (rp_next r) in Inr (int i, info))))"

definition network_row :: "string option list \<Rightarrow> network_t \<Rightarrow> network_t ub" where
  "network_row row n =
     bind_ub (int_column row 0) (\<lambda>network_id.
     bind_ub (int_column row 2) (\<lambda>node_id.
     bind_ub (int_column row 3) (\<lambda>parent_id.
     bind_ub (int_column row 4) (\<lambda>quality.
     bind_ub (str_column 50 row 1) (\<lambda>name.
       Inr \<lparr>wt_network_id = network_id, wt_network_name = name, wt_node_id = node_id, wt_parent_id = parent_id,
            wt_quality = quality\<rparr>)))))"

definition get_network_info :: "mysql \<Rightarrow> network_t list \<Rightarrow> (int \<times> network_t list) ub" where
  "get_network_info db info = read_rows db (call ''sp_get_network_info'' [fmt_d NETWORK_FLUSH_TIMEOUT]) network_row info"

definition record_row :: "(string \<Rightarrow> double) \<Rightarrow> string option list \<Rightarrow> sensor_t \<Rightarrow> sensor_t ub" where
  "record_row strtod row r =
     bind_ub (int_column row 0) (\<lambda>network_id.
     bind_ub (int_column row 2) (\<lambda>node_id.
     bind_ub (double_column strtod row 3) (\<lambda>temp.
     bind_ub (double_column strtod row 4) (\<lambda>photo.
     bind_ub (double_column strtod row 5) (\<lambda>sound.
     bind_ub (double_column strtod row 6) (\<lambda>x_acc.
     bind_ub (double_column strtod row 7) (\<lambda>y_acc.
     bind_ub (double_column strtod row 8) (\<lambda>x_mag.
     bind_ub (double_column strtod row 9) (\<lambda>y_mag.
     bind_ub (str_column 50 row 1) (\<lambda>name.
     bind_ub (str_column 50 row 14) (\<lambda>time.
       Inr \<lparr>st_network_id = network_id, st_network_name = name, st_node_id = node_id, st_temp = temp, st_photo = photo,
            st_sound = sound, st_x_acc = x_acc, st_y_acc = y_acc, st_x_mag = x_mag, st_y_mag = y_mag, st_time = time\<rparr>)))))))))))"

definition get_all_record :: "mysql \<Rightarrow> (string \<Rightarrow> double) \<Rightarrow> sensor_t list \<Rightarrow> (int \<times> sensor_t list) ub" where
  "get_all_record db strtod info = read_rows db (call ''sp_get_all_record'' []) (record_row strtod) info"

text \<open>The three readers of one sensor put its value into \<open>temp\<close>, whichever sensor it is.\<close>

definition value_row :: "(string \<Rightarrow> double) \<Rightarrow> string option list \<Rightarrow> sensor_t \<Rightarrow> sensor_t ub" where
  "value_row strtod row r =
     bind_ub (double_column strtod row 0) (\<lambda>temp.
     bind_ub (str_column 50 row 1) (\<lambda>time. Inr (r\<lparr>st_temp := temp, st_time := time\<rparr>)))"

definition get_latest_record ::
  "mysql \<Rightarrow> (string \<Rightarrow> double) \<Rightarrow> sensor_t list \<Rightarrow> string \<Rightarrow> int \<Rightarrow> string \<Rightarrow> (int \<times> sensor_t list) ub" where
  "get_latest_record db strtod info net_name nod_id sense =
     read_rows db (call ''sp_get_latest_record'' [quoted net_name, fmt_d nod_id, quoted sense]) (value_row strtod) info"

definition get_relative_record ::
  "mysql \<Rightarrow> (string \<Rightarrow> double) \<Rightarrow> sensor_t list \<Rightarrow> string \<Rightarrow> int \<Rightarrow> string \<Rightarrow> string \<Rightarrow> int \<Rightarrow> (int \<times> sensor_t list) ub" where
  "get_relative_record db strtod info net_name nod_id sensor start_time record_num =
     read_rows db (call ''sp_get_relative_record'' [quoted net_name, fmt_d nod_id, quoted sensor, start_time, fmt_d record_num])
       (value_row strtod) info"

definition get_absolute_record ::
  "mysql \<Rightarrow> (string \<Rightarrow> double) \<Rightarrow> sensor_t list \<Rightarrow> string \<Rightarrow> int \<Rightarrow> string \<Rightarrow> string \<Rightarrow> string \<Rightarrow> (int \<times> sensor_t list) ub" where
  "get_absolute_record db strtod info net_name nod_id sense start_time end_time =
     read_rows db (call ''sp_get_absolute_record'' [quoted net_name, fmt_d nod_id, quoted sense, quoted start_time, quoted end_time])
       (value_row strtod) info"

text \<open>
  The two counters: the last row wins, and the variable keeps its old value when there is no row.
  They are given and return the variable.
\<close>

primrec fetch_count :: "string option list list \<Rightarrow> int \<Rightarrow> int ub" where
  "fetch_count [] n = Inr n"
| "fetch_count (row # rows) n = bind_ub (int_column row 0) (fetch_count rows)"

definition read_count :: "mysql \<Rightarrow> string \<Rightarrow> int \<Rightarrow> (int \<times> int) ub" where
  "read_count db text n = bind_ub (put_str DB_COMMAND_LENGTH text) (\<lambda>command.
     let r = db command in
     if rp_ret r \<noteq> 0 then Inr (- 1, n)
     else if rp_affected r \<ge> 1 then Inr (- 1, n)
     else (case rp_rows r of
       None \<Rightarrow> Inr (- 1, n)
     | Some rows \<Rightarrow> bind_ub (fetch_count rows n) (\<lambda>n. let _ = next_results (rp_next r) in Inr (0, n))))"

definition get_all_node_num :: "mysql \<Rightarrow> int \<Rightarrow> (int \<times> int) ub" where
  "get_all_node_num db node_num = read_count db ''select count(*) from viw_node'' node_num"

definition get_absolute_record_num :: "mysql \<Rightarrow> string \<Rightarrow> int \<Rightarrow> string \<Rightarrow> string \<Rightarrow> int \<Rightarrow> (int \<times> int) ub" where
  "get_absolute_record_num db net_name nod_id start_time end_time record_num =
     read_count db (call ''sp_get_absolute_record_num'' [quoted net_name, fmt_d nod_id, quoted start_time, quoted end_time]) record_num"

subsection \<open>What the readers return\<close>

lemma fetch_rows:
  assumes "length rows + i \<le> length info" "\<forall>k < length rows. conv (rows ! k) (info ! (i + k)) = Inr (out ! k)"
    and "length out = length rows"
  shows "fetch conv rows info i = Inr (take i info @ out @ drop (i + length rows) info, i + length rows)"
  using assms
proof (induction rows arbitrary: info i out)
  case (Cons row rows)
  obtain x xs where out: "out = x # xs" using Cons.prems(3) by (cases out) auto
  have i: "i < length info" using Cons.prems(1) by simp
  have x: "conv row (info ! i) = Inr x" using Cons.prems(2) out by force
  have rest: "conv (rows ! k) (info[i := x] ! (i + 1 + k)) = Inr (xs ! k)" if "k < length rows" for k
    using Cons.prems(2) [rule_format, of "Suc k"] that out by simp
  have "fetch conv (row # rows) info i = fetch conv rows (info[i := x]) (i + 1)" using i x by simp
  also have "\<dots> = Inr (take (i + 1) (info[i := x]) @ xs @ drop (i + 1 + length rows) (info[i := x]), i + 1 + length rows)"
    using Cons.prems(1,3) rest out by (intro Cons.IH) auto
  also have "take (i + 1) (info[i := x]) = take i info @ [x]" using i by (simp add: take_Suc_conv_app_nth)
  finally show ?case by (simp add: out)
qed simp

text \<open>One row too many leaves the array.\<close>

lemma fetch_overflow:
  assumes "length info < length rows + i" "i \<le> length info"
  shows "\<exists>e. fetch conv rows info i = Inl e"
  using assms
proof (induction rows arbitrary: info i)
  case (Cons row rows)
  show ?case
  proof (cases "i = length info")
    case True
    then show ?thesis by (simp add: peek_def)
  next
    case False
    then have i: "i < length info" using Cons.prems(2) by simp
    show ?thesis
    proof (cases "conv row (info ! i)")
      case (Inr x)
      with i Cons.IH [of "info[i := x]" "i + 1"] Cons.prems show ?thesis by simp
    qed (use i in simp)
  qed
qed simp

end
