(* ===== verification/SensorServer.thy ===== *)
theory SensorServer
  imports PidVector SensorMsg DbConnector
begin

section \<open>The sensor server\<close>

text \<open>
  The server of src/src/sensor/tgx_sensor_server.c. The parent process accepts sensor clients,
  forks a child for each and keeps a list of them (theory PidVector); a child reads what its client
  sends and writes every message to the database (theories SensorMsg and DbConnector); commands that
  arrive on a datagram socket are split into words. The answers of the operating system and of the
  database are arguments.
\<close>

definition MAX_BUFF_LENGTH :: nat where "MAX_BUFF_LENGTH = 1024"

subsection \<open>Temperatures\<close>

text \<open>The conversion of a \<open>double\<close> to the \<open>int\<close> that \<open>abs\<close> takes drops the fraction.\<close>

definition trunc_int :: "real \<Rightarrow> int" where
  "trunc_int r = (if r < 0 then - \<lfloor>- r\<rfloor> else \<lfloor>r\<rfloor>)"

text \<open>
  The logarithm of a negative number is no number; that of zero is negative infinity, whose
  reciprocal is zero.
\<close>

definition Celsius :: "real \<Rightarrow> double" where
  "Celsius ADC =
     (if real_of_int \<bar>trunc_int (ADC - 0)\<bar> < 1 / 1000000 then Fin 0
      else let Rthr = 10000 * (1023 - ADC) / ADC in
        if Rthr < 0 then NaN
        else if Rthr = 0 then Fin (- 273.15)
        else let d = 0.00130705 + 0.000214381 * ln Rthr + 0.000000093 * ln Rthr ^ 3 in
          if d = 0 then Infinite else Fin (1 / d - 273.15))"

text \<open>
  The function of the same name in src/sensor/tgx_sensor_client.c, which has no test for zero: there the
  resistance is infinite and the reciprocal zero.
\<close>

definition client_Celsius :: "real \<Rightarrow> double" where
  "client_Celsius ADC =
     (if ADC = 0 then Fin (- 273.15)
      else let Rthr = 10000 * (1023 - ADC) / ADC in
        if Rthr < 0 then NaN
        else if Rthr = 0 then Fin (- 273.15)
        else let d = 0.00130705 + 0.000214381 * ln Rthr + 0.000000093 * ln Rthr ^ 3 in
          if d = 0 then Infinite else Fin (1 / d - 273.15))"

text \<open>The client prints what the server stores, except for a reading of zero.\<close>

lemma client_Celsius_eq: "client_Celsius (real n) = (if n = 0 then Fin (- 273.15) else Celsius (real n))"
proof -
  have "\<not> real_of_int \<bar>trunc_int (real n)\<bar> < 1 / 1000000" if "n \<noteq> 0" using that by (simp add: trunc_int_def)
  then show ?thesis by (simp add: client_Celsius_def Celsius_def)
qed

subsection \<open>One message\<close>

definition of_u16 :: "u16 \<Rightarrow> double" where
  "of_u16 w = Fin (real (unat w))"

text \<open>
  The message starts eight bytes into the buffer, behind the header of the serial packet, but gets
  the length of the whole. Missing arguments give \<open>-1\<close>; what the three database functions return is not looked at.
\<close>

definition insert_mesg_to_db ::
  "failenv \<Rightarrow> bool \<Rightarrow> mysql option \<Rightarrow> u8 list option \<Rightarrow> int \<Rightarrow> string option \<Rightarrow> (int \<times> string list) ub" where
  "insert_mesg_to_db env mem mysql msg len network_name = (case (network_name, mysql, msg) of
      (Some nm, Some db, Some m) \<Rightarrow>
        if len < 0 then Inr (- 1, [])
        else (case new_tmsg mem (drop 8 m) (word_of_int len) of
          None \<Rightarrow> Inl NullDeref
        | Some t \<Rightarrow>
            bind_ub (put_str 50 nm) (\<lambda>nm.
            bind_ub (sensor_msg_nodeId_get env t) (\<lambda>(env, node).
            bind_ub (sensor_msg_parentId_get env t) (\<lambda>(env, parent).
            bind_ub (sensor_msg_position_x_get env t) (\<lambda>(env, px).
            bind_ub (sensor_msg_position_y_get env t) (\<lambda>(env, py).
            let isRoot = (uint node = 0);
                node_info = node_zero\<lparr>nt_network_name := nm, nt_node_id := uint node, nt_parent_id := uint parent,
                  nt_x := of_u16 px, nt_y := of_u16 py\<rparr> in
            bind_ub (sensor_msg_nodeId_get env t) (\<lambda>(env, node).
            bind_ub (sensor_msg_sensor_temp_get env t) (\<lambda>(env, temp).
            bind_ub (sensor_msg_sensor_photo_get env t) (\<lambda>(env, photo).
            bind_ub (sensor_msg_sensor_sound_get env t) (\<lambda>(env, sound).
            bind_ub (sensor_msg_sensor_x_acc_get env t) (\<lambda>(env, xacc).
            bind_ub (sensor_msg_sensor_y_acc_get env t) (\<lambda>(env, yacc).
            bind_ub (sensor_msg_sensor_x_mag_get env t) (\<lambda>(env, xmag).
            bind_ub (sensor_msg_sensor_y_mag_get env t) (\<lambda>(env, ymag).
            let sensor_info = sensor_zero\<lparr>st_network_name := nm, st_node_id := uint node,
                  st_temp := Celsius (real (unat temp)), st_photo := of_u16 photo, st_sound := of_u16 sound,
                  st_x_acc := of_u16 xacc, st_y_acc := of_u16 yacc, st_x_mag := of_u16 xmag, st_y_mag := of_u16 ymag\<rparr> in
            bind_ub (sensor_msg_nodeId_get env t) (\<lambda>(env, node).
            bind_ub (sensor_msg_parentId_get env t) (\<lambda>(env, parent).
            let network_info = network_zero\<lparr>wt_network_name := nm, wt_node_id := uint node, wt_parent_id := uint parent\<rparr> in
            bind_ub (update_node_info db node_info) (\<lambda>(_, q1).
            bind_ub (if \<not> isRoot then insert_sense_record db sensor_info else Inr (0, [])) (\<lambda>(_, q2).
            bind_ub (update_network db network_info) (\<lambda>(_, q3).
              Inr (0, q1 @ q2 @ q3))))))))))))))))))))
    | _ \<Rightarrow> Inr (- 1, []))"

subsection \<open>The child process\<close>

datatype sock_read = Got "u8 list" | Interrupted | Failed

text \<open>
  The loop of the child over what \<open>read\<close> returns; one read gives at most \<open>MAX_BUFF_LENGTH\<close> bytes,
  and none at the end of the stream.
  The result is the exit code, or \<open>None\<close> while the child waits for more, with the buffer and the
  commands sent to the database.
\<close>

primrec child_loop ::
  "failenv \<Rightarrow> (nat \<Rightarrow> bool) \<Rightarrow> mysql \<Rightarrow> string \<Rightarrow> int \<Rightarrow> sock_read list \<Rightarrow> u8 list \<Rightarrow> nat \<Rightarrow> (int option \<times> u8 list \<times> string list) ub" where
  "child_loop env mem db netname errno [] msg n = Inr (None, msg, [])"
| "child_loop env mem db netname errno (r # rs) msg n = (case r of
      Interrupted \<Rightarrow> child_loop env mem db netname errno rs msg n
    | Failed \<Rightarrow> Inr (Some errno, msg, [])
    | Got d \<Rightarrow>
        let d = take MAX_BUFF_LENGTH d; msg = d @ drop (length d) msg in
        if d = [] then Inr (Some 0, msg, [])
        else bind_ub (insert_mesg_to_db env (mem n) (Some db) (Some msg) (int (length d)) (Some netname)) (\<lambda>(_, q).
        bind_ub (child_loop env mem db netname errno rs msg (Suc n)) (\<lambda>(e, msg, qs).
          Inr (e, msg, q @ qs))))"


subsection \<open>Splitting a command into words\<close>

text \<open>
  \<open>str_to_argc_argv\<close>: the three loops read the character before they look at the length, and the
  first does not look at the length at all. \<open>argv\<close> is an array of arrays filled with zeros.
\<close>

function skip_leading :: "char list \<Rightarrow> int \<Rightarrow> int ub" where
  "skip_leading str p = bind_ub (peek str p) (\<lambda>c. if c = CHR '' '' then skip_leading str (p + 1) else Inr p)"
  by pat_completeness auto
termination
  by (relation "measure (\<lambda>(str, p). nat (int (length str) - p))") (auto simp: peek_def split: if_splits)

function copy_word :: "char list \<Rightarrow> int \<Rightarrow> int \<Rightarrow> int \<Rightarrow> char list \<Rightarrow> (int \<times> char list) ub" where
  "copy_word str len p j row = bind_ub (peek str p) (\<lambda>c.
     if c \<noteq> CHR '' '' \<and> p < len then bind_ub (poke row j c) (\<lambda>row. copy_word str len (p + 1) (j + 1) row) else Inr (p, row))"
  by pat_completeness auto
termination
  by (relation "measure (\<lambda>(str, len, p, j, row). nat (int (length str) - p))") (auto simp: peek_def split: if_splits)

function skip_spaces :: "char list \<Rightarrow> int \<Rightarrow> int \<Rightarrow> int ub" where
  "skip_spaces str len p = bind_ub (peek str p) (\<lambda>c. if c = CHR '' '' \<and> p < len then skip_spaces str len (p + 1) else Inr p)"
  by pat_completeness auto
termination
  by (relation "measure (\<lambda>(str, len, p). nat (int (length str) - p))") (auto simp: peek_def split: if_splits)

declare skip_leading.simps [simp del] copy_word.simps [simp del] skip_spaces.simps [simp del]

lemma copy_word_forward:
  "copy_word str len p j row = Inr (p', row') \<Longrightarrow> p \<le> p' \<and> (p < len \<longrightarrow> p' = p \<longrightarrow> peek str p = Inr (CHR '' ''))"
proof (induction str len p j row rule: copy_word.induct)
  case (1 str len p j row)
  from "1.prems" obtain c where c: "peek str p = Inr c" by (subst (asm) copy_word.simps) (auto simp: bind_ub_eq_Inr)
  show ?case
  proof (cases "c \<noteq> CHR '' '' \<and> p < len")
    case True
    with "1.prems" c obtain r where r: "poke row j c = Inr r" "copy_word str len (p + 1) (j + 1) r = Inr (p', row')"
      by (subst (asm) copy_word.simps) (auto simp: bind_ub_eq_Inr)
    from "1.IH" [OF c True r] show ?thesis by auto
  next
    case False
    with "1.prems" c show ?thesis by (subst (asm) copy_word.simps) auto
  qed
qed

lemma skip_spaces_forward:
  "skip_spaces str len p = Inr p' \<Longrightarrow> p \<le> p' \<and> (p < len \<longrightarrow> peek str p = Inr (CHR '' '') \<longrightarrow> p < p')"
proof (induction str len p rule: skip_spaces.induct)
  case (1 str len p)
  from "1.prems" obtain c where c: "peek str p = Inr c" by (subst (asm) skip_spaces.simps) (auto simp: bind_ub_eq_Inr)
  show ?case
  proof (cases "c = CHR '' '' \<and> p < len")
    case True
    with "1.prems" c have "skip_spaces str len (p + 1) = Inr p'" by (subst (asm) skip_spaces.simps) simp
    from "1.IH" [OF c True this] show ?thesis by auto
  next
    case False
    with "1.prems" c show ?thesis by (subst (asm) skip_spaces.simps) auto
  qed
qed

function split_words :: "char list \<Rightarrow> int \<Rightarrow> int \<Rightarrow> nat \<Rightarrow> char list list \<Rightarrow> (nat \<times> char list list) ub" where
  "split_words str len p i argv =
     (if p < len then
        bind_ub (peek argv (int i)) (\<lambda>row.
        bind_ub (copy_word str len p 0 row) (\<lambda>(q, row).
        bind_ub (skip_spaces str len q) (\<lambda>q'. split_words str len q' (i + 1) (argv[i := row]))))
      else Inr (i, argv))"
  by pat_completeness auto
termination
proof (relation "measure (\<lambda>(str, len, p, i, argv). nat (len - p))", goal_cases)
  case (2 str len p i argv row qr q row' q')
  then have "p \<le> q" "q \<le> q'" "q' \<noteq> p"
    using copy_word_forward [of str len p 0 row q row'] skip_spaces_forward [of str len q q'] by auto
  with 2(1) show ?case by auto
qed simp

declare split_words.simps [simp del]

definition str_to_argc_argv :: "char list \<Rightarrow> int \<Rightarrow> char list list \<Rightarrow> (nat \<times> char list list) ub" where
  "str_to_argc_argv str len argv = bind_ub (skip_leading str 0) (\<lambda>p. split_words str len p 0 argv)"

text \<open>The words of a text, as a reference.\<close>

function words :: "string \<Rightarrow> string list" where
  "words [] = []"
| "words (c # cs) = (if c = CHR '' '' then words cs else (c # takeWhile (\<lambda>x. x \<noteq> CHR '' '') cs) # words (dropWhile (\<lambda>x. x \<noteq> CHR '' '') cs))"
  by pat_completeness auto
termination
  by (relation "measure length") (auto simp: length_dropWhile_le le_imp_less_Suc)

subsection \<open>Reading a sample behind the header\<close>

lemma peek_append: "peek xs i = Inr b \<Longrightarrow> peek (xs @ ys) i = Inr b"
  by (auto simp: peek_def nth_append split: if_splits)

text \<open>A field that lies in a block reads the same when more bytes follow the block.\<close>

lemma read_ube_loop_append: "read_ube_loop data bo n x = Inr r \<Longrightarrow> read_ube_loop (data @ ext') bo n x = Inr r"
proof (induction data bo n x rule: read_ube_loop.induct)
  case (1 data bo n x)
  show ?case
  proof (cases "8 \<le> n")
    case True
    with "1.prems" obtain b y where b: "peek data (int bo) = Inr b" "shl64 (ucast b) (n - 8) = Inr y"
        "read_ube_loop data (bo + 1) (n - 8) (x OR y) = Inr r"
      by (subst (asm) read_ube_loop.simps) (auto simp: bind_ub_eq_Inr)
    from "1.IH" [OF True b(1,2,3)] b(1,2) True show ?thesis
      by (subst read_ube_loop.simps) (simp add: peek_append)
  next
    case False
    with "1.prems" show ?thesis
      by (subst (asm) read_ube_loop.simps, subst read_ube_loop.simps)
        (auto simp: bind_ub_eq_Inr peek_append split: if_splits)
  qed
qed

lemma read_ube_field_append: "read_ube_field data off n = Inr r \<Longrightarrow> read_ube_field (data @ ext') off n = Inr r"
  by (auto simp: read_ube_field_def Let_def bind_ub_eq_Inr peek_append read_ube_loop_append split: if_splits)

lemma tmsg_read_ube_longer:
  assumes "tmsg_read_ube env \<lparr>msg_data = bytes, msg_len = 24\<rparr> off 16 = Inr (env, x)" "off \<le> 176"
    and "24 \<le> L" "L \<le> 1024"
  shows "tmsg_read_ube env \<lparr>msg_data = bytes @ ext', msg_len = L\<rparr> off 16 = Inr (env, x)"
proof -
  have o: "unat off \<le> 176" and l: "24 \<le> unat L" "unat L \<le> 1024" using assms(2-4) by (simp_all add: word_le_nat_alt)
  have a: "unat (off + 16) = unat off + 16" using o by (simp add: unat_word_ariths)
  have b: "unat (L * 8) = unat L * 8" using l by (simp add: unat_word_ariths)
  have "off + 16 \<le> 24 * 8" "off + 16 \<le> L * 8" using a b o l by (simp_all add: word_le_nat_alt)
  with assms(1) show ?thesis
    by (auto simp: tmsg_read_ube_def boundsp_def Let_def bind_ub_eq_Inr dest: read_ube_field_append)
qed

lemma ret_u16_longer:
  assumes "ret_u16 (tmsg_read_ube env \<lparr>msg_data = bytes, msg_len = 24\<rparr> off 16) = Inr (env, x)" "off \<le> 176"
    and "24 \<le> L" "L \<le> 1024"
  shows "ret_u16 (tmsg_read_ube env \<lparr>msg_data = bytes @ ext', msg_len = L\<rparr> off 16) = Inr (env, x)"
proof -
  obtain y where "tmsg_read_ube env \<lparr>msg_data = bytes, msg_len = 24\<rparr> off 16 = Inr (env, y)" "x = ucast y"
    using assms(1) by (auto simp: ret_u16_def bind_ub_eq_Inr)
  with tmsg_read_ube_longer [OF _ assms(2-4), of env bytes y ext'] show ?thesis by (simp add: ret_u16_def)
qed

text \<open>The sample that 24 bytes hold.\<close>

definition holds_sample :: "failenv \<Rightarrow> u8 list \<Rightarrow> sample \<Rightarrow> bool" where
  "holds_sample env bytes s \<longleftrightarrow> length bytes = SENSOR_MSG_SIZE \<and>
     sensor_msg_parse env \<lparr>msg_data = bytes, msg_len = of_nat SENSOR_MSG_SIZE\<rparr> = Inr (env, s)"

lemma tmsg_read_ube_env:
  assumes "tmsg_read_ube env \<lparr>msg_data = bytes, msg_len = 24\<rparr> off 16 = Inr (env', x)" "off \<le> 176"
  shows "env' = env"
proof -
  have "unat off \<le> 176" using assms(2) by (simp add: word_le_nat_alt)
  then have "off + 16 \<le> 24 * 8" by (simp add: word_le_nat_alt unat_word_ariths)
  with assms(1) show ?thesis by (auto simp: tmsg_read_ube_def boundsp_def Let_def bind_ub_eq_Inr)
qed

lemma ret_u16_env:
  "ret_u16 (tmsg_read_ube env \<lparr>msg_data = bytes, msg_len = 24\<rparr> off 16) = Inr (env', x) \<Longrightarrow> off \<le> 176 \<Longrightarrow> env' = env"
  using tmsg_read_ube_env [of env bytes off env'] by (auto simp: ret_u16_def bind_ub_eq_Inr)

lemma ret_u16_step:
  assumes "bind_ub (ret_u16 (tmsg_read_ube env \<lparr>msg_data = bytes, msg_len = 24\<rparr> off 16)) k = Inr z" "off \<le> 176"
  obtains x where "ret_u16 (tmsg_read_ube env \<lparr>msg_data = bytes, msg_len = 24\<rparr> off 16) = Inr (env, x)" "k (env, x) = Inr z"
proof -
  from assms(1) obtain env' x where
    "ret_u16 (tmsg_read_ube env \<lparr>msg_data = bytes, msg_len = 24\<rparr> off 16) = Inr (env', x)" "k (env', x) = Inr z"
    by (auto simp: bind_ub_eq_Inr)
  with that ret_u16_env [OF _ assms(2)] show thesis by metis
qed

lemma sample_gets:
  fixes ext' :: "u8 list"
  assumes "holds_sample env bytes s" "24 \<le> L" "L \<le> 1024"
  defines "m \<equiv> \<lparr>msg_data = bytes @ ext', msg_len = L\<rparr>"
  shows "sensor_msg_nodeId_get env m = Inr (env, s_node s)" "sensor_msg_parentId_get env m = Inr (env, s_parent s)"
    "sensor_msg_position_x_get env m = Inr (env, s_px s)" "sensor_msg_position_y_get env m = Inr (env, s_py s)"
    "sensor_msg_sensor_temp_get env m = Inr (env, s_temp s)" "sensor_msg_sensor_photo_get env m = Inr (env, s_photo s)"
    "sensor_msg_sensor_sound_get env m = Inr (env, s_sound s)" "sensor_msg_sensor_x_acc_get env m = Inr (env, s_xacc s)"
    "sensor_msg_sensor_y_acc_get env m = Inr (env, s_yacc s)" "sensor_msg_sensor_x_mag_get env m = Inr (env, s_xmag s)"
    "sensor_msg_sensor_y_mag_get env m = Inr (env, s_ymag s)"
proof -
  let ?g = "\<lambda>off. ret_u16 (tmsg_read_ube env \<lparr>msg_data = bytes, msg_len = 24\<rparr> off 16)"
  have p: "?g 0 = Inr (env, s_node s)" "?g 16 = Inr (env, s_parent s)" "?g 32 = Inr (env, s_px s)" "?g 48 = Inr (env, s_py s)"
    "?g 64 = Inr (env, s_temp s)" "?g 80 = Inr (env, s_photo s)" "?g 96 = Inr (env, s_sound s)" "?g 112 = Inr (env, s_xacc s)"
    "?g 128 = Inr (env, s_yacc s)" "?g 144 = Inr (env, s_xmag s)" "?g 160 = Inr (env, s_ymag s)"
    using assms(1)
    by (simp_all only: holds_sample_def SENSOR_MSG_SIZE_def sensor_msg_parse_def sensor_msg_get_defs of_nat_numeral)
      (elim conjE ret_u16_step; auto)+
  show "sensor_msg_nodeId_get env m = Inr (env, s_node s)" "sensor_msg_parentId_get env m = Inr (env, s_parent s)"
    "sensor_msg_position_x_get env m = Inr (env, s_px s)" "sensor_msg_position_y_get env m = Inr (env, s_py s)"
    "sensor_msg_sensor_temp_get env m = Inr (env, s_temp s)" "sensor_msg_sensor_photo_get env m = Inr (env, s_photo s)"
    "sensor_msg_sensor_sound_get env m = Inr (env, s_sound s)" "sensor_msg_sensor_x_acc_get env m = Inr (env, s_xacc s)"
    "sensor_msg_sensor_y_acc_get env m = Inr (env, s_yacc s)" "sensor_msg_sensor_x_mag_get env m = Inr (env, s_xmag s)"
    "sensor_msg_sensor_y_mag_get env m = Inr (env, s_ymag s)"
    using p [THEN ret_u16_longer, OF _ assms(2,3), of ext'] by (simp_all add: sensor_msg_get_defs m_def)
qed


subsection \<open>The commands fit\<close>

lemma decimal_u16: "length (decimal (unat (w :: u16))) \<le> 5"
proof -
  have "unat w < 2 ^ 16" using unsigned_less [of w] by simp
  then have "unat w < 10 ^ 5" by simp
  then show ?thesis by (rule decimal_length) simp
qed

lemma of_u16_text: "fmt_f (of_u16 w) = decimal (unat w) @ ''.000000''"
  by (simp only: of_u16_def fmt_f_nat)

lemma fmt_uint: "fmt_d (uint (w :: u16)) = decimal (unat w)"
  using uint_ge_0 [of w] by (simp add: fmt_d_def not_less)

text \<open>Every temperature lies between absolute zero and less than 500 degrees.\<close>

lemma Celsius_finite:
  assumes "1 \<le> n" "n \<le> 1022"
  shows "\<exists>t. Celsius (real n) = Fin t \<and> - 273.15 < t \<and> t < 500"
proof -
  define R where "R = 10000 * (1023 - real n) / real n"
  define d where "d = 0.00130705 + 0.000214381 * ln R + 0.000000093 * ln R ^ 3"
  have "real n * 1 \<le> 10000 * (1023 - real n)" using assms by simp
  then have R: "1 \<le> R" using assms by (simp add: R_def le_divide_eq)
  then have "0 \<le> ln R" by simp
  then have d: "0.00130705 \<le> d" by (simp add: d_def)
  have nz: "\<not> real_of_int \<bar>trunc_int (real n)\<bar> < 1 / 1000000" using assms by (simp add: trunc_int_def)
  have c: "Celsius (real n) = Fin (1 / d - 273.15)"
  proof -
    have "\<not> R < 0" "R \<noteq> 0" "d \<noteq> 0" using R d by auto
    then show ?thesis
      by (simp only: Celsius_def Let_def diff_0_right nz if_False R_def [symmetric] d_def [symmetric])
  qed
  have "0 < 1 / d" using d by simp
  moreover have "1 / d \<le> 1 / 0.00130705" using d by (intro divide_left_mono) simp_all
  ultimately show ?thesis using c by auto
qed

text \<open>
  On the working range of the converter a higher reading always means a higher
  temperature, between absolute zero and 500 degrees.
\<close>

theorem celsius_monotone:
  assumes "1 \<le> m" "m < n" "n \<le> 1022"
  shows "\<exists>t u. Celsius (real m) = Fin t \<and> Celsius (real n) = Fin u \<and> - 273.15 < t \<and> t < u \<and> u < 500"
proof -
  define R where "R k = 10000 * (1023 - real k) / real k" for k
  define d where "d k = 0.00130705 + 0.000214381 * ln (R k) + 0.000000093 * ln (R k) ^ 3" for k
  obtain t u where t: "Celsius (real m) = Fin t" "- 273.15 < t" and u: "Celsius (real n) = Fin u" "u < 500"
    using Celsius_finite [of m] Celsius_finite [of n] assms by auto
  have R: "1 \<le> R k" if "1 \<le> k" "k \<le> 1022" for k
  proof -
    have "real k * 1 \<le> 10000 * (1023 - real k)" using that by simp
    then show ?thesis using that by (simp add: R_def le_divide_eq)
  qed
  have fin: "Celsius (real k) = Fin (1 / d k - 273.15)" "0 < d k" if "1 \<le> k" "k \<le> 1022" for k
  proof -
    have nz: "\<not> real_of_int \<bar>trunc_int (real k)\<bar> < 1 / 1000000" using that by (simp add: trunc_int_def)
    have "0 \<le> ln (R k)" using R [OF that] by simp
    then show dk: "0 < d k" by (simp add: d_def add_pos_nonneg)
    have "\<not> R k < 0" "R k \<noteq> 0" "d k \<noteq> 0" using R [OF that] dk by auto
    then show "Celsius (real k) = Fin (1 / d k - 273.15)"
      by (simp only: Celsius_def Let_def diff_0_right nz if_False R_def [symmetric] d_def [symmetric])
  qed
  have "R n < R m" using assms by (simp add: R_def field_simps)
  then have "ln (R n) < ln (R m)" "0 \<le> ln (R n)" using R [of n] R [of m] assms by simp_all
  then have "ln (R n) ^ 3 < ln (R m) ^ 3" by (intro power_strict_mono) simp_all
  then have "d n < d m" using \<open>ln (R n) < ln (R m)\<close> by (simp add: d_def)
  then have "1 / d m < 1 / d n" using fin(2) [of n] fin(2) [of m] assms by (intro divide_strict_left_mono) simp_all
  then have "t < u" using fin(1) [of m] fin(1) [of n] t(1) u(1) assms by simp
  with t u show ?thesis by blast
qed

theorem celsius_monotone_witness:
  "\<exists>t u. Celsius (real 400) = Fin t \<and> Celsius (real 500) = Fin u \<and> - 273.15 < t \<and> t < u \<and> u < 500"
  by (rule celsius_monotone) simp_all

lemma Celsius_text: "length (fmt_f (Celsius (real n))) \<le> 11"
proof (cases "n = 0")
  case True
  then show ?thesis using fmt_f_length [of 0] by (simp add: Celsius_def trunc_int_def)
next
  case False
  then have nz: "\<not> real_of_int \<bar>trunc_int (real n)\<bar> < 1 / 1000000" by (simp add: trunc_int_def)
  show ?thesis
  proof (cases "n < 1023")
    case True
    with False obtain t where "Celsius (real n) = Fin t" "\<bar>t\<bar> < 999" using Celsius_finite [of n] by force
    then show ?thesis using fmt_f_length by simp
  next
    case ge: False
    show ?thesis
    proof (cases "n = 1023")
      case True
      then show ?thesis using nz fmt_f_length [of "- 273.15"] by (simp add: Celsius_def)
    next
      case False
      with ge have "10000 * (1023 - real n) / real n < 0" by (intro divide_neg_pos) simp_all
      then show ?thesis using nz by (simp add: Celsius_def Let_def fmt_f_def)
    qed
  qed
qed

text \<open>The texts of the three commands for a sample.\<close>

definition node_text :: "string \<Rightarrow> sample \<Rightarrow> string" where
  "node_text nm s = call ''sp_update_node_info''
     [quoted nm, decimal (unat (s_node s)), quoted [], quoted [], ''0'',
      ''point('' @ commas [decimal (unat (s_px s)) @ ''.000000'', decimal (unat (s_py s)) @ ''.000000''] @ '')'']"

definition sense_text :: "string \<Rightarrow> sample \<Rightarrow> string" where
  "sense_text nm s = call ''sp_insert_sense_record''
     ([quoted nm, decimal (unat (s_node s)), fmt_f (Celsius (real (unat (s_temp s))))] @
      map (\<lambda>f. decimal (unat (f s)) @ ''.000000'') [s_photo, s_sound, s_xacc, s_yacc, s_xmag, s_ymag] @
      [''NULL'', ''NULL'', ''NULL'', ''NULL''])"

definition network_text :: "string \<Rightarrow> sample \<Rightarrow> string" where
  "network_text nm s = call ''sp_update_network'' [quoted nm, decimal (unat (s_node s)), decimal (unat (s_parent s)), ''0'']"

lemma text_lengths:
  assumes "length nm < 50"
  shows "length (node_text nm s) < DB_COMMAND_LENGTH" "length (sense_text nm s) < DB_COMMAND_LENGTH"
    "length (network_text nm s) < DB_COMMAND_LENGTH"
  using assms decimal_u16 [of "s_node s"] decimal_u16 [of "s_parent s"] decimal_u16 [of "s_px s"] decimal_u16 [of "s_py s"]
    decimal_u16 [of "s_photo s"] decimal_u16 [of "s_sound s"] decimal_u16 [of "s_xacc s"] decimal_u16 [of "s_yacc s"]
    decimal_u16 [of "s_xmag s"] decimal_u16 [of "s_ymag s"] Celsius_text [of "unat (s_temp s)"]
  by (simp_all add: node_text_def sense_text_def network_text_def call_def quoted_def DB_COMMAND_LENGTH_def)


definition sample_commands :: "string \<Rightarrow> sample \<Rightarrow> string list" where
  "sample_commands nm s = [node_text nm s] @ (if s_node s = 0 then [] else [sense_text nm s]) @ [network_text nm s]"

lemma fmt_d_0: "fmt_d 0 = ''0''"
  by code_simp

lemma send_fits: "length t < DB_COMMAND_LENGTH \<Longrightarrow> \<exists>r. send db t = Inr (r, [t])"
  by (simp add: send_def)

lemma insert_sample:
  assumes "holds_sample env bytes s" "length hdr = 8" "24 \<le> len" "len \<le> 1024" "length nm < 50"
  shows "insert_mesg_to_db env True (Some db) (Some (hdr @ bytes @ rest)) (int len) (Some nm) = Inr (0, sample_commands nm s)"
proof -
  have L: "24 \<le> (of_nat len :: u64)" "(of_nat len :: u64) \<le> 1024"
    using assms(3,4) by (simp_all add: word_le_nat_alt unat_of_nat)
  note g = sample_gets [OF assms(1) L, of rest]
  have nv: "uint w \<noteq> DB_NO_VALUE" for w :: u16 unfolding DB_NO_VALUE_def using uint_ge_0 [of w] by linarith
  obtain r1 r2 r3 where
    "send db (node_text nm s) = Inr (r1, [node_text nm s])" "send db (sense_text nm s) = Inr (r2, [sense_text nm s])"
    "send db (network_text nm s) = Inr (r3, [network_text nm s])"
    using send_fits text_lengths [OF assms(5), of s] by metis
  then have w:
    "update_node_info db (node_zero\<lparr>nt_network_name := nm, nt_node_id := uint (s_node s), nt_parent_id := uint (s_parent s),
       nt_x := of_u16 (s_px s), nt_y := of_u16 (s_py s)\<rparr>) = Inr (r1, [node_text nm s])"
    "insert_sense_record db (sensor_zero\<lparr>st_network_name := nm, st_node_id := uint (s_node s),
       st_temp := Celsius (real (unat (s_temp s))), st_photo := of_u16 (s_photo s), st_sound := of_u16 (s_sound s),
       st_x_acc := of_u16 (s_xacc s), st_y_acc := of_u16 (s_yacc s), st_x_mag := of_u16 (s_xmag s),
       st_y_mag := of_u16 (s_ymag s)\<rparr>) = Inr (r2, [sense_text nm s])"
    "update_network db (network_zero\<lparr>wt_network_name := nm, wt_node_id := uint (s_node s), wt_parent_id := uint (s_parent s)\<rparr>)
       = Inr (r3, [network_text nm s])"
    using nv [of "s_node s"]
    by (simp_all add: update_node_info_def insert_sense_record_def update_network_def node_text_def sense_text_def network_text_def
        fmt_uint of_u16_text node_zero_def sensor_zero_def network_zero_def fmt_d_0 del: commas.simps)
  have z: "uint (s_node s) = 0 \<longleftrightarrow> s_node s = 0" by (simp add: uint_0_iff)
  show ?thesis
    using assms(5) w
    by (cases "s_node s = 0")
      (simp_all add: insert_mesg_to_db_def new_tmsg_def assms(2) g z Let_def sample_commands_def)
qed


subsection \<open>The words of a command\<close>

abbreviation spaces :: "string \<Rightarrow> bool" where
  "spaces \<equiv> list_all (\<lambda>c. c = CHR '' '')"

abbreviation no_spaces :: "string \<Rightarrow> bool" where
  "no_spaces \<equiv> list_all (\<lambda>c. c \<noteq> CHR '' '')"

lemma skip_leading_run:
  assumes "spaces sp" "x \<noteq> CHR '' ''"
  shows "skip_leading (a @ sp @ x # r) (int (length a)) = Inr (int (length (a @ sp)))"
  using assms(1)
proof (induction sp arbitrary: a)
  case Nil
  then show ?case using assms(2) by (subst skip_leading.simps) (simp add: nth_append)
next
  case (Cons c sp)
  from Cons.IH [of "a @ [c]"] Cons.prems show ?case by (subst skip_leading.simps) (simp add: nth_append algebra_simps)
qed

lemma skip_spaces_run:
  assumes "spaces sp" "x \<noteq> CHR '' '' \<or> int (length (a @ sp)) = len" "int (length (a @ sp)) \<le> len"
  shows "skip_spaces (a @ sp @ x # r) len (int (length a)) = Inr (int (length (a @ sp)))"
  using assms
proof (induction sp arbitrary: a)
  case Nil
  then show ?case by (subst skip_spaces.simps) (auto simp: nth_append)
next
  case (Cons c sp)
  from Cons.IH [of "a @ [c]"] Cons.prems show ?case by (subst skip_spaces.simps) (auto simp: nth_append algebra_simps)
qed

lemma copy_word_run:
  assumes "no_spaces w" "x = CHR '' '' \<or> int (length (a @ w)) = len" "int (length (a @ w)) \<le> len" "length w \<le> m"
  shows "copy_word (a @ w @ x # r) len (int (length a)) (int (length d)) (d @ replicate m NUL) =
    Inr (int (length (a @ w)), d @ w @ replicate (m - length w) NUL)"
  using assms
proof (induction w arbitrary: a d m)
  case Nil
  then show ?case by (subst copy_word.simps) (auto simp: nth_append)
next
  case (Cons c w)
  then obtain m' where m: "m = Suc m'" by (cases m) auto
  have "poke (d @ replicate m NUL) (int (length d)) c = Inr ((d @ [c]) @ replicate m' NUL)"
    using m by (simp add: list_update_append)
  moreover have "(a @ (c # w) @ x # r) ! length a = c" by simp
  moreover have "copy_word ((a @ [c]) @ w @ x # r) len (int (length (a @ [c]))) (int (length (d @ [c]))) ((d @ [c]) @ replicate m' NUL) =
      Inr (int (length ((a @ [c]) @ w)), (d @ [c]) @ w @ replicate (m' - length w) NUL)"
    using Cons.prems m by (intro Cons.IH) auto
  ultimately show ?case using Cons.prems m by (subst copy_word.simps) (simp add: algebra_simps)
qed

lemma words_split:
  assumes "no_spaces w" "w \<noteq> []" "spaces sp" "text' = [] \<or> sp \<noteq> []"
  shows "words (w @ sp @ text') = w # words text'"
proof -
  have sp: "words (sp @ t) = words t" for t using assms(3) by (induction sp) auto
  obtain c cs where w: "w = c # cs" using assms(2) by (cases w) auto
  let ?ns = "\<lambda>x. x \<noteq> CHR '' ''"
  have cs: "takeWhile ?ns (cs @ t) = cs @ takeWhile ?ns t" "dropWhile ?ns (cs @ t) = dropWhile ?ns t" for t
    using assms(1) w by (simp_all add: list_all_iff takeWhile_append dropWhile_append)
  have "takeWhile ?ns (sp @ text') = [] \<and> dropWhile ?ns (sp @ text') = sp @ text'"
  proof (cases sp)
    case Nil
    with assms(4) show ?thesis by simp
  qed (use assms(3) in simp)
  then show ?thesis using assms(1) w cs [of "sp @ text'"] sp by simp
qed

lemma text_parts:
  assumes "t \<noteq> []" "hd t \<noteq> CHR '' ''"
  obtains w sp t' where "t = w @ sp @ t'" "no_spaces w" "w \<noteq> []" "spaces sp" "t' = [] \<or> sp \<noteq> []" "t' = [] \<or> hd t' \<noteq> CHR '' ''"
proof -
  let ?ns = "\<lambda>x. x \<noteq> CHR '' ''" and ?s = "\<lambda>x. x = CHR '' ''"
  let ?w = "takeWhile ?ns t" and ?r = "dropWhile ?ns t"
  let ?sp = "takeWhile ?s ?r" and ?t = "dropWhile ?s ?r"
  have tw: "list_all P (takeWhile P xs)" for P :: "char \<Rightarrow> bool" and xs by (induction xs) auto
  have w: "?w \<noteq> []" using assms by (cases t) auto
  have "?t = [] \<or> ?sp \<noteq> []"
  proof (cases "?r = []")
    case False
    then have "\<not> ?ns (hd ?r)" by (rule hd_dropWhile)
    with False obtain cs where r: "?r = CHR '' '' # cs" by (metis list.collapse)
    show ?thesis unfolding r by simp
  qed (simp only: dropWhile.simps simp_thms)
  moreover have "?t = [] \<or> hd ?t \<noteq> CHR '' ''" using hd_dropWhile [of ?s ?r] by auto
  ultimately show thesis using that [of ?w ?sp ?t] tw [of ?ns t] tw [of ?s ?r] w by simp
qed

lemma split_words_run:
  assumes "r \<noteq> []" "t = [] \<or> hd t \<noteq> CHR '' ''" "length (words t) \<le> k" "\<forall>w \<in> set (words t). length w \<le> n"
  shows "split_words (a @ t @ r) (int (length (a @ t))) (int (length a)) (length done) (done @ replicate k (replicate n NUL)) =
    Inr (length done + length (words t), done @ map (\<lambda>w. w @ replicate (n - length w) NUL) (words t) @
      replicate (k - length (words t)) (replicate n NUL))"
  using assms(2-4)
proof (induction "length t" arbitrary: t a "done" k rule: less_induct)
  case less
  show ?case
  proof (cases "t = []")
    case True
    then show ?thesis by (subst split_words.simps) simp
  next
    case False
    with less.prems(1) obtain w sp t' where t: "t = w @ sp @ t'" "no_spaces w" "w \<noteq> []" "spaces sp" "t' = [] \<or> sp \<noteq> []"
        "t' = [] \<or> hd t' \<noteq> CHR '' ''"
      using text_parts [of t] by auto
    have w0: "0 < int (length w) + (int (length sp) + int (length t'))" using t(3) by (cases w) simp_all
    have ws: "words t = w # words t'" using words_split [OF t(2-5)] t(1) by simp
    obtain k' where k: "k = Suc k'" using less.prems(2) ws by (cases k) auto
    let ?argv = "done @ replicate k (replicate n NUL)" and ?len = "int (length (a @ t))"
    let ?row = "w @ replicate (n - length w) NUL"
    obtain x r1 where x: "sp @ t' @ r = x # r1" "x = CHR '' '' \<or> sp @ t' = []"
      using t(4,5) assms(1) by (cases sp; cases r) auto
    have "copy_word (a @ w @ x # r1) ?len (int (length a)) (int (length ([] :: char list))) ([] @ replicate n NUL) =
        Inr (int (length (a @ w)), [] @ ?row)"
      using t(1,2) x less.prems(3) ws by (intro copy_word_run) auto
    then have cw: "copy_word (a @ t @ r) ?len (int (length a)) 0 (replicate n NUL) = Inr (int (length (a @ w)), ?row)"
      using t(1) x(1) by simp
    obtain y r2 where y: "t' @ r = y # r2" "y \<noteq> CHR '' '' \<or> t' = []" using t(6) assms(1) by (cases t'; cases r) auto
    have "skip_spaces ((a @ w) @ sp @ y # r2) ?len (int (length (a @ w))) = Inr (int (length ((a @ w) @ sp)))"
      using t(1,4) y by (intro skip_spaces_run) auto
    then have ss: "skip_spaces (a @ t @ r) ?len (int (length (a @ w))) = Inr (int (length (a @ w @ sp)))"
      using t(1) y(1) by simp
    have "?argv[length done := ?row] = (done @ [?row]) @ replicate k' (replicate n NUL)"
      by (simp add: k list_update_append)
    then have "split_words (a @ t @ r) ?len (int (length a)) (length done) ?argv =
        split_words ((a @ w @ sp) @ t' @ r) (int (length ((a @ w @ sp) @ t'))) (int (length (a @ w @ sp)))
          (length (done @ [?row])) ((done @ [?row]) @ replicate k' (replicate n NUL))"
      using cw ss t(1) w0 k by (subst split_words.simps) (auto simp: nth_append)
    also have "\<dots> = Inr (length (done @ [?row]) + length (words t'), (done @ [?row]) @
        map (\<lambda>w. w @ replicate (n - length w) NUL) (words t') @ replicate (k' - length (words t')) (replicate n NUL))"
      using t less.prems ws k by (intro less.hyps) auto
    finally show ?thesis using ws k by simp
  qed
qed


lemma words_chars: "w \<in> set (words v) \<Longrightarrow> set w \<subseteq> set v"
proof (induction v rule: words.induct)
  case (2 c cs)
  let ?ns = "\<lambda>x. x \<noteq> CHR '' ''"
  show ?case
  proof (cases "c = CHR '' ''")
    case True
    with 2 show ?thesis by (simp add: subset_insertI2)
  next
    case False
    then consider "w = c # takeWhile ?ns cs" | "w \<in> set (words (dropWhile ?ns cs))" using "2.prems" by auto
    then show ?thesis
    proof cases
      case 1
      then show ?thesis by (auto dest: set_takeWhileD)
    next
      case 2
      have "set w \<subseteq> set (dropWhile ?ns cs)" using "2.IH"(2) [OF False 2] .
      then show ?thesis using set_dropWhileD [of _ ?ns cs] by auto
    qed
  qed
qed simp

lemma command_split:
  assumes "length cmd < MAX_BUFF_LENGTH" "length (words cmd) \<le> 128" "\<forall>w \<in> set (words cmd). length w < 128"
    and "NUL \<notin> set cmd"
  shows "\<exists>argv. str_to_argc_argv (cmd @ replicate (MAX_BUFF_LENGTH - length cmd) NUL) (int (length cmd)) (replicate 128 (replicate 128 NUL)) =
      Inr (length (words cmd), argv) \<and> length argv = 128 \<and>
      map cstr (take (length (words cmd)) argv) = map Inr (words cmd)"
proof -
  let ?s = "\<lambda>x. x = CHR '' ''"
  define sp where "sp = takeWhile ?s cmd"
  define t where "t = dropWhile ?s cmd"
  let ?r = "replicate (MAX_BUFF_LENGTH - length cmd) NUL"
  have cm: "cmd = sp @ t" by (simp add: sp_def t_def)
  have sp: "spaces sp" unfolding sp_def by (induction cmd) auto
  have t: "t = [] \<or> hd t \<noteq> CHR '' ''" unfolding t_def using hd_dropWhile [of ?s cmd] by auto
  have "words (sp @ t) = words t" using sp by (induction sp) auto
  then have ws: "words cmd = words t" by (simp add: cm)
  have r: "?r \<noteq> []" "\<forall>x \<in> set ?r. x \<noteq> CHR '' ''" using assms(1) by (auto simp: NUL_def)
  obtain x q where x: "t @ ?r = x # q" "x \<noteq> CHR '' ''" using t r by (cases t; cases ?r) auto
  have lead: "skip_leading (cmd @ ?r) 0 = Inr (int (length sp))"
    using skip_leading_run [OF sp x(2), of "[]" q] x(1) by (simp add: cm)
  let ?argv = "map (\<lambda>w. w @ replicate (128 - length w) NUL) (words t) @ replicate (128 - length (words t)) (replicate 128 NUL)"
  have "split_words (sp @ t @ ?r) (int (length (sp @ t))) (int (length sp)) (length ([] :: char list list))
      ([] @ replicate 128 (replicate 128 NUL)) = Inr (length ([] :: char list list) + length (words t), [] @ ?argv)"
    using r(1) t assms(2,3) ws by (intro split_words_run) auto
  then have run: "str_to_argc_argv (cmd @ ?r) (int (length cmd)) (replicate 128 (replicate 128 NUL)) = Inr (length (words cmd), ?argv)"
    using lead ws by (simp add: str_to_argc_argv_def cm)
  have "cstr (w @ replicate (128 - length w) NUL) = Inr w" if "w \<in> set (words cmd)" for w
  proof -
    have nul: "NUL \<notin> set w" using words_chars [OF that] assms(4) by auto
    have "length w < 128" using assms(3) that by blast
    then obtain j where j: "128 - length w = Suc j" by (metis Suc_diff_Suc)
    show ?thesis unfolding j replicate_Suc by (rule cstr_terminated [OF nul])
  qed
  then have "map cstr (take (length (words cmd)) ?argv) = map Inr (words cmd)" by (simp add: ws)
  moreover have "length ?argv = 128" using assms(2) ws by simp
  ultimately show ?thesis using run by blast
qed

text \<open>
  C28: A command of the datagram socket is split into its words: \<open>argc\<close> is their number and the
  first \<open>argc\<close> entries of \<open>argv\<close> hold them in order, for every text that is shorter than the buffer
  and has at most 128 words of less than 128 characters.
\<close>

theorem command_words:
  assumes "length cmd < MAX_BUFF_LENGTH" "length (words cmd) \<le> 128" "\<forall>w \<in> set (words cmd). length w < 128"
    and "NUL \<notin> set cmd"
  shows "\<exists>argv. str_to_argc_argv (cmd @ replicate (MAX_BUFF_LENGTH - length cmd) NUL) (int (length cmd)) (replicate 128 (replicate 128 NUL)) =
      Inr (length (words cmd), argv) \<and> length argv = 128 \<and>
      map cstr (take (length (words cmd)) argv) = map Inr (words cmd)"
  using assms by (rule command_split)

theorem command_words_witness:
  "\<exists>argv. str_to_argc_argv ('' set  --id 1'' @ replicate (MAX_BUFF_LENGTH - length '' set  --id 1'') NUL) (int (length '' set  --id 1''))
      (replicate 128 (replicate 128 NUL)) = Inr (3, argv) \<and> map cstr (take 3 argv) = [Inr ''set'', Inr ''--id'', Inr ''1'']"
proof -
  have w: "words '' set  --id 1'' = [''set'', ''--id'', ''1'']" by simp
  have "length '' set  --id 1'' < MAX_BUFF_LENGTH" "NUL \<notin> set '' set  --id 1''" by (simp_all add: MAX_BUFF_LENGTH_def NUL_def)
  from command_words [OF this(1) _ _ this(2)] show ?thesis by (auto simp: w numeral_3_eq_3)
qed

subsection \<open>Samples reach the database\<close>

definition sample_packet :: "failenv \<Rightarrow> u8 list \<Rightarrow> sample \<Rightarrow> bool" where
  "sample_packet env p s \<longleftrightarrow> length p = 8 + SENSOR_MSG_SIZE \<and> holds_sample env (drop 8 p) s"

lemma child_loop_stores:
  assumes "list_all2 (sample_packet env) pkts ss" "length nm < 50" "\<forall>k. mem k" "length msg = MAX_BUFF_LENGTH"
  shows "\<exists>msg'. child_loop env mem db nm errno (map Got pkts @ [Got []]) msg n =
    Inr (Some 0, msg', concat (map (sample_commands nm) ss))"
  using assms(1,4)
proof (induction pkts ss arbitrary: msg n rule: list_all2_induct)
  case (Cons p pkts s ss)
  have lp: "length p = 32" and hs: "holds_sample env (drop 8 p) s" using Cons.hyps(1) by (simp_all add: sample_packet_def SENSOR_MSG_SIZE_def)
  let ?msg = "p @ drop (length p) msg"
  have tk: "take MAX_BUFF_LENGTH p = p" "p \<noteq> []" using lp by (auto simp: MAX_BUFF_LENGTH_def)
  have "insert_mesg_to_db env True (Some db) (Some (take 8 p @ drop 8 p @ drop (length p) msg)) (int (length p)) (Some nm) =
      Inr (0, sample_commands nm s)"
    using hs lp assms(2) by (intro insert_sample) simp_all
  then have ins: "insert_mesg_to_db env (mem n) (Some db) (Some ?msg) (int (length p)) (Some nm) = Inr (0, sample_commands nm s)"
    using assms(3) by (simp flip: append_assoc)
  have "length ?msg = MAX_BUFF_LENGTH" using lp Cons.prems by (simp add: MAX_BUFF_LENGTH_def)
  from Cons.IH [OF this, of "Suc n"] ins tk show ?case by (auto simp: Let_def)
qed (simp add: Let_def)

text \<open>
  A child process that reads packets one by one sends the database, for every sample in
  order, the update of its node, the record of its measurements (for all nodes but the root, whose id
  is 0) and the update of the network, each with the values of the sample, and exits with 0 at the
  end of the stream. Every command fits into its buffer.
\<close>

theorem samples_stored:
  assumes "list_all2 (sample_packet env) pkts ss" "length nm < 50" "\<forall>k. mem k" "length msg = MAX_BUFF_LENGTH"
  shows "\<exists>msg'. child_loop env mem db nm errno (map Got pkts @ [Got []]) msg n =
    Inr (Some 0, msg', concat (map (sample_commands nm) ss))"
  using assms by (rule child_loop_stores)

text \<open>Two packets: a sample of the root and one of node 3, whose thermistor reads 512.\<close>

definition no_hook :: failenv where
  "no_hook = \<lparr>failfn = None, fail_log = []\<rparr>"

definition root_packet :: "u8 list" where
  "root_packet = replicate 8 0 @ [0, 0, 0, 0, 0, 10, 0, 20, 0, 1, 0, 2, 0, 3, 0, 4, 0, 5, 0, 6, 0, 7, 155, 174]"

definition node_packet :: "u8 list" where
  "node_packet = replicate 8 0 @ [0, 3, 0, 0, 0, 11, 0, 21, 2, 0, 1, 1, 0, 3, 0, 4, 0, 5, 0, 6, 0, 7, 131, 165]"

definition root_sample :: sample where
  "root_sample = \<lparr>s_node = 0, s_parent = 0, s_px = 10, s_py = 20, s_temp = 1, s_photo = 2, s_sound = 3, s_xacc = 4,
     s_yacc = 5, s_xmag = 6, s_ymag = 7, s_crc = 39854\<rparr>"

definition node_sample :: sample where
  "node_sample = \<lparr>s_node = 3, s_parent = 0, s_px = 11, s_py = 21, s_temp = 512, s_photo = 257, s_sound = 3, s_xacc = 4,
     s_yacc = 5, s_xmag = 6, s_ymag = 7, s_crc = 33701\<rparr>"

lemma two_packets: "list_all2 (sample_packet no_hook) [root_packet, node_packet] [root_sample, node_sample]"
  by (simp add: sample_packet_def holds_sample_def SENSOR_MSG_SIZE_def root_packet_def node_packet_def) code_simp

lemma two_commands:
  "concat (map (sample_commands ''10.0.0.1:9'') [root_sample, node_sample]) =
     [node_text ''10.0.0.1:9'' root_sample, network_text ''10.0.0.1:9'' root_sample,
      node_text ''10.0.0.1:9'' node_sample, sense_text ''10.0.0.1:9'' node_sample, network_text ''10.0.0.1:9'' node_sample]"
  by (simp add: sample_commands_def root_sample_def node_sample_def)

definition quiet_db :: mysql where
  "quiet_db = (\<lambda>_. \<lparr>rp_ret = 0, rp_affected = 1, rp_rows = None, rp_field_count = 0, rp_next = []\<rparr>)"

theorem samples_stored_witness:
  "\<exists>msg'. child_loop no_hook (\<lambda>_. True) quiet_db ''10.0.0.1:9'' 4 [Got root_packet, Got node_packet, Got []] (replicate MAX_BUFF_LENGTH 0) 0 =
     Inr (Some 0, msg', [node_text ''10.0.0.1:9'' root_sample, network_text ''10.0.0.1:9'' root_sample,
       node_text ''10.0.0.1:9'' node_sample, sense_text ''10.0.0.1:9'' node_sample, network_text ''10.0.0.1:9'' node_sample])"
  using samples_stored [OF two_packets, of "''10.0.0.1:9''" "\<lambda>_. True" "replicate MAX_BUFF_LENGTH 0" quiet_db 4 0] two_commands by simp

text \<open>
  The length given to the message counts the header, so the last eight bytes need not have arrived:
  a read of 24 bytes is stored as a sample whose last third is left over from earlier reads.
\<close>

lemma short_read_mixes:
  assumes "length d = 24" "length msg = MAX_BUFF_LENGTH" "holds_sample env (drop 8 d @ take 8 (drop 24 msg)) s"
    and "length nm < 50" "mem n"
  shows "\<exists>msg'. child_loop env mem db nm errno [Got d] msg n = Inr (None, msg', sample_commands nm s)"
proof -
  have "drop 32 msg = drop 8 (drop 24 msg)" by simp
  then have "take 8 (drop 24 msg) @ drop 32 msg = drop 24 msg" by (simp only: append_take_drop_id)
  then have m: "d @ drop (length d) msg = take 8 d @ (drop 8 d @ take 8 (drop 24 msg)) @ drop 32 msg"
    using assms(1) append_take_drop_id [of 8 d] by (simp only: append.assoc) (simp only: append.assoc [symmetric])
  have "insert_mesg_to_db env True (Some db) (Some (take 8 d @ (drop 8 d @ take 8 (drop 24 msg)) @ drop 32 msg)) (int 24) (Some nm) =
      Inr (0, sample_commands nm s)"
    using assms(1,3,4) by (intro insert_sample) simp_all
  with m assms(1,5) show ?thesis by (auto simp: MAX_BUFF_LENGTH_def Let_def)
qed


subsection \<open>Accepting clients\<close>

text \<open>
  The branch of the parent's loop for a ready listening socket. The answers are those of \<open>calloc\<close>,
  \<open>accept\<close>, \<open>pipe\<close> and \<open>fork\<close> and the text that \<open>snprintf\<close> builds, in which the addresses were never
  set; every failure ends the server.
\<close>

record accept_answers =
  an_mem :: bool
  an_fd :: int
  an_pipe :: "(int \<times> int) option"
  an_name :: string
  an_pid :: int

record sensor_server =
  ss_heap :: pid_heap
  ss_pv :: pid_vector
  ss_id :: int

datatype accept_result = Exits | Child int int int | Parent sensor_server

definition accept_client :: "accept_answers \<Rightarrow> sensor_server \<Rightarrow> accept_result ub" where
  "accept_client an s =
     (if \<not> an_mem an then Inr Exits
      else if an_fd an < 0 then Inr Exits
      else (case an_pipe an of
        None \<Rightarrow> Inr Exits
      | Some (r, w) \<Rightarrow>
          let info = \<lparr>client_fd = an_fd an, pid = 0, pipe_r = r, pipe_w = w, p_id = ss_id s,
                p_name = take (MAX_BUFF_LENGTH - 1) (an_name an)\<rparr> in
          if an_pid an < 0 then Inr Exits
          else if an_pid an = 0 then Inr (Child r w (an_fd an))
          else
            let (a, h) = calloc_node (ss_heap s) (info\<lparr>pid := an_pid an\<rparr>) in
            bind_ub (pid_vector_add h (Some (ss_pv s)) (Some a)) (\<lambda>(_, h, pv).
              Inr (Parent \<lparr>ss_heap = h, ss_pv = the pv, ss_id = ss_id s + 1\<rparr>))))"

definition sensor_server_start :: "sensor_server option" where
  "sensor_server_start = map_option (\<lambda>(_, h, pv). \<lparr>ss_heap = h, ss_pv = pv, ss_id = 0\<rparr>)
     (pid_vector_init True \<lparr>cells = Map.empty, brk = 0\<rparr> \<lparr>pv_head = None, pv_tail = None, num_process = 0\<rparr>)"

primrec accept_all :: "accept_answers list \<Rightarrow> sensor_server \<Rightarrow> accept_result ub" where
  "accept_all [] s = Inr (Parent s)"
| "accept_all (an # ans) s = bind_ub (accept_client an s) (\<lambda>r. case r of Parent s \<Rightarrow> accept_all ans s | _ \<Rightarrow> Inr r)"

definition entry_of :: "int \<Rightarrow> accept_answers \<Rightarrow> pid_info" where
  "entry_of i an = \<lparr>client_fd = an_fd an, pid = an_pid an, pipe_r = fst (the (an_pipe an)), pipe_w = snd (the (an_pipe an)),
     p_id = i, p_name = take (MAX_BUFF_LENGTH - 1) (an_name an)\<rparr>"

definition accept_ok :: "accept_answers \<Rightarrow> bool" where
  "accept_ok an \<longleftrightarrow> an_mem an \<and> 0 \<le> an_fd an \<and> an_pipe an \<noteq> None \<and> 0 < an_pid an"

definition sensor_server_ok :: "sensor_server \<Rightarrow> addr list \<Rightarrow> bool" where
  "sensor_server_ok s as \<longleftrightarrow> chain (ss_heap s) (ss_pv s) as \<and> (\<forall>a \<in> set as. a < brk (ss_heap s)) \<and>
     (\<forall>a. brk (ss_heap s) \<le> a \<longrightarrow> cells (ss_heap s) a = None)"

lemma add_keeps_brk:
  assumes "pid_vector_add h (Some pv) (Some a) = Inr (r, h', pv')" "cells h a \<noteq> None"
  shows "brk h' = brk h" "cells h b = None \<Longrightarrow> cells h' b = None"
  using assms
  by (auto simp: pid_vector_add_def set_next_def set_prev_def bind_ub_eq_Inr load_def store_def split: option.splits if_splits)

lemma accept_client_adds:
  assumes "sensor_server_ok s as" "accept_ok an"
  shows "\<exists>s' a. accept_client an s = Inr (Parent s') \<and> sensor_server_ok s' (as @ [a]) \<and> ss_id s' = ss_id s + 1 \<and>
    infos (ss_heap s') (as @ [a]) = infos (ss_heap s) as @ [entry_of (ss_id s) an]"
proof -
  obtain r w where rw: "an_pipe an = Some (r, w)" using assms(2) by (auto simp: accept_ok_def)
  define a where "a = brk (ss_heap s)"
  define h where "h = snd (calloc_node (ss_heap s) (entry_of (ss_id s) an))"
  let ?n = "\<lparr>nd_task = entry_of (ss_id s) an, nd_next = None, nd_prev = None\<rparr>"
  have c: "calloc_node (ss_heap s) (entry_of (ss_id s) an) = (a, h)" "brk h = Suc a" "cells h = (cells (ss_heap s))(a \<mapsto> ?n)"
    by (simp_all add: calloc_node_def a_def h_def)
  have as: "a \<notin> set as" "linked (ss_heap s) as" using assms(1) by (auto simp: sensor_server_ok_def a_def chain_def)
  have "linked h as" by (rule linked_frame [OF as(2)]) (use as(1) c(3) in auto)
  then have ch: "chain h (ss_pv s) as" using assms(1) by (simp add: sensor_server_ok_def chain_def)
  obtain h' pv' where add: "pid_vector_add h (Some (ss_pv s)) (Some a) = Inr (0, h', Some pv')" "chain h' pv' (as @ [a])"
      "infos h' (as @ [a]) = infos h as @ [entry_of (ss_id s) an]"
    using add_chain [OF ch, of a ?n] as(1) c(3) by auto
  have in_eq: "infos h as = infos (ss_heap s) as"
  proof -
    have "set (tl as) \<subseteq> set as" by (cases as) auto
    then show ?thesis using as(1) c(3) by (auto simp: infos_def task_of_def)
  qed
  let ?s = "\<lparr>ss_heap = h', ss_pv = pv', ss_id = ss_id s + 1\<rparr>"
  have "brk h' = Suc a" "\<forall>b. Suc a \<le> b \<longrightarrow> cells h' b = None"
    using add_keeps_brk [OF add(1)] c(2,3) assms(1) by (auto simp: sensor_server_ok_def a_def)
  then have "sensor_server_ok ?s (as @ [a])" using add(2) assms(1) by (auto simp: sensor_server_ok_def a_def less_Suc_eq)
  moreover have "accept_client an s = Inr (Parent ?s)"
  proof -
    have "\<lparr>client_fd = an_fd an, pid = an_pid an, pipe_r = r, pipe_w = w, p_id = ss_id s,
        p_name = take (MAX_BUFF_LENGTH - 1) (an_name an)\<rparr> = entry_of (ss_id s) an"
      by (simp add: entry_of_def rw)
    then show ?thesis using assms(2) rw c(1) add(1) by (simp add: accept_client_def accept_ok_def Let_def)
  qed
  ultimately show ?thesis using add(3) in_eq by (intro exI [of _ ?s] exI [of _ a]) simp
qed

lemma accept_all_adds:
  assumes "sensor_server_ok s as" "list_all accept_ok ans"
  shows "\<exists>s' as'. accept_all ans s = Inr (Parent s') \<and> sensor_server_ok s' as' \<and>
    infos (ss_heap s') as' = infos (ss_heap s) as @ map2 (\<lambda>k an. entry_of (ss_id s + int k) an) [0..<length ans] ans"
  using assms
proof (induction ans arbitrary: s as)
  case (Cons an ans)
  obtain s1 a where s1: "accept_client an s = Inr (Parent s1)" "sensor_server_ok s1 (as @ [a])" "ss_id s1 = ss_id s + 1"
      "infos (ss_heap s1) (as @ [a]) = infos (ss_heap s) as @ [entry_of (ss_id s) an]"
    using accept_client_adds [OF Cons.prems(1), of an] Cons.prems(2) by auto
  obtain s' as' where s': "accept_all ans s1 = Inr (Parent s')" "sensor_server_ok s' as'"
      "infos (ss_heap s') as' = infos (ss_heap s1) (as @ [a]) @ map2 (\<lambda>k an. entry_of (ss_id s1 + int k) an) [0..<length ans] ans"
    using Cons.IH [OF s1(2)] Cons.prems(2) by auto
  have "map2 (\<lambda>k an. entry_of (ss_id s + int k) an) [0..<length (an # ans)] (an # ans) =
      entry_of (ss_id s) an # map2 (\<lambda>k an. entry_of (ss_id s1 + int k) an) [0..<length ans] ans"
    by (rule nth_equalityI) (auto simp: nth_Cons s1(3) algebra_simps simp del: upt_Suc split: nat.splits)
  with s1 s' show ?case by (intro exI [of _ s'] exI [of _ as']) simp
qed (auto)

lemma sensor_server_start_ok:
  assumes "sensor_server_start = Some s"
  shows "sensor_server_ok s [0]" "infos (ss_heap s) [0] = []" "ss_id s = 0"
  using assms
  by (auto simp: sensor_server_start_def pid_vector_init_def calloc_node_def sensor_server_ok_def chain_def infos_def Let_def)

text \<open>
  The parent's list of children: after any number of clients was accepted, the list
  holds one entry for each, in the order of their arrival, with its socket, its process, its pipe and
  the ids 0, 1, 2 and so on.
\<close>

theorem clients_registered:
  assumes "list_all accept_ok ans" "sensor_server_start = Some s"
  shows "\<exists>s' as'. accept_all ans s = Inr (Parent s') \<and> chain (ss_heap s') (ss_pv s') as' \<and>
    infos (ss_heap s') as' = map2 (\<lambda>k an. entry_of (int k) an) [0..<length ans] ans"
proof -
  note s = sensor_server_start_ok [OF assms(2)]
  with accept_all_adds [OF s(1) assms(1)] show ?thesis by (auto simp: sensor_server_ok_def)
qed

theorem clients_registered_witness:
  "\<exists>s s' as'. sensor_server_start = Some s \<and>
     accept_all [\<lparr>an_mem = True, an_fd = 5, an_pipe = Some (6, 7), an_name = ''a'', an_pid = 100\<rparr>,
       \<lparr>an_mem = True, an_fd = 5, an_pipe = Some (8, 9), an_name = ''b'', an_pid = 101\<rparr>] s = Inr (Parent s') \<and>
     chain (ss_heap s') (ss_pv s') as' \<and> map p_id (infos (ss_heap s') as') = [0, 1] \<and> map pid (infos (ss_heap s') as') = [100, 101]"
proof -
  have "sensor_server_start \<noteq> None" by (simp add: sensor_server_start_def pid_vector_init_def calloc_node_def)
  then obtain s where s: "sensor_server_start = Some s" by blast
  have "list_all accept_ok [\<lparr>an_mem = True, an_fd = 5, an_pipe = Some (6, 7), an_name = ''a'', an_pid = 100\<rparr>,
       \<lparr>an_mem = True, an_fd = 5, an_pipe = Some (8, 9), an_name = ''b'', an_pid = 101\<rparr>]" by (simp add: accept_ok_def)
  from clients_registered [OF this s] s show ?thesis by (force simp: entry_of_def)
qed

end
