(* ===== verification/ServerStart.thy ===== *)
theory ServerStart
  imports SensorServer OpenFiles
begin

section \<open>The sensor server from its start\<close>

text \<open>
  \<open>main\<close> of src/sensor/tgx_sensor_server.c around the operations of theory SensorServer: the two sockets, the
  loop around \<open>select\<close>, the commands that arrive as datagrams, and the start of the process that serves a client.
\<close>

subsection \<open>Definitions\<close>

record server_env =
  tcp_socket :: bool
  tcp_bind :: "u16 \<Rightarrow> bool"
  tcp_listen :: bool
  udp_socket :: bool
  udp_bind :: "u16 \<Rightarrow> bool"
  sv_errno :: int

definition open_sensor_tcp_socket :: "server_env \<Rightarrow> int \<Rightarrow> proc \<Rightarrow> (int \<times> proc) after" where
  "open_sensor_tcp_socket env prt p =
     (let (serverfd, p) = (if tcp_socket env then sys_open Unbound p else (- 1, p)); sin_port = word_of_int prt in
      if serverfd < 0 then Ends (sv_errno env)
      else if \<not> tcp_bind env sin_port then Ends (sv_errno env)
      else if \<not> tcp_listen env then Ends (sv_errno env)
      else Goes_on (serverfd, p\<lparr>fds := (fds p)(nat serverfd \<mapsto> Listening sin_port)\<rparr>))"

definition open_interact_udp_socket :: "server_env \<Rightarrow> int \<Rightarrow> proc \<Rightarrow> (int \<times> proc) after" where
  "open_interact_udp_socket env prt p =
     (let (sockfd, p) = (if udp_socket env then sys_open Unbound p else (- 1, p)); sin_port = word_of_int prt in
      if sockfd < 0 then Ends (sv_errno env)
      else if \<not> udp_bind env sin_port then Ends (sv_errno env)
      else Goes_on (sockfd, p\<lparr>fds := (fds p)(nat sockfd \<mapsto> Datagram sin_port)\<rparr>))"

text \<open>The new value of \<open>running\<close> and whether a child is waited for. No call of \<open>signal\<close> installs the handler.\<close>

definition server_sig_handler :: "signo \<Rightarrow> bool \<Rightarrow> bool \<times> bool" where
  "server_sig_handler s running = (case s of SIGINT \<Rightarrow> (False, False) | SIGCHLD \<Rightarrow> (running, True) | _ \<Rightarrow> (running, False))"

text \<open>\<open>FD_SET\<close> outside the set is a fault.\<close>

definition in_fd_set :: "int \<Rightarrow> bool" where
  "in_fd_set fd \<longleftrightarrow> 0 \<le> fd \<and> fd < 1024"

definition server_start :: "server_env \<Rightarrow> string list \<Rightarrow> proc \<Rightarrow> (int \<times> int \<times> int \<times> sensor_server \<times> proc) after ub" where
  "server_start env argv p =
     (if length argv \<noteq> 3 then Inr (Ends (sv_errno env))
      else case sensor_server_start of None \<Rightarrow> Inl NullDeref | Some s \<Rightarrow>
        bind_ub (atoi_ub (argv ! 1)) (\<lambda>port1. case open_sensor_tcp_socket env port1 p of
          Ends e \<Rightarrow> Inr (Ends e)
        | Goes_on (sensor_socket, p) \<Rightarrow>
            bind_ub (atoi_ub (argv ! 2)) (\<lambda>port2. case open_interact_udp_socket env port2 p of
              Ends e \<Rightarrow> Inr (Ends e)
            | Goes_on (interact_socket, p) \<Rightarrow>
                if in_fd_set sensor_socket \<and> in_fd_set interact_socket
                then Inr (Goes_on (sensor_socket, interact_socket, if sensor_socket > interact_socket then sensor_socket else interact_socket, s, p))
                else Inl OutOfBounds)))"

text \<open>
  A command: the datagram, or \<open>None\<close> when \<open>recvfrom\<close> fails; the options \<open>getopt_long\<close> finds in the arguments of the
  program (not in those of the command), by their names; which of the 128 allocations succeed. A row that was not
  allocated has no characters, so that every access to it is a fault.
\<close>

definition option_flag :: "string \<Rightarrow> int" where
  "option_flag name =
     (if contains name ''netname'' then 8
      else if contains name ''port'' then 4
      else if contains name ''id'' then 2
      else if contains name ''periodic'' then 1 else 0)"

definition interactive_command :: "(nat \<Rightarrow> bool) \<Rightarrow> string option \<Rightarrow> string list \<Rightarrow> int ub" where
  "interactive_command mem recv opts =
     (let data = (case recv of None \<Rightarrow> [] | Some d \<Rightarrow> take MAX_BUFF_LENGTH d);
          nread = (case recv of None \<Rightarrow> - 1 | Some d \<Rightarrow> int (length data));
          msg = data @ replicate (MAX_BUFF_LENGTH - length data) NUL;
          argv_x = map (\<lambda>i. if mem i then replicate 128 NUL else []) [0..<128] in
      bind_ub (str_to_argc_argv msg nread argv_x) (\<lambda>_. Inr (sum_list (map option_flag opts))))"

text \<open>What one turn of the loop is given.\<close>

record server_turn =
  tn_select :: int
  tn_ready :: "int \<Rightarrow> bool"
  tn_error :: "int \<Rightarrow> bool"
  tn_accept :: accept_answers
  tn_recv :: "string option"
  tn_opts :: "string list"
  tn_mem :: "nat \<Rightarrow> bool"

text \<open>
  The server ends, or is the process of a new client, or goes on with its list of children and
  the number of blocks that were allocated for commands and never freed.
\<close>

datatype server_result = Server_ends | Client_child int int int | Server_on sensor_server nat

primrec serve_fds :: "server_turn \<Rightarrow> int \<Rightarrow> int \<Rightarrow> int list \<Rightarrow> sensor_server \<Rightarrow> nat \<Rightarrow> server_result ub" where
  "serve_fds t tcp udp [] s lost = Inr (Server_on s lost)"
| "serve_fds t tcp udp (fd # rest) s lost =
     (let isset = fd \<in> {tcp, udp} \<and> tn_ready t fd in
      if isset \<and> tn_error t fd then Inr Server_ends
      else if isset then
        if fd = tcp then
          bind_ub (accept_client (tn_accept t) s) (\<lambda>r. case r of
            Exits \<Rightarrow> Inr Server_ends
          | Child r w c \<Rightarrow> Inr (Client_child r w c)
          | Parent s \<Rightarrow> serve_fds t tcp udp rest s lost)
        else bind_ub (interactive_command (tn_mem t) (tn_recv t) (tn_opts t)) (\<lambda>_.
          serve_fds t tcp udp rest s (lost + length (filter (tn_mem t) [0..<128])))
      else serve_fds t tcp udp rest s lost)"

primrec server_loop :: "server_turn list \<Rightarrow> int \<Rightarrow> int \<Rightarrow> int \<Rightarrow> sensor_server \<Rightarrow> nat \<Rightarrow> server_result ub" where
  "server_loop [] tcp udp maxfd s lost = Inr (Server_on s lost)"
| "server_loop (t # ts) tcp udp maxfd s lost =
     (if tn_select t < 0 then Inr Server_ends
      else bind_ub (serve_fds t tcp udp [0..maxfd] s lost) (\<lambda>r. case r of
        Server_on s lost \<Rightarrow> server_loop ts tcp udp maxfd s lost | _ \<Rightarrow> Inr r))"

text \<open>
  The process that serves a client: the handle of the database, the name of the network from the address of
  the socket, and the loop. The result is that of \<open>child_loop\<close>; \<open>None\<close> stands for an address that \<open>getsockname\<close> cannot give.
\<close>

definition client_process ::
  "failenv \<Rightarrow> (nat \<Rightarrow> bool) \<Rightarrow> bool \<Rightarrow> (db_connect_info \<Rightarrow> bool) \<Rightarrow> mysql \<Rightarrow> (string \<times> u16) option \<Rightarrow> int \<Rightarrow> sock_read list \<Rightarrow>
    (int option \<times> u8 list \<times> string list) ub" where
  "client_process env mem init_ok connect db addr errno rs =
     (let msg = replicate MAX_BUFF_LENGTH 0 in
      if fst (get_db_handler init_ok connect) = - 1 then Inr (Some (- 1), msg, [])
      else case addr of
        None \<Rightarrow> Inr (Some errno, msg, [])
      | Some (ip, prt) \<Rightarrow>
          bind_ub (put_str 1024 (ip @ '':'' @ decimal (unat prt))) (\<lambda>netname. child_loop env mem db netname errno rs msg 0))"

subsection \<open>Commands\<close>

definition command_ok :: "server_turn \<Rightarrow> bool" where
  "command_ok t \<longleftrightarrow> (\<forall>i. tn_mem t i) \<and> (\<forall>cmd. tn_recv t = Some cmd \<longrightarrow>
     length cmd < MAX_BUFF_LENGTH \<and> length (words cmd) \<le> 128 \<and> (\<forall>w \<in> set (words cmd). length w < 128) \<and> NUL \<notin> set cmd)"

lemma command_returns:
  assumes "command_ok t"
  shows "\<exists>flag. interactive_command (tn_mem t) (tn_recv t) opts = Inr flag"
proof -
  have rows: "map (\<lambda>i. if tn_mem t i then replicate 128 NUL else []) [0..<128] = replicate 128 (replicate 128 NUL)"
    using assms by (simp add: command_ok_def map_replicate_const)
  show ?thesis
  proof (cases "tn_recv t")
    case None
    have "peek (replicate MAX_BUFF_LENGTH NUL) 0 = Inr NUL" by (simp add: peek_def MAX_BUFF_LENGTH_def)
    then have "skip_leading (replicate MAX_BUFF_LENGTH NUL) 0 = Inr 0" by (subst skip_leading.simps) (simp add: NUL_def)
    then have "str_to_argc_argv (replicate MAX_BUFF_LENGTH NUL) (- 1) (replicate 128 (replicate 128 NUL)) = Inr (0, replicate 128 (replicate 128 NUL))"
      by (simp add: str_to_argc_argv_def split_words.simps)
    then show ?thesis unfolding interactive_command_def rows by (simp add: None)
  next
    case (Some cmd)
    have c: "length cmd < MAX_BUFF_LENGTH" "length (words cmd) \<le> 128" "\<forall>w \<in> set (words cmd). length w < 128" "NUL \<notin> set cmd"
      using assms Some by (auto simp: command_ok_def)
    obtain argv where "str_to_argc_argv (cmd @ replicate (MAX_BUFF_LENGTH - length cmd) NUL) (int (length cmd)) (replicate 128 (replicate 128 NUL)) =
        Inr (length (words cmd), argv)" using command_split [OF c] by blast
    then show ?thesis unfolding interactive_command_def rows using c(1) by (simp add: Some)
  qed
qed

subsection \<open>The loop\<close>

definition turn_ok :: "int \<Rightarrow> int \<Rightarrow> server_turn \<Rightarrow> bool" where
  "turn_ok tcp udp t \<longleftrightarrow> 0 \<le> tn_select t \<and> \<not> tn_error t tcp \<and> \<not> tn_error t udp \<and>
     (tn_ready t tcp \<longrightarrow> accept_ok (tn_accept t)) \<and> (tn_ready t udp \<longrightarrow> command_ok t)"

text \<open>In a turn the commands leave the list of children alone, so that the order of the descriptors does not matter.\<close>

lemma serve_fds_eq:
  assumes "turn_ok tcp udp t" "tcp \<noteq> udp" "distinct xs" "sensor_server_ok s as"
  shows "\<exists>s' as'. serve_fds t tcp udp xs s lost = Inr (Server_on s' (lost + (if udp \<in> set xs \<and> tn_ready t udp then 128 else 0))) \<and>
    sensor_server_ok s' as' \<and>
    (if tcp \<in> set xs \<and> tn_ready t tcp
     then ss_id s' = ss_id s + 1 \<and> infos (ss_heap s') as' = infos (ss_heap s) as @ [entry_of (ss_id s) (tn_accept t)]
     else ss_id s' = ss_id s \<and> infos (ss_heap s') as' = infos (ss_heap s) as)"
  using assms(3,4)
proof (induction xs arbitrary: s as lost)
  case Nil
  then show ?case by (intro exI [of _ s] exI [of _ as]) simp
next
  case (Cons fd xs)
  have d: "distinct xs" "fd \<notin> set xs" using Cons.prems(1) by simp_all
  consider (tcp) "fd = tcp" "tn_ready t tcp" | (udp) "fd = udp" "tn_ready t udp" | (no) "\<not> (fd \<in> {tcp, udp} \<and> tn_ready t fd)" by blast
  then show ?case
  proof cases
    case tcp
    obtain s1 a where s1: "accept_client (tn_accept t) s = Inr (Parent s1)" "sensor_server_ok s1 (as @ [a])" "ss_id s1 = ss_id s + 1"
        "infos (ss_heap s1) (as @ [a]) = infos (ss_heap s) as @ [entry_of (ss_id s) (tn_accept t)]"
      using accept_client_adds [OF Cons.prems(2), of "tn_accept t"] assms(1) tcp by (auto simp: turn_ok_def)
    from Cons.IH [OF d(1) s1(2), of lost] show ?thesis using tcp s1 d assms(1,2) by (simp add: turn_ok_def)
  next
    case udp
    obtain flag where "interactive_command (tn_mem t) (tn_recv t) (tn_opts t) = Inr flag"
      using command_returns [of t "tn_opts t"] assms(1) udp by (auto simp: turn_ok_def)
    moreover have "length (filter (tn_mem t) [0..<128]) = 128" using assms(1) udp by (simp add: turn_ok_def command_ok_def)
    ultimately show ?thesis using Cons.IH [OF d(1) Cons.prems(2), of "lost + 128"] udp d assms(1,2) by (simp add: turn_ok_def)
  next
    case no
    have "(udp \<in> set (fd # xs) \<and> tn_ready t udp) = (udp \<in> set xs \<and> tn_ready t udp)"
      "(tcp \<in> set (fd # xs) \<and> tn_ready t tcp) = (tcp \<in> set xs \<and> tn_ready t tcp)" using no by auto
    moreover have "serve_fds t tcp udp (fd # xs) s lost = serve_fds t tcp udp xs s lost" using no by auto
    ultimately show ?thesis using Cons.IH [OF d(1) Cons.prems(2), of lost] by (simp only:)
  qed
qed

lemma map2_entries_Cons:
  "map2 (\<lambda>k an. entry_of (i + int k) an) [0..<length (a # as)] (a # as) =
   entry_of i a # map2 (\<lambda>k an. entry_of (i + 1 + int k) an) [0..<length as] as"
  by (rule nth_equalityI) (auto simp: nth_Cons algebra_simps simp del: upt_Suc split: nat.splits)

definition accepted :: "int \<Rightarrow> server_turn list \<Rightarrow> accept_answers list" where
  "accepted tcp ts = map tn_accept (filter (\<lambda>t. tn_ready t tcp) ts)"

lemma server_loop_eq:
  assumes "tcp \<noteq> udp" "0 \<le> tcp" "tcp \<le> maxfd" "0 \<le> udp" "udp \<le> maxfd"
    and "\<forall>t \<in> set ts. turn_ok tcp udp t" "sensor_server_ok s as"
  shows "\<exists>s' as'. server_loop ts tcp udp maxfd s lost = Inr (Server_on s' (lost + 128 * length (filter (\<lambda>t. tn_ready t udp) ts))) \<and>
    sensor_server_ok s' as' \<and>
    infos (ss_heap s') as' = infos (ss_heap s) as @ map2 (\<lambda>k an. entry_of (ss_id s + int k) an) [0..<length (accepted tcp ts)] (accepted tcp ts)"
  using assms(6,7)
proof (induction ts arbitrary: s as lost)
  case Nil
  then show ?case by (intro exI [of _ s] exI [of _ as]) (simp add: accepted_def)
next
  case (Cons t ts)
  have t: "turn_ok tcp udp t" "\<forall>t \<in> set ts. turn_ok tcp udp t" using Cons.prems(1) by simp_all
  have m: "tcp \<in> set [0..maxfd]" "udp \<in> set [0..maxfd]" using assms(2-5) by simp_all
  obtain s1 as1 where s1: "serve_fds t tcp udp [0..maxfd] s lost = Inr (Server_on s1 (lost + (if tn_ready t udp then 128 else 0)))"
      "sensor_server_ok s1 as1" "if tn_ready t tcp
         then ss_id s1 = ss_id s + 1 \<and> infos (ss_heap s1) as1 = infos (ss_heap s) as @ [entry_of (ss_id s) (tn_accept t)]
         else ss_id s1 = ss_id s \<and> infos (ss_heap s1) as1 = infos (ss_heap s) as"
    using serve_fds_eq [OF t(1) assms(1) distinct_upto Cons.prems(2), of 0 maxfd lost] m by auto
  obtain s' as' where s': "server_loop ts tcp udp maxfd s1 (lost + (if tn_ready t udp then 128 else 0)) =
        Inr (Server_on s' (lost + (if tn_ready t udp then 128 else 0) + 128 * length (filter (\<lambda>t. tn_ready t udp) ts)))"
      "sensor_server_ok s' as'" "infos (ss_heap s') as' = infos (ss_heap s1) as1 @
        map2 (\<lambda>k an. entry_of (ss_id s1 + int k) an) [0..<length (accepted tcp ts)] (accepted tcp ts)"
    using Cons.IH [OF t(2) s1(2)] by blast
  have "infos (ss_heap s') as' = infos (ss_heap s) as @
      map2 (\<lambda>k an. entry_of (ss_id s + int k) an) [0..<length (accepted tcp (t # ts))] (accepted tcp (t # ts))"
    using s1(3) s'(3) map2_entries_Cons [of "ss_id s" "tn_accept t" "accepted tcp ts"]
    by (cases "tn_ready t tcp") (simp_all add: accepted_def del: upt_Suc)
  then show ?case using s1(1) s' t(1) by (intro exI [of _ s'] exI [of _ as']) (simp add: turn_ok_def)
qed

subsection \<open>From the command line to the list of children\<close>

definition sockets_ok :: "server_env \<Rightarrow> int \<Rightarrow> int \<Rightarrow> bool" where
  "sockets_ok env port1 port2 \<longleftrightarrow> tcp_socket env \<and> tcp_bind env (word_of_int port1) \<and> tcp_listen env \<and>
     udp_socket env \<and> udp_bind env (word_of_int port2)"

lemma server_start_opens:
  assumes "dense k p" "k + 2 \<le> fd_limit p" "k + 2 \<le> 1024" "sockets_ok env port1 port2" "atoi_ub a1 = Inr port1" "atoi_ub a2 = Inr port2"
  shows "\<exists>s p'. server_start env [prog, a1, a2] p = Inr (Goes_on (int k, int k + 1, int k + 1, s, p')) \<and>
    sensor_server_start = Some s \<and> fds p' = (fds p)(k \<mapsto> Listening (word_of_int port1), Suc k \<mapsto> Datagram (word_of_int port2))"
proof -
  obtain s where s: "sensor_server_start = Some s"
    by (simp add: sensor_server_start_def pid_vector_init_def calloc_node_def)
  have k: "k < fd_limit p" using assms(2) by simp
  let ?p1 = "p\<lparr>fds := (fds p)(k \<mapsto> Listening (word_of_int port1)), nonblocking := (nonblocking p)(k := False)\<rparr>"
  have t: "open_sensor_tcp_socket env port1 p = Goes_on (int k, ?p1)"
    using dense_open(1) [OF assms(1) k] assms(4) by (simp add: open_sensor_tcp_socket_def sockets_ok_def Let_def)
  have d: "dense (Suc k) ?p1" using dense_open(2) [OF assms(1) k] .
  let ?p2 = "?p1\<lparr>fds := (fds ?p1)(Suc k \<mapsto> Datagram (word_of_int port2)), nonblocking := (nonblocking ?p1)(Suc k := False)\<rparr>"
  have "Suc k < fd_limit ?p1" using assms(2) by simp
  then have u: "open_interact_udp_socket env port2 ?p1 = Goes_on (int (Suc k), ?p2)"
    using dense_open(1) [OF d] assms(4) by (simp add: open_interact_udp_socket_def sockets_ok_def Let_def nat_add_distrib)
  have "in_fd_set (int k)" "in_fd_set (int (Suc k))" using assms(3) by (simp_all add: in_fd_set_def)
  then have "server_start env [prog, a1, a2] p = Inr (Goes_on (int k, int k + 1, int k + 1, s, ?p2))"
    unfolding server_start_def s option.case using t u assms(5,6) by simp
  with s show ?thesis by (intro exI [of _ s] exI [of _ ?p2]) simp
qed


text \<open>Two clients, with a command between them.\<close>

definition one_turn :: server_turn where
  "one_turn = \<lparr>tn_select = 1, tn_ready = (\<lambda>fd. fd = 3),  tn_error = (\<lambda>_. False),
     tn_accept = \<lparr>an_mem = True, an_fd = 5, an_pipe = Some (6, 7), an_name = ''a'', an_pid = 100\<rparr>, tn_recv = Some ''get --sysinfo'', tn_opts = [], tn_mem = (\<lambda>_. True)\<rparr>"

definition open_world :: server_env where
  "open_world = \<lparr>tcp_socket = True, tcp_bind = (\<lambda>_. True), tcp_listen = True, udp_socket = True, udp_bind = (\<lambda>_. True), sv_errno = 0\<rparr>"


subsection \<open>The process of a client\<close>

text \<open>The text of an address and a port always fits, and the database gets what the client sent.\<close>

lemma port_text: "length (decimal (unat (w :: u16))) \<le> 5"
proof -
  have "unat w < 10 ^ 5" using unsigned_less [of w, where 'a = nat] by simp
  then show ?thesis by (rule decimal_length) simp
qed

lemma client_process_stores:
  assumes "list_all2 (sample_packet env) pkts ss" "\<forall>k. mem k" "init_ok" "connect fill_connect_info" "length ip \<le> 15"
  shows "\<exists>msg'. client_process env mem init_ok connect db (Some (ip, prt)) errno (map Got pkts @ [Got []]) =
    Inr (Some 0, msg', concat (map (sample_commands (ip @ '':'' @ decimal (unat prt))) ss))"
proof -
  have l: "length (ip @ '':'' @ decimal (unat prt)) < 50" using assms(5) port_text [of prt] by simp
  have m: "length (replicate MAX_BUFF_LENGTH 0) = MAX_BUFF_LENGTH" by simp
  from child_loop_stores [OF assms(1) l assms(2) m, of db errno 0] show ?thesis
    using assms(3,4) l by (simp add: client_process_def get_db_handler_def Let_def)
qed

end
