(* ===== verification/UserModules.thy ===== *)
theory UserModules
  imports DbConnector
begin

section \<open>The user modules\<close>

text \<open>
  The modules the web server loads for POST requests (src/src/modules/user_modules): nodeInfo.c answers
  with all nodes grouped by network, realTime.c with the latest values of one sensor. Both ask the
  database connector. The JSON library is outside the repository: its values are a datatype, and how
  it parses and prints text is an argument.
\<close>

datatype json = JInt int | JDouble double | JStr string | JObj "(string \<times> json) list" | JArr "json list"

text \<open>Adding to an object replaces an entry with the same key; adding to a missing object is a fault.\<close>

definition json_object_object_add :: "json option \<Rightarrow> string \<Rightarrow> json \<Rightarrow> json option ub" where
  "json_object_object_add j k v = (case j of
      Some (JObj kvs) \<Rightarrow> Inr (Some (JObj (filter (\<lambda>kv. fst kv \<noteq> k) kvs @ [(k, v)])))
    | _ \<Rightarrow> Inl NullDeref)"

definition json_object_array_add :: "json option \<Rightarrow> json \<Rightarrow> json option ub" where
  "json_object_array_add j v = (case j of Some (JArr vs) \<Rightarrow> Inr (Some (JArr (vs @ [v]))) | _ \<Rightarrow> Inl NullDeref)"

subsection \<open>nodeInfo.c\<close>

text \<open>The search reads an element before it compares its place with the length.\<close>

function get_index_loop :: "int list \<Rightarrow> int \<Rightarrow> int \<Rightarrow> int \<Rightarrow> (int \<times> bool) ub" where
  "get_index_loop arr len v k = bind_ub (peek arr k) (\<lambda>x.
     if x \<noteq> 0 \<and> k < len then if x = v then Inr (k, True) else get_index_loop arr len v (k + 1) else Inr (k, False))"
  by pat_completeness auto
termination
  by (relation "measure (\<lambda>(arr, len, v, k). nat (int (length arr) - k))") (auto simp: peek_def split: if_splits)

declare get_index_loop.simps [simp del]

text \<open>The result, the new value of \<open>*isNew\<close>, which is left alone on failure, and the array.\<close>

definition get_index :: "int list \<Rightarrow> int \<Rightarrow> int \<Rightarrow> bool \<Rightarrow> (int \<times> bool \<times> int list) ub" where
  "get_index arr len v isNew = bind_ub (get_index_loop arr len v 0) (\<lambda>(k, found).
     if found then Inr (k, False, arr)
     else if k \<ge> len then Inr (- 1, isNew, arr)
     else bind_ub (poke arr k v) (\<lambda>arr. Inr (k, True, arr)))"

record grouping =
  flag :: "int list"
  network_object :: "json option list"
  node_array :: "json option list"
  network_num :: nat
  is_new :: bool

definition node_json :: "node_t \<Rightarrow> json" where
  "node_json n = JObj [(''node_id'', JInt (nt_node_id n)), (''parent_id'', JInt (nt_parent_id n)), (''power'', JInt 100),
     (''position_x'', JDouble (nt_x n)), (''position_y'', JDouble (nt_y n))]"

text \<open>One round of the loop over the nodes; \<open>None\<close> is the early return of \<open>-1\<close>.\<close>

definition add_node :: "nat \<Rightarrow> node_t \<Rightarrow> grouping \<Rightarrow> grouping option ub" where
  "add_node nNode n g =
     bind_ub (get_index (flag g) (int nNode) (nt_network_id n) (is_new g)) (\<lambda>(i, isNew, arr).
     let g = g\<lparr>flag := arr, is_new := isNew\<rparr> in
     if i < 0 then Inr None
     else
       bind_ub (if isNew then
           bind_ub (json_object_object_add (Some (JObj [])) ''network_id'' (JInt (nt_network_id n))) (\<lambda>j.
           bind_ub (json_object_object_add j ''network_name'' (JStr (nt_network_name n))) (\<lambda>j.
           bind_ub (poke (network_object g) i j) (\<lambda>objs.
           bind_ub (poke (node_array g) i (Some (JArr []))) (\<lambda>arrs.
             Inr (g\<lparr>network_num := network_num g + 1, network_object := objs, node_array := arrs\<rparr>)))))
         else Inr g) (\<lambda>g.
       bind_ub (peek (node_array g) i) (\<lambda>a.
       bind_ub (json_object_array_add a (node_json n)) (\<lambda>a.
       bind_ub (poke (node_array g) i a) (\<lambda>arrs. Inr (Some (g\<lparr>node_array := arrs\<rparr>)))))))"

primrec add_nodes :: "nat \<Rightarrow> node_t list \<Rightarrow> grouping \<Rightarrow> grouping option ub" where
  "add_nodes nNode [] g = Inr (Some g)"
| "add_nodes nNode (n # ns) g = bind_ub (add_node nNode n g) (\<lambda>r. case r of None \<Rightarrow> Inr None | Some g \<Rightarrow> add_nodes nNode ns g)"

text \<open>The loop that puts the groups together, for the places \<open>i\<close> up to the number of networks.\<close>

primrec assemble :: "grouping \<Rightarrow> nat \<Rightarrow> nat \<Rightarrow> json option \<Rightarrow> json option ub" where
  "assemble g i 0 net = Inr net"
| "assemble g i (Suc k) net =
     bind_ub (peek (network_object g) (int i)) (\<lambda>obj.
     bind_ub (peek (node_array g) (int i)) (\<lambda>arr. case arr of
        None \<Rightarrow> Inl NullDeref
      | Some arr \<Rightarrow>
          bind_ub (json_object_object_add obj ''nodes'' arr) (\<lambda>obj. case obj of
             None \<Rightarrow> Inl NullDeref
           | Some obj \<Rightarrow> bind_ub (json_object_array_add net obj) (\<lambda>net. assemble g (Suc i) k net))))"

definition grouping_init :: "nat \<Rightarrow> grouping" where
  "grouping_init n = \<lparr>flag = replicate n 0, network_object = replicate n None, node_array = replicate n None,
     network_num = 0, is_new = False\<rparr>"

definition group_nodes :: "node_t list \<Rightarrow> json option ub" where
  "group_nodes ns = bind_ub (add_nodes (length ns) ns (grouping_init (length ns))) (\<lambda>r. case r of
      None \<Rightarrow> Inr None
    | Some g \<Rightarrow> assemble g 0 (network_num g) (Some (JArr [])))"

text \<open>
  The handler, up to the text of the response: connecting may fail, the array has 10000 nodes, the
  response 65536 characters.
\<close>

definition node_info_handler :: "bool \<Rightarrow> mysql \<Rightarrow> (string \<Rightarrow> double) \<Rightarrow> (json \<Rightarrow> string) \<Rightarrow> (int \<times> string) ub" where
  "node_info_handler online db strtod render =
     (if \<not> online then Inr (- 1, [])
      else bind_ub (get_all_node_info db strtod (replicate 10000 node_zero)) (\<lambda>(nNode, info).
        if nNode < 0 then Inr (- 1, [])
        else bind_ub (group_nodes (take (nat nNode) info)) (\<lambda>net. case net of
          None \<Rightarrow> Inr (- 1, [])
        | Some net \<Rightarrow> bind_ub (put_str 65536 (render net @ [CHR 0x0A])) (\<lambda>t. Inr (0, t)))))"


subsection \<open>Grouping\<close>

text \<open>The reference: the networks in the order in which the nodes first name them.\<close>

definition firsts :: "'a list \<Rightarrow> 'a list" where
  "firsts xs = foldl (\<lambda>D x. if x \<in> set D then D else D @ [x]) [] xs"

definition of_network :: "int \<Rightarrow> node_t list \<Rightarrow> node_t list" where
  "of_network d ns = filter (\<lambda>n. nt_network_id n = d) ns"

definition group_head :: "node_t list \<Rightarrow> int \<Rightarrow> (string \<times> json) list" where
  "group_head ns d = [(''network_id'', JInt d), (''network_name'', JStr (nt_network_name (hd (of_network d ns))))]"

definition network_groups :: "node_t list \<Rightarrow> json" where
  "network_groups ns = JArr (map (\<lambda>d. JObj (group_head ns d @ [(''nodes'', JArr (map node_json (of_network d ns)))]))
     (firsts (map nt_network_id ns)))"

lemma firsts_snoc: "firsts (xs @ [x]) = (if x \<in> set (firsts xs) then firsts xs else firsts xs @ [x])"
  by (simp add: firsts_def)

lemma firsts_set: "set (firsts xs) = set xs" and firsts_distinct: "distinct (firsts xs)"
  and firsts_length: "length (firsts xs) \<le> length xs"
proof -
  show "set (firsts xs) = set xs" by (induction xs rule: rev_induct) (auto simp: firsts_snoc, simp add: firsts_def)
  show "distinct (firsts xs)" by (induction xs rule: rev_induct) (auto simp: firsts_snoc, simp add: firsts_def)
  show "length (firsts xs) \<le> length xs" by (induction xs rule: rev_induct) (auto simp: firsts_snoc, simp add: firsts_def)
qed

lemma get_index_run:
  assumes "0 \<notin> set us" "v \<notin> set us" "int (length (a @ us)) < len" "x = 0 \<or> x = v"
  shows "get_index_loop (a @ us @ x # r) len v (int (length a)) = Inr (int (length (a @ us)), x \<noteq> 0)"
  using assms(1-3)
proof (induction us arbitrary: a)
  case Nil
  then show ?case using assms(4) by (subst get_index_loop.simps) (auto simp: nth_append)
next
  case (Cons u us)
  have "get_index_loop ((a @ [u]) @ us @ x # r) len v (int (length (a @ [u]))) = Inr (int (length ((a @ [u]) @ us)), x \<noteq> 0)"
    using Cons.prems by (intro Cons.IH) auto
  then show ?case using Cons.prems by (subst get_index_loop.simps) (auto simp: nth_append algebra_simps)
qed

lemma get_index_known:
  assumes "0 \<notin> set D" "D = us @ v # vs" "v \<notin> set us" "length D \<le> n"
  shows "get_index (D @ replicate m 0) (int n) v b = Inr (int (length us), False, D @ replicate m 0)"
  using get_index_run [of us v "[]" "int n" v "vs @ replicate m 0"] assms by (simp add: get_index_def)

lemma get_index_new:
  assumes "0 \<notin> set D" "v \<notin> set D" "length D < n"
  shows "get_index (D @ replicate (n - length D) 0) (int n) v b = Inr (int (length D), True, (D @ [v]) @ replicate (n - Suc (length D)) 0)"
proof -
  obtain m where m: "n - length D = Suc m" using assms(3) by (metis Suc_diff_Suc)
  then have "n - Suc (length D) = m" by simp
  with m show ?thesis
    using get_index_run [of D v "[]" "int n" 0 "replicate m 0"] assms
    by (simp add: get_index_def list_update_append)
qed

definition group_inv :: "nat \<Rightarrow> node_t list \<Rightarrow> grouping \<Rightarrow> bool" where
  "group_inv n pre g \<longleftrightarrow> (let D = firsts (map nt_network_id pre); m = n - length D in
     flag g = D @ replicate m 0 \<and>
     network_object g = map (\<lambda>d. Some (JObj (group_head pre d))) D @ replicate m None \<and>
     node_array g = map (\<lambda>d. Some (JArr (map node_json (of_network d pre)))) D @ replicate m None \<and>
     network_num g = length D)"

lemma group_head_keeps:
  assumes "d \<in> nt_network_id ` set pre"
  shows "group_head (pre @ [x]) d = group_head pre d"
proof -
  have "of_network d pre \<noteq> []" using assms by (auto simp: of_network_def filter_empty_conv)
  then show ?thesis by (simp add: group_head_def of_network_def)
qed

lemma group_parts:
  assumes inv: "group_inv n pre g" and len: "length pre < n" and nz: "\<forall>y \<in> set (pre @ [x]). nt_network_id y \<noteq> 0"
  shows "set (firsts (map nt_network_id pre)) = nt_network_id ` set pre" "distinct (firsts (map nt_network_id pre))"
    "length (firsts (map nt_network_id pre)) < n" "0 \<notin> set (firsts (map nt_network_id pre))"
    "flag g = firsts (map nt_network_id pre) @ replicate (n - length (firsts (map nt_network_id pre))) 0"
    "network_object g = map (\<lambda>d. Some (JObj (group_head pre d))) (firsts (map nt_network_id pre)) @
      replicate (n - length (firsts (map nt_network_id pre))) None"
    "node_array g = map (\<lambda>d. Some (JArr (map node_json (of_network d pre)))) (firsts (map nt_network_id pre)) @
      replicate (n - length (firsts (map nt_network_id pre))) None"
    "network_num g = length (firsts (map nt_network_id pre))"
    "map (\<lambda>d. Some (JObj (group_head (pre @ [x]) d))) (firsts (map nt_network_id pre)) =
      map (\<lambda>d. Some (JObj (group_head pre d))) (firsts (map nt_network_id pre))"
  using len nz firsts_length [of "map nt_network_id pre"] inv group_head_keeps
  by (auto simp: firsts_set firsts_distinct group_inv_def Let_def)

text \<open>A node of a network that has its group, and the first node of a network.\<close>

lemma add_node_known:
  assumes inv: "group_inv n pre g" and len: "length pre < n" and nz: "\<forall>y \<in> set (pre @ [x]). nt_network_id y \<noteq> 0"
    and v: "v = nt_network_id x"
    and True: "v \<in> set (firsts (map nt_network_id pre))"
  shows "\<exists>g'. add_node n x g = Inr (Some g') \<and> group_inv n (pre @ [x]) g'"
proof -
  define D where "D = firsts (map nt_network_id pre)"
  note D = group_parts(1-4) [OF inv len nz, folded D_def] and g = group_parts(5-8) [OF inv len nz, folded D_def]
    and heads = group_parts(9) [OF inv len nz, folded D_def]
  from True [folded D_def] obtain us vs where us: "D = us @ v # vs" "v \<notin> set us" by (metis split_list_first)
  have vs: "v \<notin> set vs" using D(2) us by auto
  let ?arrs = "\<lambda>ns. map (\<lambda>d. Some (JArr (map node_json (of_network d ns)))) D @ replicate (n - length D) None"
  have idx: "get_index (flag g) (int n) v (is_new g) = Inr (int (length us), False, flag g)"
    using get_index_known [OF D(4) us] D(3) g(1) by simp
  have at: "peek (node_array g) (int (length us)) = Inr (Some (JArr (map node_json (of_network v pre))))"
    by (simp add: g(3) us(1) nth_append)
  have up: "poke (node_array g) (int (length us)) (Some (JArr (map node_json (of_network v (pre @ [x]))))) = Inr (?arrs (pre @ [x]))"
  proof -
    have "of_network d (pre @ [x]) = of_network d pre" if "d \<noteq> v" for d using that by (simp add: of_network_def v)
    then have "map (\<lambda>d. Some (JArr (map node_json (of_network d (pre @ [x]))))) us = map (\<lambda>d. Some (JArr (map node_json (of_network d pre)))) us"
      "map (\<lambda>d. Some (JArr (map node_json (of_network d (pre @ [x]))))) vs = map (\<lambda>d. Some (JArr (map node_json (of_network d pre)))) vs"
      using us(2) vs by (simp_all add: map_eq_conv) metis+
    then show ?thesis by (simp add: g(3) us(1) list_update_append poke_def)
  qed
  have on: "of_network v (pre @ [x]) = of_network v pre @ [x]" by (simp add: of_network_def v)
  have "add_node n x g = Inr (Some (g\<lparr>flag := flag g, is_new := False, node_array := ?arrs (pre @ [x])\<rparr>))"
    using idx at up by (simp add: add_node_def v [symmetric] Let_def json_object_array_add_def on)
  moreover have "group_inv n (pre @ [x]) (g\<lparr>flag := flag g, is_new := False, node_array := ?arrs (pre @ [x])\<rparr>)"
    using True [folded D_def] g heads by (simp add: group_inv_def Let_def firsts_snoc v [symmetric] D_def [symmetric])
  ultimately show ?thesis by blast
qed

lemma add_node_new:
  assumes inv: "group_inv n pre g" and len: "length pre < n" and nz: "\<forall>y \<in> set (pre @ [x]). nt_network_id y \<noteq> 0"
    and v: "v = nt_network_id x"
    and F: "v \<notin> set (firsts (map nt_network_id pre))"
  shows "\<exists>g'. add_node n x g = Inr (Some g') \<and> group_inv n (pre @ [x]) g'"
proof -
  define D where "D = firsts (map nt_network_id pre)"
  note D = group_parts(1-4) [OF inv len nz, folded D_def] and g = group_parts(5-8) [OF inv len nz, folded D_def]
    and heads = group_parts(9) [OF inv len nz, folded D_def]
  note False = F [folded D_def]
  obtain m where m: "n - length D = Suc m" using D(3) by (metis Suc_diff_Suc)
  then have m': "n - Suc (length D) = m" by simp
  have idx: "get_index (flag g) (int n) v (is_new g) = Inr (int (length D), True, (D @ [v]) @ replicate m 0)"
    using get_index_new [OF D(4) False D(3)] g(1) m' by simp
  have none: "of_network v pre = []" using False D(1) by (auto simp: of_network_def filter_empty_conv)
  have same: "map (\<lambda>d. Some (JArr (map node_json (of_network d (pre @ [x]))))) D = map (\<lambda>d. Some (JArr (map node_json (of_network d pre)))) D"
    using False by (auto simp: of_network_def v)
  let ?g = "g\<lparr>flag := (D @ [v]) @ replicate m 0, is_new := True, network_num := network_num g + 1,
    network_object := map (\<lambda>d. Some (JObj (group_head (pre @ [x]) d))) (D @ [v]) @ replicate m None,
    node_array := map (\<lambda>d. Some (JArr (map node_json (of_network d (pre @ [x]))))) (D @ [v]) @ replicate m None\<rparr>"
  have gh: "group_head (pre @ [x]) v = [(''network_id'', JInt v), (''network_name'', JStr (nt_network_name x))]"
    using none by (simp add: group_head_def of_network_def v)
  have on: "of_network v (pre @ [x]) = [x]" using none by (simp add: of_network_def v)
  have "add_node n x g = Inr (Some ?g)"
    using idx m heads same
    by (simp add: add_node_def v [symmetric] Let_def json_object_object_add_def json_object_array_add_def g(2,3) list_update_append
        gh on nth_append)
  moreover have "group_inv n (pre @ [x]) ?g"
    using False g(4) m' by (simp add: group_inv_def Let_def firsts_snoc v [symmetric] D_def [symmetric])
  ultimately show ?thesis by blast
qed

lemma add_node_inv:
  assumes "group_inv n pre g" and "length pre < n" and "\<forall>y \<in> set (pre @ [x]). nt_network_id y \<noteq> 0"
  shows "\<exists>g'. add_node n x g = Inr (Some g') \<and> group_inv n (pre @ [x]) g'"
  using add_node_known [OF assms refl] add_node_new [OF assms refl] by blast

lemma add_nodes_inv:
  assumes "group_inv n pre g" "length pre + length ns \<le> n" "\<forall>y \<in> set (pre @ ns). nt_network_id y \<noteq> 0"
  shows "\<exists>g'. add_nodes n ns g = Inr (Some g') \<and> group_inv n (pre @ ns) g'"
  using assms
proof (induction ns arbitrary: pre g)
  case (Cons x ns)
  obtain g1 where g1: "add_node n x g = Inr (Some g1)" "group_inv n (pre @ [x]) g1"
    using add_node_inv [OF Cons.prems(1), of x] Cons.prems(2,3) by auto
  with Cons.IH [OF g1(2)] Cons.prems(2,3) show ?case by auto
qed auto

lemma assemble_groups:
  assumes "network_object g = map (\<lambda>d. Some (JObj (h d))) D @ r1" "node_array g = map (\<lambda>d. Some (a d)) D @ r2"
    and "\<forall>d. ''nodes'' \<notin> fst ` set (h d)" "i + k = length D"
  shows "assemble g i k (Some (JArr acc)) = Inr (Some (JArr (acc @ map (\<lambda>d. JObj (h d @ [(''nodes'', a d)])) (drop i D))))"
  using assms(4)
proof (induction k arbitrary: i acc)
  case (Suc k)
  then have i: "i < length D" by simp
  have f: "filter (\<lambda>kv. fst kv \<noteq> ''nodes'') (h d) = h d" for d using assms(3) by (force simp: filter_id_conv)
  have "drop i D = D ! i # drop (Suc i) D" using i by (simp add: Cons_nth_drop_Suc)
  with Suc.IH [of "Suc i" "acc @ [JObj (h (D ! i) @ [(''nodes'', a (D ! i))])]"] Suc.prems i assms(1,2) show ?case
    by (simp add: nth_append json_object_object_add_def json_object_array_add_def f)
qed simp

lemma group_nodes_groups:
  assumes "\<forall>y \<in> set ns. nt_network_id y \<noteq> 0"
  shows "group_nodes ns = Inr (Some (network_groups ns))"
proof -
  let ?n = "length ns" and ?D = "firsts (map nt_network_id ns)"
  have "group_inv ?n [] (grouping_init ?n)"
    by (simp add: group_inv_def grouping_init_def Let_def firsts_def)
  then obtain g where g: "add_nodes ?n ns (grouping_init ?n) = Inr (Some g)" "group_inv ?n ns g"
    using add_nodes_inv [of ?n "[]" "grouping_init ?n" ns] assms by auto
  have "assemble g 0 (length ?D) (Some (JArr [])) =
      Inr (Some (JArr ([] @ map (\<lambda>d. JObj (group_head ns d @ [(''nodes'', JArr (map node_json (of_network d ns)))])) (drop 0 ?D))))"
    using g(2) by (intro assemble_groups) (auto simp: group_inv_def Let_def group_head_def)
  with g show ?thesis by (simp add: group_nodes_def network_groups_def group_inv_def Let_def)
qed

lemma node_command_fits: "length (call ''sp_get_all_node_info'' [fmt_d NETWORK_FLUSH_TIMEOUT]) < DB_COMMAND_LENGTH"
  by code_simp


text \<open>
  A network id of zero marks a free place of \<open>flag\<close>, so the place is given away again and the loop
  that puts the groups together meets a missing object.
\<close>

lemma zero_network_fault:
  "group_nodes [node_zero\<lparr>nt_network_id := 0\<rparr>, node_zero\<lparr>nt_network_id := 5\<rparr>] = Inl NullDeref"
  by (simp add: group_nodes_def grouping_init_def add_node_def get_index_def get_index_loop.simps peek_def poke_def Let_def
      json_object_object_add_def json_object_array_add_def numeral_2_eq_2)


definition three_rows :: "string option list list" where
  "three_rows = map (map Some)
     [[''7'', ''lab'', ''1'', ''0'', ''work'', ''ok'', ''9'', ''a'', ''b''],
      [''4'', ''roof'', ''2'', ''0'', ''work'', ''ok'', ''9'', ''a'', ''b''],
      [''7'', ''lab'', ''3'', ''1'', ''work'', ''ok'', ''9'', ''a'', ''b'']]"

definition three_db :: mysql where
  "three_db = (\<lambda>_. \<lparr>rp_ret = 0, rp_affected = - 1, rp_rows = Some three_rows, rp_field_count = 9, rp_next = [0]\<rparr>)"

definition three_node :: "int \<Rightarrow> string \<Rightarrow> int \<Rightarrow> int \<Rightarrow> node_t" where
  "three_node net nm i p = \<lparr>nt_network_id = net, nt_network_name = nm, nt_node_id = i, nt_parent_id = p, nt_work_state = ''work'',
     nt_node_status = ''ok'', nt_power = 9, nt_x = Fin 1, nt_y = Fin 1\<rparr>"

definition three_nodes :: "node_t list" where
  "three_nodes = [three_node 7 ''lab'' 1 0, three_node 4 ''roof'' 2 0, three_node 7 ''lab'' 3 1]"

definition group_count :: "json \<Rightarrow> string" where
  "group_count j = (case j of JArr gs \<Rightarrow> decimal (length gs) | _ \<Rightarrow> [])"

lemma three_rows_read: "k < 3 \<Longrightarrow> node_row (\<lambda>_. Fin 1) (three_rows ! k) node_zero = Inr (three_nodes ! k)"
proof -
  have a: "atoi_ub ''7'' = Inr 7" "atoi_ub ''4'' = Inr 4" "atoi_ub ''1'' = Inr 1" "atoi_ub ''2'' = Inr 2" "atoi_ub ''3'' = Inr 3"
    "atoi_ub ''0'' = Inr 0" "atoi_ub ''9'' = Inr 9" by code_simp+
  assume "k < 3"
  then consider "k = 0" | "k = 1" | "k = 2" by linarith
  then show ?thesis
    by cases (simp_all add: three_rows_def three_nodes_def three_node_def node_row_def int_column_def str_column_def double_column_def
        column_def peek_def a)
qed

lemma three_groups:
  "network_groups three_nodes =
     JArr [JObj [(''network_id'', JInt 7), (''network_name'', JStr ''lab''),
             (''nodes'', JArr [node_json (three_node 7 ''lab'' 1 0), node_json (three_node 7 ''lab'' 3 1)])],
           JObj [(''network_id'', JInt 4), (''network_name'', JStr ''roof''), (''nodes'', JArr [node_json (three_node 4 ''roof'' 2 0)])]]"
  by (simp add: network_groups_def three_nodes_def three_node_def firsts_def group_head_def of_network_def)


subsection \<open>realTime.c\<close>

text \<open>
  The request: \<open>None\<close> for a missing request, otherwise what the JSON library finds in the text: the text
  may be no JSON, and the entries it is asked for may be missing.
\<close>

record rt_request =
  rq_net_name :: string
  rq_node_id :: int
  rq_sense :: string
  rq_num :: "string option"

record rt_env =
  rt_parse :: "string \<Rightarrow> rt_request option"
  rt_connect :: bool
  rt_now :: "string option"
  rt_strtod :: "string \<Rightarrow> double"
  rt_render :: "json \<Rightarrow> string"

definition value_json :: "sensor_t \<Rightarrow> json" where
  "value_json r = JObj [(''time'', JStr (st_time r)), (''value'', JDouble (st_temp r))]"

text \<open>The loop runs to the number of records asked for, not to the number found.\<close>

primrec value_list :: "sensor_t list \<Rightarrow> nat \<Rightarrow> nat \<Rightarrow> json list ub" where
  "value_list info i 0 = Inr []"
| "value_list info i (Suc k) = bind_ub (peek info (int i)) (\<lambda>r. bind_ub (value_list info (Suc i) k) (\<lambda>js. Inr (value_json r # js)))"

definition SENSOR_RECORDS :: nat where "SENSOR_RECORDS = 65536"

text \<open>
  Every path that fails goes through \<open>mysql_close\<close>: before the handle was set that is a use of an
  uninitialised object, and after \<open>get_db_handler\<close> failed it closes a handle that is closed already.
\<close>

definition real_time_handler :: "rt_env \<Rightarrow> mysql \<Rightarrow> string option \<Rightarrow> (int \<times> string) ub" where
  "real_time_handler env db req = (case req of
      None \<Rightarrow> Inl Uninitialised
    | Some text \<Rightarrow> (case rt_parse env text of
        None \<Rightarrow> Inl Uninitialised
      | Some rq \<Rightarrow> (case rq_num rq of
          None \<Rightarrow> Inl NullDeref
        | Some num \<Rightarrow>
            bind_ub (atoi_ub num) (\<lambda>requestNum.
            if \<not> rt_connect env then Inl UseAfterFree
            else (case rt_now env of
              None \<Rightarrow> Inr (- 1, [])
            | Some start_time \<Rightarrow>
                bind_ub (int_ub (- requestNum)) (\<lambda>neg.
                bind_ub (get_relative_record db (rt_strtod env) (replicate SENSOR_RECORDS sensor_zero) (rq_net_name rq) (rq_node_id rq)
                    (rq_sense rq) start_time neg) (\<lambda>(ret, info).
                if ret < 0 then Inr (- 1, [])
                else
                  bind_ub (value_list info 0 (nat requestNum)) (\<lambda>js.
                  bind_ub (put_str 65536 (rt_render env (JArr js) @ [CHR 0x0A])) (\<lambda>t. Inr (0, t))))))))))"

lemma value_list_take: "i + k \<le> length info \<Longrightarrow> value_list info i k = Inr (map value_json (take k (drop i info)))"
proof (induction k arbitrary: i)
  case (Suc k)
  then have "drop i info = info ! i # drop (Suc i) info" by (simp add: Cons_nth_drop_Suc)
  with Suc show ?case by simp
qed simp

text \<open>
  The realTime module answers with as many values as were asked for: those the database
  found, in order, and when it found fewer, records with an empty time and the value zero for the rest.
\<close>

theorem real_time_pads:
  assumes rq: "rt_parse env text = Some rq" "rq_num rq = Some num" "atoi num = int n" "n \<le> SENSOR_RECORDS"
    and on: "rt_connect env" "rt_now env = Some start"
    and cmd: "cmd = call ''sp_get_relative_record'' [quoted (rq_net_name rq), fmt_d (rq_node_id rq), quoted (rq_sense rq), start, fmt_d (- int n)]"
      "length cmd < DB_COMMAND_LENGTH"
    and reply: "rp_ret (db cmd) = 0" "rp_affected (db cmd) < 1" "rp_rows (db cmd) = Some rows" "length rows \<le> n"
    and rows: "length vs = length rows" "\<forall>k < length rows. value_row (rt_strtod env) (rows ! k) sensor_zero = Inr (vs ! k)"
    and fits: "length (rt_render env (JArr (map value_json (vs @ replicate (n - length vs) sensor_zero)))) < 65535"
  shows "real_time_handler env db (Some text) =
    Inr (0, rt_render env (JArr (map value_json (vs @ replicate (n - length vs) sensor_zero))) @ [CHR 0x0A])"
proof -
  let ?info = "replicate SENSOR_RECORDS sensor_zero"
  have "fetch (value_row (rt_strtod env)) rows ?info 0 = Inr (take 0 ?info @ vs @ drop (0 + length rows) ?info, 0 + length rows)"
    using rows reply(4) rq(4) by (intro fetch_rows) simp_all
  then have "get_relative_record db (rt_strtod env) ?info (rq_net_name rq) (rq_node_id rq) (rq_sense rq) start (- int n) =
      Inr (int (length rows), vs @ replicate (SENSOR_RECORDS - length rows) sensor_zero)"
    using reply cmd by (simp add: get_relative_record_def read_rows_def Let_def)
  moreover have "value_list (vs @ replicate (SENSOR_RECORDS - length rows) sensor_zero) 0 n =
      Inr (map value_json (vs @ replicate (n - length vs) sensor_zero))"
    using rows(1) reply(4) rq(4) by (subst value_list_take) simp_all
  moreover have "atoi_ub num = Inr (int n)" "int_ub (- int n) = Inr (- int n)"
    using rq(3,4) by (simp_all add: atoi_ub_def int_ub_def SENSOR_RECORDS_def)
  ultimately show ?thesis using rq(1,2) on fits by (simp add: real_time_handler_def)
qed


definition value_count :: "json \<Rightarrow> string" where
  "value_count j = group_count j"

definition one_value_db :: mysql where
  "one_value_db = (\<lambda>_. \<lparr>rp_ret = 0, rp_affected = - 1, rp_rows = Some [[Some ''21.5'', Some ''noon'']], rp_field_count = 2, rp_next = []\<rparr>)"

definition three_wanted :: rt_env where
  "three_wanted = \<lparr>rt_parse = (\<lambda>_. Some \<lparr>rq_net_name = ''lab'', rq_node_id = 1, rq_sense = ''temp'', rq_num = Some ''3''\<rparr>),
     rt_connect = True, rt_now = Some ''20120927220609'', rt_strtod = (\<lambda>_. Fin 21.5), rt_render = value_count\<rparr>"

theorem real_time_pads_witness:
  "real_time_handler three_wanted one_value_db (Some ''{}'') =
     Inr (0, value_count (JArr (map value_json ([sensor_zero\<lparr>st_temp := Fin 21.5, st_time := ''noon''\<rparr>] @ replicate 2 sensor_zero))) @ [CHR 0x0A])"
proof -
  let ?cmd = "call ''sp_get_relative_record'' [quoted ''lab'', fmt_d 1, quoted ''temp'', ''20120927220609'', fmt_d (- int 3)]"
  have len: "length ?cmd < DB_COMMAND_LENGTH" by code_simp
  have d: "atoi ''3'' = int 3" by code_simp
  have c: "length (decimal (Suc (Suc (Suc 0)))) = 1" by code_simp
  have "real_time_handler three_wanted one_value_db (Some ''{}'') =
      Inr (0, rt_render three_wanted (JArr (map value_json ([sensor_zero\<lparr>st_temp := Fin 21.5, st_time := ''noon''\<rparr>] @
        replicate (3 - length [sensor_zero\<lparr>st_temp := Fin 21.5, st_time := ''noon''\<rparr>]) sensor_zero))) @ [CHR 0x0A])"
    by (rule real_time_pads [where rows = "[[Some ''21.5'', Some ''noon'']]" and cmd = ?cmd
          and rq = "\<lparr>rq_net_name = ''lab'', rq_node_id = 1, rq_sense = ''temp'', rq_num = Some ''3''\<rparr>"])
      (use len d c in \<open>simp_all add: three_wanted_def one_value_db_def SENSOR_RECORDS_def value_row_def double_column_def str_column_def
         column_def peek_def value_count_def group_count_def numeral_2_eq_2\<close>)
  then show ?thesis by (simp add: three_wanted_def)
qed

end
