(* ===== verification/HttpRequest.thy ===== *)
theory HttpRequest
  imports CString
begin

section \<open>The request of a connection\<close>

text \<open>
  src/http/tgx_http_parser.c: the callbacks through which the HTTP parser hands over the parts of a
  request, and the record they fill (\<open>struct tgx_http_parser_s\<close> in src/core/tgx_connection.h). The
  parser itself is a library; what it passes to a callback is an argument here. The file system is
  an argument as well, a function from paths to the result of \<open>stat\<close>, and so is the conversion of a
  date, which \<open>strptime\<close>, \<open>mktime\<close> and the time zone determine.
\<close>

subsection \<open>Data\<close>

definition TGX_MAX_HEADERS :: nat where "TGX_MAX_HEADERS = 128"
definition TGX_MAX_ELEMENT_SIZE :: nat where "TGX_MAX_ELEMENT_SIZE = 1024"
definition TGX_MAX_PATH_LENGTH :: nat where "TGX_MAX_PATH_LENGTH = 4096"

text \<open>The enumeration of statuses and the status lines it indexes.\<close>

definition TGX_HTTP_STATUS_200 :: nat where "TGX_HTTP_STATUS_200 = 0"
definition TGX_HTTP_STATUS_304 :: nat where "TGX_HTTP_STATUS_304 = 1"
definition TGX_HTTP_STATUS_400 :: nat where "TGX_HTTP_STATUS_400 = 2"
definition TGX_HTTP_STATUS_404 :: nat where "TGX_HTTP_STATUS_404 = 4"
definition TGX_HTTP_STATUS_500 :: nat where "TGX_HTTP_STATUS_500 = 5"

lemmas status_defs = TGX_HTTP_STATUS_200_def TGX_HTTP_STATUS_304_def TGX_HTTP_STATUS_400_def
  TGX_HTTP_STATUS_404_def TGX_HTTP_STATUS_500_def

definition tgx_http_status_string :: "string list" where
  "tgx_http_status_string =
     [''HTTP/1.1 200 OK'', ''HTTP/1.1 304 Not Modified'', ''HTTP/1.1 400 Bad Request'', ''HTTP/1.1 403 Forbidden'',
      ''HTTP/1.1 404 Not Found'', ''HTTP/1.1 500 Internal Server Error'', ''HTTP/1.1 505 HTTP Version not supported'']"

definition tgx_mime_type_string :: "string list" where
  "tgx_mime_type_string =
     [''text/html'', ''text/css'', ''text/javascript'', ''image/jpeg'', ''image/jpg'', ''image/png'', ''image/gif'',
      ''image/ico'', ''text/plain'']"

fun index_from :: "string list \<Rightarrow> string \<Rightarrow> int \<Rightarrow> int" where
  "index_from [] s i = - 1"
| "index_from (t # ts) s i = (if t = s then i else index_from ts s (i + 1))"

definition tgx_get_mime_type :: "string \<Rightarrow> int" where
  "tgx_get_mime_type s = index_from tgx_mime_type_string s 0"

datatype header_element = NONE | FIELD | VALUE

datatype mod_flag = NO_MODULE | CGI_MODULE | WSN_MODULE

text \<open>The headers are the first \<open>num_headers\<close> entries of the array, as pairs of field and value.\<close>

record http_parser =
  http_status :: nat
  mime_type :: nat
  path :: string
  http_method :: string
  num_headers :: nat
  last_header_element :: header_element
  headers :: "(string \<times> string) list"
  mod_flag :: mod_flag

text \<open>The record as \<open>calloc\<close> gives it.\<close>

definition new_http_parser :: http_parser where
  "new_http_parser = \<lparr>http_status = 0, mime_type = 0, path = [], http_method = [], num_headers = 0,
     last_header_element = NONE, headers = replicate TGX_MAX_HEADERS ([], []), mod_flag = NO_MODULE\<rparr>"

record statbuf =
  st_dir :: bool
  st_reg :: bool
  st_size :: nat
  st_mtime :: int

type_synonym file_system = "string \<Rightarrow> statbuf option"

subsection \<open>The address\<close>

definition strip_query :: "string \<Rightarrow> string" where
  "strip_query p = takeWhile (\<lambda>c. c \<noteq> CHR ''?'') p"

function strip_slashes :: "string \<Rightarrow> string" where
  "strip_slashes p = (if p \<noteq> [] \<and> last p = CHR ''/'' \<and> 1 < length p then strip_slashes (butlast p) else p)"
  by pat_completeness auto
termination by (relation "measure length") auto

declare strip_slashes.simps [simp del]

definition unsupported :: "string \<Rightarrow> bool" where
  "unsupported p =
     (let hit = (case strstr p ''.php'' of Some r \<Rightarrow> Some r
         | None \<Rightarrow> (case strstr p ''.aspx'' of Some r \<Rightarrow> Some r | None \<Rightarrow> strstr p ''.jsp''))
      in case hit of None \<Rightarrow> False | Some r \<Rightarrow> strstr r ''/'' = None)"

definition mime_of_path :: "string \<Rightarrow> nat" where
  "mime_of_path p =
     (if contains p ''.html'' \<or> contains p ''.htm'' then 0
      else if contains p ''.jpeg'' then 3
      else if contains p ''.jpg'' then 4
      else if contains p ''.png'' then 5
      else if contains p ''.gif'' then 6
      else if contains p ''.ico'' then 7
      else if contains p ''.js'' then 2
      else if contains p ''.css'' then 1
      else 8)"

text \<open>Looking for the index file of a directory; \<open>path_tmp\<close> has the size of \<open>path\<close>.\<close>

definition find_index :: "file_system \<Rightarrow> string \<Rightarrow> string option ub" where
  "find_index fs p =
     bind_ub (put_str TGX_MAX_PATH_LENGTH (p @ ''/index.html'')) (\<lambda>t.
       if fs t \<noteq> None then Inr (Some t)
       else bind_ub (put_str TGX_MAX_PATH_LENGTH (p @ ''/index.htm'')) (\<lambda>t.
         if fs t \<noteq> None then Inr (Some t) else Inr None))"

definition classify :: "http_parser \<Rightarrow> http_parser" where
  "classify hp =
     (let hp = hp\<lparr>mime_type := mime_of_path (path hp)\<rparr>;
          hp = (if contains (path hp) ''.wsn'' then hp\<lparr>mod_flag := WSN_MODULE\<rparr> else hp)
      in hp\<lparr>http_status := TGX_HTTP_STATUS_200\<rparr>)"

text \<open>
  \<open>tgx_http_parser_on_url_cb\<close>. \<open>method\<close> is the parser's name of the method, \<open>at\<close> the rest of the
  request from the address on; \<open>mem_path\<close> and \<open>mem_tmp\<close> are the results of the two \<open>calloc\<close> calls.
  A null connection is not modelled: the caller sets it from its own, valid pointer.
\<close>

definition tgx_http_parser_on_url_cb ::
  "bool \<Rightarrow> bool \<Rightarrow> file_system \<Rightarrow> string \<Rightarrow> string \<Rightarrow> nat \<Rightarrow> http_parser \<Rightarrow> (int \<times> http_parser) ub" where
  "tgx_http_parser_on_url_cb mem_path mem_tmp fs method at len hp =
     (if method \<noteq> ''GET'' \<and> method \<noteq> ''POST'' then Inr (0, hp\<lparr>http_status := TGX_HTTP_STATUS_400\<rparr>)
      else
        let hp = hp\<lparr>http_method := method\<rparr> in
        if \<not> mem_path then Inr (0, hp\<lparr>http_status := TGX_HTTP_STATUS_500\<rparr>)
        else
          let p = strip_slashes (strip_query (take len at)) in
          if unsupported p then Inr (0, hp\<lparr>http_status := TGX_HTTP_STATUS_400\<rparr>)
          else bind_ub (put_str TGX_MAX_PATH_LENGTH (''.'' @ p)) (\<lambda>q.
            let hp = hp\<lparr>path := q\<rparr> in
            case fs q of
              None \<Rightarrow> Inr (0, hp\<lparr>http_status := TGX_HTTP_STATUS_404\<rparr>)
            | Some st \<Rightarrow>
                if st_dir st then
                  if \<not> mem_tmp then Inr (- 1, hp)
                  else bind_ub (find_index fs q) (\<lambda>t. case t of
                      None \<Rightarrow> Inr (0, hp\<lparr>http_status := TGX_HTTP_STATUS_404\<rparr>)
                    | Some t \<Rightarrow> Inr (0, classify (hp\<lparr>path := t\<rparr>)))
                else Inr (0, classify hp)))"

subsection \<open>Headers and body\<close>

text \<open>Appending to one half of the entry \<open>num_headers - 1\<close> of the array.\<close>

definition last_entry :: "http_parser \<Rightarrow> (string \<times> string) ub" where
  "last_entry hp = peek (headers hp) (int (num_headers hp) - 1)"

definition set_last_entry :: "http_parser \<Rightarrow> string \<times> string \<Rightarrow> http_parser" where
  "set_last_entry hp e = hp\<lparr>headers := (headers hp)[num_headers hp - 1 := e]\<rparr>"

definition tgx_http_parser_on_header_field_cb :: "string \<Rightarrow> nat \<Rightarrow> http_parser \<Rightarrow> (int \<times> http_parser) ub" where
  "tgx_http_parser_on_header_field_cb at len hp =
     (let hp = (if last_header_element hp \<noteq> FIELD then hp\<lparr>num_headers := num_headers hp + 1\<rparr> else hp) in
      bind_ub (last_entry hp) (\<lambda>e.
      bind_ub (strncat TGX_MAX_ELEMENT_SIZE (fst e) at len) (\<lambda>f.
        Inr (0, (set_last_entry hp (f, snd e))\<lparr>last_header_element := FIELD\<rparr>))))"

definition tgx_http_parser_on_header_value_cb :: "string \<Rightarrow> nat \<Rightarrow> http_parser \<Rightarrow> (int \<times> http_parser) ub" where
  "tgx_http_parser_on_header_value_cb at len hp =
     bind_ub (last_entry hp) (\<lambda>e.
     bind_ub (strncat TGX_MAX_ELEMENT_SIZE (snd e) at len) (\<lambda>v.
       Inr (0, (set_last_entry hp (fst e, v))\<lparr>last_header_element := VALUE\<rparr>)))"

text \<open>The loop over the headers; \<open>since\<close> gives the time that a date header stands for.\<close>

primrec check_headers :: "(string \<Rightarrow> int) \<Rightarrow> int \<Rightarrow> (string \<times> string) list \<Rightarrow> http_parser \<Rightarrow> http_parser ub" where
  "check_headers since mtime [] hp = Inr hp"
| "check_headers since mtime (h # hs) hp =
     (if fst h = ''If-Modified-Since'' then
        bind_ub (put_str 256 (snd h)) (\<lambda>tempstring.
          check_headers since mtime hs (if since tempstring \<ge> mtime then hp\<lparr>http_status := TGX_HTTP_STATUS_304\<rparr> else hp))
      else check_headers since mtime hs hp)"

definition tgx_http_parser_on_header_complete_cb ::
  "file_system \<Rightarrow> (string \<Rightarrow> int) \<Rightarrow> http_parser \<Rightarrow> (int \<times> http_parser) ub" where
  "tgx_http_parser_on_header_complete_cb fs since hp = (case fs (path hp) of
      None \<Rightarrow> Inr (0, hp\<lparr>http_status := TGX_HTTP_STATUS_404\<rparr>)
    | Some st \<Rightarrow> bind_ub (check_headers since (st_mtime st) (take (num_headers hp) (headers hp)) hp) (\<lambda>hp'. Inr (0, hp')))"

text \<open>\<open>tgx_string_t\<close>: a size and the buffer, if there is one.\<close>

record tgx_string =
  ts_size :: nat
  ts_data :: "char list option"

text \<open>
  The body callback decides by the size of the response buffer whether the request buffer must be
  allocated; \<open>memset\<close> gets the size of a pointer.
\<close>

definition tgx_http_parser_on_body_cb ::
  "bool \<Rightarrow> string \<Rightarrow> nat \<Rightarrow> tgx_string \<Rightarrow> tgx_string \<Rightarrow> (int \<times> tgx_string) ub" where
  "tgx_http_parser_on_body_cb mem at len resp req =
     bind_ub
       (if ts_size resp < len + 1 then
          Inr \<lparr>ts_size = len + 1, ts_data = (if mem then Some (replicate (len + 1) NUL) else None)\<rparr>
        else (case ts_data req of
            None \<Rightarrow> Inl NullDeref
          | Some d \<Rightarrow> bind_ub (memset0 d 8) (\<lambda>d. Inr (req\<lparr>ts_data := Some d\<rparr>))))
       (\<lambda>req. case ts_data req of
          None \<Rightarrow> Inl NullDeref
        | Some d \<Rightarrow> bind_ub (strncpy d at len) (\<lambda>d. Inr (0, req\<lparr>ts_data := Some d\<rparr>)))"

subsection \<open>The record stays within its arrays\<close>

definition wf_http :: "http_parser \<Rightarrow> bool" where
  "wf_http hp \<longleftrightarrow> http_status hp < length tgx_http_status_string \<and> mime_type hp < length tgx_mime_type_string \<and>
     length (path hp) < TGX_MAX_PATH_LENGTH \<and> length (headers hp) = TGX_MAX_HEADERS \<and> num_headers hp \<le> TGX_MAX_HEADERS \<and>
     (\<forall>h \<in> set (headers hp). length (fst h) < TGX_MAX_ELEMENT_SIZE \<and> length (snd h) < TGX_MAX_ELEMENT_SIZE)"

lemma new_http_parser_wf: "wf_http new_http_parser"
  by (simp add: wf_http_def new_http_parser_def tgx_http_status_string_def tgx_mime_type_string_def TGX_MAX_PATH_LENGTH_def
      TGX_MAX_ELEMENT_SIZE_def)

lemma status_in_table [simp]:
  "TGX_HTTP_STATUS_200 < length tgx_http_status_string" "TGX_HTTP_STATUS_304 < length tgx_http_status_string"
  "TGX_HTTP_STATUS_400 < length tgx_http_status_string" "TGX_HTTP_STATUS_404 < length tgx_http_status_string"
  "TGX_HTTP_STATUS_500 < length tgx_http_status_string"
  by (simp_all add: status_defs tgx_http_status_string_def)

lemma mime_in_table [simp]: "mime_of_path p < length tgx_mime_type_string"
  by (simp add: mime_of_path_def tgx_mime_type_string_def)

lemma wf_http_update [inv_intros]:
  "wf_http hp \<Longrightarrow> st < length tgx_http_status_string \<Longrightarrow> wf_http (hp\<lparr>http_status := st\<rparr>)"
  "wf_http hp \<Longrightarrow> wf_http (hp\<lparr>http_method := m\<rparr>)"
  "wf_http hp \<Longrightarrow> length p < TGX_MAX_PATH_LENGTH \<Longrightarrow> wf_http (hp\<lparr>path := p\<rparr>)"
  by (simp_all add: wf_http_def)

lemma classify_wf [inv_intros]: "wf_http hp \<Longrightarrow> wf_http (classify hp)"
  by (auto simp: wf_http_def classify_def Let_def)

lemma find_index_fits: "find_index fs p = Inr (Some t) \<Longrightarrow> length t < TGX_MAX_PATH_LENGTH \<and> fs t \<noteq> None"
  by (auto simp: find_index_def bind_ub_eq_Inr put_str_Inr split: if_splits)

lemma on_url_wf: "tgx_http_parser_on_url_cb m1 m2 fs method at n hp = Inr (r, hp') \<Longrightarrow> wf_http hp \<Longrightarrow> wf_http hp'"
  by (auto simp: tgx_http_parser_on_url_cb_def Let_def bind_ub_eq_Inr put_str_Inr
      split: if_splits option.splits dest!: find_index_fits intro!: inv_intros)

lemma last_entry_range: "last_entry hp = Inr e \<Longrightarrow> 0 < num_headers hp \<and> num_headers hp \<le> length (headers hp) \<and> e = headers hp ! (num_headers hp - 1)"
  by (auto simp: last_entry_def peek_def nat_diff_distrib split: if_splits)

lemma set_last_entry_wf:
  assumes "wf_http (hp\<lparr>num_headers := n\<rparr>)" and "length f < TGX_MAX_ELEMENT_SIZE" and "length v < TGX_MAX_ELEMENT_SIZE"
    and "num_headers hp \<le> TGX_MAX_HEADERS"
  shows "wf_http (set_last_entry hp (f, v)\<lparr>last_header_element := le\<rparr>)"
  using assms set_update_subset_insert [of "headers hp" "num_headers hp - 1" "(f, v)"]
  by (auto simp: wf_http_def set_last_entry_def)

lemma on_field_wf:
  assumes "tgx_http_parser_on_header_field_cb at n hp = Inr (r, hp')" and "wf_http hp"
  shows "wf_http hp'"
proof -
  define hp1 where "hp1 = (if last_header_element hp \<noteq> FIELD then hp\<lparr>num_headers := num_headers hp + 1\<rparr> else hp)"
  from assms(1) obtain e f where e: "last_entry hp1 = Inr e" "strncat TGX_MAX_ELEMENT_SIZE (fst e) at n = Inr f"
      "hp' = (set_last_entry hp1 (f, snd e))\<lparr>last_header_element := FIELD\<rparr>"
    by (auto simp: tgx_http_parser_on_header_field_cb_def bind_ub_eq_Inr hp1_def Let_def)
  note last_entry_range [OF e(1)]
  moreover have "wf_http (hp1\<lparr>num_headers := num_headers hp\<rparr>)" "headers hp1 = headers hp" using assms(2) by (simp_all add: hp1_def)
  moreover have "length (headers hp) = TGX_MAX_HEADERS" using assms(2) by (simp add: wf_http_def)
  moreover have "length (snd e) < TGX_MAX_ELEMENT_SIZE" using calculation assms(2) by (auto simp: wf_http_def)
  ultimately show ?thesis using e(2) unfolding e(3) by (intro set_last_entry_wf) (auto simp: strncat_def put_str_Inr)
qed

lemma on_value_wf:
  assumes "tgx_http_parser_on_header_value_cb at n hp = Inr (r, hp')" and "wf_http hp"
  shows "wf_http hp'"
proof -
  from assms(1) obtain e f where e: "last_entry hp = Inr e" "strncat TGX_MAX_ELEMENT_SIZE (snd e) at n = Inr f"
      "hp' = (set_last_entry hp (fst e, f))\<lparr>last_header_element := VALUE\<rparr>"
    by (auto simp: tgx_http_parser_on_header_value_cb_def bind_ub_eq_Inr)
  note last_entry_range [OF e(1)]
  moreover have "wf_http (hp\<lparr>num_headers := num_headers hp\<rparr>)" using assms(2) by simp
  moreover have "length (fst e) < TGX_MAX_ELEMENT_SIZE" using calculation assms(2) by (auto simp: wf_http_def)
  ultimately show ?thesis using e(2) assms(2) unfolding e(3)
    by (intro set_last_entry_wf) (auto simp: strncat_def put_str_Inr wf_http_def)
qed

lemma check_headers_wf: "check_headers since t hs hp = Inr hp' \<Longrightarrow> wf_http hp \<Longrightarrow> wf_http hp'"
  by (induction hs arbitrary: hp) (auto simp: bind_ub_eq_Inr wf_http_update(1) split: if_splits)

lemma on_complete_wf: "tgx_http_parser_on_header_complete_cb fs since hp = Inr (r, hp') \<Longrightarrow> wf_http hp \<Longrightarrow> wf_http hp'"
  by (auto simp: tgx_http_parser_on_header_complete_cb_def bind_ub_eq_Inr split: option.splits
      intro: inv_intros check_headers_wf)

text \<open>
  The calls of the parser on one request, in any order and number: any of the four callbacks that fill the record.
\<close>

datatype callback =
    OnUrl string string nat
  | OnField string nat
  | OnValue string nat
  | OnComplete

primrec run_callback :: "file_system \<Rightarrow> (string \<Rightarrow> int) \<Rightarrow> bool \<Rightarrow> callback \<Rightarrow> http_parser \<Rightarrow> (int \<times> http_parser) ub" where
  "run_callback fs since mem (OnUrl m at n) hp = tgx_http_parser_on_url_cb mem mem fs m at n hp"
| "run_callback fs since mem (OnField at n) hp = tgx_http_parser_on_header_field_cb at n hp"
| "run_callback fs since mem (OnValue at n) hp = tgx_http_parser_on_header_value_cb at n hp"
| "run_callback fs since mem OnComplete hp = tgx_http_parser_on_header_complete_cb fs since hp"

primrec callbacks :: "file_system \<Rightarrow> (string \<Rightarrow> int) \<Rightarrow> bool \<Rightarrow> callback list \<Rightarrow> http_parser \<Rightarrow> http_parser ub" where
  "callbacks fs since mem [] hp = Inr hp"
| "callbacks fs since mem (c # cs) hp = bind_ub (run_callback fs since mem c hp) (\<lambda>(r, hp'). callbacks fs since mem cs hp')"

lemma callback_wf: "run_callback fs since mem c hp = Inr (r, hp') \<Longrightarrow> wf_http hp \<Longrightarrow> wf_http hp'"
  by (cases c) (auto intro: on_url_wf on_field_wf on_value_wf on_complete_wf)


definition small_fs :: file_system where
  "small_fs p = (if p = ''./a.html'' then Some \<lparr>st_dir = False, st_reg = True, st_size = 7, st_mtime = 100\<rparr>
     else if p = ''./../secret'' then Some \<lparr>st_dir = False, st_reg = True, st_size = 3, st_mtime = 50\<rparr> else None)"


subsection \<open>Headers\<close>

lemma field_piece:
  assumes "last_entry (if last_header_element hp \<noteq> FIELD then hp\<lparr>num_headers := num_headers hp + 1\<rparr> else hp) = Inr (f, v)"
    and "length (f @ s) < TGX_MAX_ELEMENT_SIZE"
  shows "tgx_http_parser_on_header_field_cb s (length s) hp =
    Inr (0, (set_last_entry (if last_header_element hp \<noteq> FIELD then hp\<lparr>num_headers := num_headers hp + 1\<rparr> else hp) (f @ s, v))
      \<lparr>last_header_element := FIELD\<rparr>)"
  using assms by (simp add: tgx_http_parser_on_header_field_cb_def strncat_def)

lemma value_piece:
  assumes "last_entry hp = Inr (f, v)" and "length (v @ s) < TGX_MAX_ELEMENT_SIZE"
  shows "tgx_http_parser_on_header_value_cb s (length s) hp = Inr (0, (set_last_entry hp (f, v @ s))\<lparr>last_header_element := VALUE\<rparr>)"
  using assms by (simp add: tgx_http_parser_on_header_value_cb_def strncat_def)

lemma set_last_entry_last [simp]:
  "last_entry hp = Inr e0 \<Longrightarrow> last_entry ((set_last_entry hp e)\<lparr>last_header_element := le\<rparr>) = Inr e"
  by (auto simp: last_entry_def set_last_entry_def peek_def nat_diff_distrib split: if_splits)

lemma set_last_entry_twice [simp]:
  "set_last_entry ((set_last_entry hp e)\<lparr>last_header_element := le\<rparr>) e' = (set_last_entry hp e')\<lparr>last_header_element := le\<rparr>"
  by (simp add: set_last_entry_def)

lemma callbacks_append:
  "callbacks fs since mem (cs @ ds) hp = bind_ub (callbacks fs since mem cs hp) (callbacks fs since mem ds)"
  by (induction cs arbitrary: hp) (auto simp: bind_ub_def split: sum.splits)

lemma field_pieces:
  "last_entry hp = Inr (f, v) \<Longrightarrow> last_header_element hp = FIELD \<Longrightarrow> length (f @ concat ss) < TGX_MAX_ELEMENT_SIZE \<Longrightarrow>
   callbacks fs since mem (map (\<lambda>s. OnField s (length s)) ss) hp =
     Inr (if ss = [] then hp else (set_last_entry hp (f @ concat ss, v))\<lparr>last_header_element := FIELD\<rparr>)"
proof (induction ss arbitrary: hp f)
  case (Cons s ss)
  then have "callbacks fs since mem (map (\<lambda>s. OnField s (length s)) (s # ss)) hp =
      callbacks fs since mem (map (\<lambda>s. OnField s (length s)) ss) ((set_last_entry hp (f @ s, v))\<lparr>last_header_element := FIELD\<rparr>)"
    using field_piece [of hp f v s] by simp
  also have "\<dots> = Inr (if ss = [] then (set_last_entry hp (f @ s, v))\<lparr>last_header_element := FIELD\<rparr>
      else (set_last_entry hp ((f @ s) @ concat ss, v))\<lparr>last_header_element := FIELD\<rparr>)"
    using Cons.IH [of "(set_last_entry hp (f @ s, v))\<lparr>last_header_element := FIELD\<rparr>" "f @ s"] Cons.prems by simp
  finally show ?case by simp
qed simp

lemma value_pieces:
  "last_entry hp = Inr (f, v) \<Longrightarrow> length (v @ concat ss) < TGX_MAX_ELEMENT_SIZE \<Longrightarrow>
   callbacks fs since mem (map (\<lambda>s. OnValue s (length s)) ss) hp =
     Inr (if ss = [] then hp else (set_last_entry hp (f, v @ concat ss))\<lparr>last_header_element := VALUE\<rparr>)"
proof (induction ss arbitrary: hp v)
  case (Cons s ss)
  then have "callbacks fs since mem (map (\<lambda>s. OnValue s (length s)) (s # ss)) hp =
      callbacks fs since mem (map (\<lambda>s. OnValue s (length s)) ss) ((set_last_entry hp (f, v @ s))\<lparr>last_header_element := VALUE\<rparr>)"
    using value_piece [of hp f v s] by simp
  also have "\<dots> = Inr (if ss = [] then (set_last_entry hp (f, v @ s))\<lparr>last_header_element := VALUE\<rparr>
      else (set_last_entry hp (f, (v @ s) @ concat ss))\<lparr>last_header_element := VALUE\<rparr>)"
    using Cons.IH [of "(set_last_entry hp (f, v @ s))\<lparr>last_header_element := VALUE\<rparr>" "v @ s"] Cons.prems by simp
  finally show ?case by simp
qed simp

text \<open>
  C34: However the parser cuts a header into pieces, the record gets one new entry with the whole field
  name and the whole value, and every earlier entry is kept.
\<close>

theorem header_pieces_joined:
  assumes "wf_http hp" and "last_header_element hp \<noteq> FIELD" and "num_headers hp < TGX_MAX_HEADERS"
    and "headers hp ! num_headers hp = ([], [])" and "fnames \<noteq> []" and "vals \<noteq> []"
    and "length (concat fnames) < TGX_MAX_ELEMENT_SIZE" and "length (concat vals) < TGX_MAX_ELEMENT_SIZE"
  shows "callbacks fs since mem (map (\<lambda>s. OnField s (length s)) fnames @ map (\<lambda>s. OnValue s (length s)) vals) hp =
    Inr (hp\<lparr>num_headers := num_headers hp + 1, headers := (headers hp)[num_headers hp := (concat fnames, concat vals)],
      last_header_element := VALUE\<rparr>)"
proof -
  obtain f0 fs' where f: "fnames = f0 # fs'" using assms(5) by (cases fnames) auto
  let ?hp1 = "hp\<lparr>num_headers := num_headers hp + 1\<rparr>"
  let ?hp2 = "(set_last_entry ?hp1 (f0, []))\<lparr>last_header_element := FIELD\<rparr>"
  let ?hp3 = "(set_last_entry ?hp1 (concat fnames, []))\<lparr>last_header_element := FIELD\<rparr>"
  have l: "last_entry ?hp1 = Inr ([], [])"
    using assms(1,3,4) by (simp add: last_entry_def peek_def wf_http_def)
  have "tgx_http_parser_on_header_field_cb f0 (length f0) hp = Inr (0, ?hp2)"
    using field_piece [of hp "[]" "[]" f0] l assms(2,7) f by simp
  moreover have "callbacks fs since mem (map (\<lambda>s. OnField s (length s)) fs') ?hp2 = Inr ?hp3"
    using field_pieces [of ?hp2 f0 "[]" fs' fs since mem] l assms(7) f by (cases "fs' = []") simp_all
  ultimately have "callbacks fs since mem (map (\<lambda>s. OnField s (length s)) fnames) hp = Inr ?hp3" using f by simp
  moreover have "callbacks fs since mem (map (\<lambda>s. OnValue s (length s)) vals) ?hp3 =
      Inr ((set_last_entry ?hp1 (concat fnames, concat vals))\<lparr>last_header_element := VALUE\<rparr>)"
    using value_pieces [of ?hp3 "concat fnames" "[]" vals fs since mem] l assms(6,8) by simp
  ultimately show ?thesis by (simp add: callbacks_append set_last_entry_def)
qed

theorem header_pieces_joined_witness:
  "callbacks small_fs (\<lambda>_. 0) True [OnField ''Ho'' 2, OnField ''st'' 2, OnValue ''a'' 1, OnValue ''b'' 1] new_http_parser =
     Inr (new_http_parser\<lparr>num_headers := 1, headers := (''Host'', ''ab'') # replicate 127 ([], []), last_header_element := VALUE\<rparr>)"
proof -
  have r: "replicate 128 (x :: string \<times> string) = x # replicate 127 x" for x by (simp add: numeral_eq_Suc)
  from header_pieces_joined [OF new_http_parser_wf, of "[''Ho'', ''st'']" "[''a'', ''b'']" small_fs "\<lambda>_. 0" True] show ?thesis
    by (simp add: new_http_parser_def TGX_MAX_HEADERS_def TGX_MAX_ELEMENT_SIZE_def r numeral_2_eq_2)
qed

text \<open>
  Nothing limits the number of headers or their length. The 129th header, or a name longer than 1023
  characters, is written outside the array.
\<close>

theorem header_array_overflow:
  assumes "length (headers hp) = TGX_MAX_HEADERS" and "n \<le> length at"
    and "num_headers hp = TGX_MAX_HEADERS \<or> TGX_MAX_ELEMENT_SIZE \<le> n" and "last_header_element hp \<noteq> FIELD"
  shows "tgx_http_parser_on_header_field_cb at n hp = Inl OutOfBounds"
proof (cases "num_headers hp < TGX_MAX_HEADERS")
  case True
  then have "last_entry (hp\<lparr>num_headers := num_headers hp + 1\<rparr>) = Inr (headers hp ! num_headers hp)"
    using assms(1) by (simp add: last_entry_def peek_def)
  with True assms show ?thesis by (simp add: tgx_http_parser_on_header_field_cb_def strncat_def)
next
  case False
  then have "last_entry (hp\<lparr>num_headers := num_headers hp + 1\<rparr>) = Inl OutOfBounds"
    using assms(1) by (simp add: last_entry_def peek_def)
  with assms(4) show ?thesis by (simp add: tgx_http_parser_on_header_field_cb_def)
qed

theorem header_array_overflow_witness:
  "tgx_http_parser_on_header_field_cb ''Host'' 4 (new_http_parser\<lparr>num_headers := 128\<rparr>) = Inl OutOfBounds"
  by (rule header_array_overflow) (simp_all add: new_http_parser_def TGX_MAX_HEADERS_def)




text \<open>
  The address is put behind \<open>.\<close> as it stands: an address with \<open>..\<close> components that names a regular file
  outside the served directory is accepted with status 200.
\<close>

lemma strip_slashes_keeps: "last p \<noteq> CHR ''/'' \<Longrightarrow> strip_slashes p = p"
  by (subst strip_slashes.simps) auto

lemma strip_query_keeps: "CHR ''?'' \<notin> set p \<Longrightarrow> strip_query p = p"
  by (auto simp: strip_query_def takeWhile_eq_all_conv)

theorem path_leaves_root:
  assumes "fs (''./../'' @ s) = Some st" and "\<not> st_dir st" and "s \<noteq> []" and "last s \<noteq> CHR ''/''" and "CHR ''?'' \<notin> set s"
    and "\<not> unsupported (''/../'' @ s)" and "length s < 4000"
  shows "\<exists>hp'. tgx_http_parser_on_url_cb True True fs ''GET'' (''/../'' @ s @ rest) (length s + 4) hp = Inr (0, hp') \<and>
    http_status hp' = TGX_HTTP_STATUS_200 \<and> path hp' = ''./../'' @ s"
proof -
  have t: "take (length s + 4) (''/../'' @ s @ rest) = ''/../'' @ s" by (simp add: numeral_eq_Suc)
  have "strip_slashes (strip_query (''/../'' @ s)) = ''/../'' @ s"
    using assms(3-5) by (subst strip_query_keeps) (auto intro!: strip_slashes_keeps)
  with t assms show ?thesis
    by (simp add: tgx_http_parser_on_url_cb_def Let_def put_str_def TGX_MAX_PATH_LENGTH_def classify_def)
qed

theorem path_leaves_root_witness:
  "\<exists>hp'. tgx_http_parser_on_url_cb True True small_fs ''GET'' ''/../secret HTTP/1.1'' 10 new_http_parser = Inr (0, hp') \<and>
    http_status hp' = TGX_HTTP_STATUS_200 \<and> path hp' = ''./../secret''"
proof -
  have "\<not> unsupported (''/../'' @ ''secret'')" by code_simp
  with path_leaves_root [of small_fs "''secret''" "\<lparr>st_dir = False, st_reg = True, st_size = 3, st_mtime = 50\<rparr>" "'' HTTP/1.1''" new_http_parser]
  show ?thesis by (simp add: small_fs_def)
qed

text \<open>
  The address callback answers 400 for a method it does not support, or for a script it cannot run,
  without setting the path. The callback at the end of the headers then looks for a file with the empty name and
  overwrites the status: the client is told 404.
\<close>

theorem bad_request_becomes_404:
  assumes "path hp = []" and "fs [] = None"
    and "method \<noteq> ''GET'' \<and> method \<noteq> ''POST'' \<or> unsupported (strip_slashes (strip_query (take n at)))"
  shows "\<exists>hp1 hp2. tgx_http_parser_on_url_cb True mem fs method at n hp = Inr (0, hp1) \<and> http_status hp1 = TGX_HTTP_STATUS_400 \<and>
    tgx_http_parser_on_header_complete_cb fs since hp1 = Inr (0, hp2) \<and> http_status hp2 = TGX_HTTP_STATUS_404"
  using assms by (auto simp: tgx_http_parser_on_url_cb_def tgx_http_parser_on_header_complete_cb_def Let_def)

theorem bad_request_becomes_404_witness:
  "\<exists>hp1 hp2. tgx_http_parser_on_url_cb True True small_fs ''PUT'' ''/a.html HTTP/1.1'' 7 new_http_parser = Inr (0, hp1) \<and>
    http_status hp1 = TGX_HTTP_STATUS_400 \<and>
    tgx_http_parser_on_header_complete_cb small_fs (\<lambda>_. 0) hp1 = Inr (0, hp2) \<and> http_status hp2 = TGX_HTTP_STATUS_404"
  by (rule bad_request_becomes_404) (simp_all add: small_fs_def new_http_parser_def)

end
