(* ===== verification/ConnBuffer.thy ===== *)
theory ConnBuffer
  imports HttpRequest
begin

section \<open>The buffers of a connection\<close>

text \<open>
  src/core/tgx_connection.c: the buffer check \<open>_string_check_boundry\<close>, the macro \<open>COPY\<close> that prints into
  the header buffer, and the two loops that write a buffer or a file to the socket. They are used by
  the handlers and the tasks of theory Connection.

  The result of \<open>calloc\<close> is an argument, and so is that of \<open>realloc\<close>: the bytes it adds, if it succeeds.
\<close>

subsection \<open>The buffer check\<close>

definition MAX_BUFFER_SIZE :: nat where "MAX_BUFFER_SIZE = 65535"
definition INCR_FACTOR :: nat where "INCR_FACTOR = 2"
definition INCR_LENGTH :: nat where "INCR_LENGTH = 500"
definition BUFFER_NEARLY_BOUNDRY :: int where "BUFFER_NEARLY_BOUNDRY = 10"

lemmas buffer_consts = MAX_BUFFER_SIZE_def INCR_FACTOR_def INCR_LENGTH_def BUFFER_NEARLY_BOUNDRY_def

definition grow_buffer :: "char list option \<Rightarrow> tgx_string \<Rightarrow> int \<Rightarrow> int \<times> tgx_string" where
  "grow_buffer realloc str boundry =
     (if boundry > int (ts_size str) - BUFFER_NEARLY_BOUNDRY \<and> ts_size str < MAX_BUFFER_SIZE then
        let str = str\<lparr>ts_size := ts_size str + INCR_FACTOR * INCR_LENGTH\<rparr> in
        case realloc of
          None \<Rightarrow> (- 1, str)
        | Some new \<Rightarrow> (0, str\<lparr>ts_data := Some ((case ts_data str of None \<Rightarrow> [] | Some d \<Rightarrow> d) @ new)\<rparr>)
      else (0, str))"

definition string_check_boundry :: "bool \<Rightarrow> char list option \<Rightarrow> tgx_string \<Rightarrow> int \<Rightarrow> int \<times> tgx_string" where
  "string_check_boundry calloc_ok realloc str boundry =
     (if boundry < 0 then (- 1, str)
      else if ts_size str = 0 then
        if calloc_ok then
          grow_buffer realloc \<lparr>ts_size = MAX_BUFFER_SIZE, ts_data = Some (replicate MAX_BUFFER_SIZE NUL)\<rparr> boundry
        else (- 1, \<lparr>ts_size = MAX_BUFFER_SIZE, ts_data = None\<rparr>)
      else grow_buffer realloc str boundry)"

text \<open>A buffer that was never allocated, or holds as many bytes as its size says: all 65535 of them.\<close>

definition full_size :: "tgx_string \<Rightarrow> bool" where
  "full_size str \<longleftrightarrow> ts_size str = MAX_BUFFER_SIZE \<and> (\<exists>d. ts_data str = Some d \<and> length d = MAX_BUFFER_SIZE)"

definition wf_buffer :: "tgx_string \<Rightarrow> bool" where
  "wf_buffer str \<longleftrightarrow> ts_size str = 0 \<or> full_size str"

lemma check_boundry_full: "full_size str \<Longrightarrow> 0 \<le> b \<Longrightarrow> string_check_boundry ok ro str b = (0, str)"
  by (simp add: string_check_boundry_def grow_buffer_def full_size_def buffer_consts)

lemma check_boundry_fresh:
  "ts_size str = 0 \<Longrightarrow> 0 \<le> b \<Longrightarrow>
   string_check_boundry True ro str b = (0, \<lparr>ts_size = MAX_BUFFER_SIZE, ts_data = Some (replicate MAX_BUFFER_SIZE NUL)\<rparr>)"
  by (simp add: string_check_boundry_def grow_buffer_def buffer_consts)

lemma fresh_full_size: "full_size \<lparr>ts_size = MAX_BUFFER_SIZE, ts_data = Some (replicate MAX_BUFFER_SIZE NUL)\<rparr>"
  by (simp add: full_size_def)

lemma check_boundry_ok:
  assumes "wf_buffer str" and "string_check_boundry ok ro str b = (r, str')" and "\<not> r < 0"
  shows "full_size str' \<and> (ts_size str \<noteq> 0 \<longrightarrow> str' = str) \<and> 0 \<le> b"
  using assms fresh_full_size check_boundry_full [of str b ok ro] check_boundry_fresh [of str b ro]
  by (auto simp: wf_buffer_def string_check_boundry_def grow_buffer_def split: if_splits)

lemma check_boundry_wf:
  "wf_buffer str \<Longrightarrow> string_check_boundry True ro str b = (r, str') \<Longrightarrow> wf_buffer str'"
  using fresh_full_size
  by (auto simp: wf_buffer_def string_check_boundry_def grow_buffer_def full_size_def split: if_splits)

subsection \<open>Printing into a buffer\<close>

text \<open>\<open>sprintf(str->data + pos, \<dots>)\<close> with the text it prints.\<close>

definition sprintf_at :: "tgx_string \<Rightarrow> nat \<Rightarrow> string \<Rightarrow> tgx_string ub" where
  "sprintf_at str pos t = (case ts_data str of
      None \<Rightarrow> Inl NullDeref
    | Some d \<Rightarrow>
        if pos + length t < length d then Inr (str\<lparr>ts_data := Some (take pos d @ t @ NUL # drop (pos + length t + 1) d)\<rparr>)
        else Inl OutOfBounds)"

text \<open>A sequence of \<open>COPY\<close> lines; the result \<open>False\<close> says that the buffer check of one of them failed.\<close>

primrec copy_all ::
  "bool \<Rightarrow> char list option \<Rightarrow> string list \<Rightarrow> tgx_string \<times> nat \<Rightarrow> (bool \<times> tgx_string \<times> nat) ub" where
  "copy_all ok ro [] s = Inr (True, s)"
| "copy_all ok ro (t # ts) s =
     (let (r, str) = string_check_boundry ok ro (fst s) (int (snd s)) in
      if r < 0 then Inr (False, str, snd s)
      else bind_ub (sprintf_at str (snd s) t) (\<lambda>str. copy_all ok ro ts (str, snd s + length t)))"

text \<open>The start of both header tasks: \<open>memset\<close> with the size of a pointer if the buffer has a size.\<close>

definition clear_start :: "tgx_string \<Rightarrow> tgx_string ub" where
  "clear_start str = (if ts_size str = 0 then Inr str
     else (case ts_data str of
         None \<Rightarrow> Inl NullDeref
       | Some d \<Rightarrow> bind_ub (memset0 d 8) (\<lambda>d. Inr (str\<lparr>ts_data := Some d\<rparr>))))"

text \<open>\<open>str->data[pos] = 0\<close>\<close>

definition end_string :: "tgx_string \<Rightarrow> int \<Rightarrow> tgx_string ub" where
  "end_string str pos = (case ts_data str of
      None \<Rightarrow> Inl NullDeref
    | Some d \<Rightarrow> bind_ub (poke d pos NUL) (\<lambda>d. Inr (str\<lparr>ts_data := Some d\<rparr>)))"

text \<open>What has been printed so far: the text at the start of the buffer.\<close>

definition holds_text :: "tgx_string \<Rightarrow> string \<Rightarrow> bool" where
  "holds_text str t \<longleftrightarrow> full_size str \<and> (\<exists>r. ts_data str = Some (t @ r))"

lemma sprintf_at_holds:
  assumes "holds_text str t" and "length t + length u < MAX_BUFFER_SIZE"
  obtains str' where "sprintf_at str (length t) u = Inr str'" "holds_text str' (t @ u)"
proof -
  from assms(1) obtain r where r: "ts_data str = Some (t @ r)" "length (t @ r) = MAX_BUFFER_SIZE" "ts_size str = MAX_BUFFER_SIZE"
    by (auto simp: holds_text_def full_size_def)
  let ?str = "str\<lparr>ts_data := Some (t @ u @ NUL # drop (length u + 1) r)\<rparr>"
  have "sprintf_at str (length t) u = Inr ?str" using r assms(2) by (simp add: sprintf_at_def)
  moreover have "holds_text ?str (t @ u)" using r assms(2) by (auto simp: holds_text_def full_size_def)
  ultimately show thesis by (rule that)
qed

lemma copy_all_holds:
  assumes "holds_text str t" and "length t + length (concat ts) < MAX_BUFFER_SIZE"
  shows "\<exists>str'. copy_all ok ro ts (str, length t) = Inr (True, str', length t + length (concat ts)) \<and> holds_text str' (t @ concat ts)"
  using assms
proof (induction ts arbitrary: str t)
  case (Cons u ts)
  from Cons.prems sprintf_at_holds [of str t u] obtain str1 where
    s: "sprintf_at str (length t) u = Inr str1" "holds_text str1 (t @ u)" by auto
  from Cons.IH [OF s(2)] Cons.prems(2) obtain str' where
    "copy_all ok ro ts (str1, length (t @ u)) = Inr (True, str', length (t @ u) + length (concat ts))"
    "holds_text str' ((t @ u) @ concat ts)" by (auto simp: add.assoc)
  moreover have "full_size str" using Cons.prems(1) by (simp add: holds_text_def)
  ultimately show ?case using s(1) by (simp add: check_boundry_full add.assoc)
qed simp

text \<open>Printing starts in a buffer that is new or was used before.\<close>

lemma full_size_holds: "full_size str \<Longrightarrow> holds_text str []"
  by (auto simp: holds_text_def full_size_def)

lemma clear_start_wf:
  assumes "wf_buffer str"
  obtains str' where "clear_start str = Inr str'" "wf_buffer str'" "ts_size str' = ts_size str"
proof (cases "ts_size str = 0")
  case True
  with assms that show thesis by (simp add: clear_start_def)
next
  case False
  with assms obtain d where d: "ts_data str = Some d" "length d = MAX_BUFFER_SIZE" "ts_size str = MAX_BUFFER_SIZE"
    by (auto simp: wf_buffer_def full_size_def)
  then have "memset0 d 8 = Inr (replicate 8 NUL @ drop 8 d)" by (simp add: memset0_def buffer_consts)
  with d False show thesis
    by (intro that [of "str\<lparr>ts_data := Some (replicate 8 NUL @ drop 8 d)\<rparr>"])
      (simp_all add: clear_start_def wf_buffer_def full_size_def buffer_consts)
qed

lemma copy_all_starts:
  assumes "wf_buffer str" and "ts \<noteq> []" and "length (concat ts) < MAX_BUFFER_SIZE"
  shows "\<exists>str'. copy_all True ro ts (str, 0) = Inr (True, str', length (concat ts)) \<and> holds_text str' (concat ts)"
proof -
  define str1 where "str1 = (if ts_size str = 0 then \<lparr>ts_size = MAX_BUFFER_SIZE, ts_data = Some (replicate MAX_BUFFER_SIZE NUL)\<rparr> else str)"
  have f: "full_size str1" using assms(1) fresh_full_size by (auto simp: str1_def wf_buffer_def full_size_def)
  have "string_check_boundry True ro str 0 = (0, str1)" "string_check_boundry True ro str1 0 = (0, str1)"
    using assms(1) f check_boundry_fresh [of str 0 ro] check_boundry_full [of _ 0 True ro]
    by (auto simp: str1_def wf_buffer_def)
  then have "copy_all True ro ts (str, 0) = copy_all True ro ts (str1, 0)" using assms(2) by (cases ts) simp_all
  with copy_all_holds [OF full_size_holds [OF f], of ts True ro] assms(3) show ?thesis by simp
qed

lemma end_string_holds:
  assumes "holds_text str t" and "NUL \<notin> set t" and "length t < MAX_BUFFER_SIZE"
  obtains str' d where "end_string str (int (length t)) = Inr str'" "ts_data str' = Some d" "full_size str'" "cstr d = Inr t"
proof -
  from assms(1,3) obtain r where r: "ts_data str = Some (t @ r)" "length (t @ r) = MAX_BUFFER_SIZE" "ts_size str = MAX_BUFFER_SIZE"
    by (auto simp: holds_text_def full_size_def)
  with assms(3) obtain x r' where x: "r = x # r'" by (cases r) auto
  have "poke (t @ r) (int (length t)) NUL = Inr (t @ NUL # r')" using x r(2) by (simp add: poke_def)
  then show thesis using r x cstr_terminated [OF assms(2), of r']
    by (intro that [of "str\<lparr>ts_data := Some (t @ NUL # r')\<rparr>" "t @ NUL # r'"]) (simp_all add: end_string_def full_size_def)
qed

subsection \<open>Writing to the socket\<close>

text \<open>
  The answers of \<open>write\<close> and \<open>sendfile\<close> on a socket that does not block: a number of bytes accepted, a
  full socket, or an error. When no answers are left the socket is full.
\<close>

datatype wr = WBytes nat | WAgain | WErr

datatype wres = WDone | WWait | WFail

text \<open>
  The loop of \<open>tgx_connection_handler_write_header\<close> and \<open>tgx_connection_handler_post_method_write_buffer\<close>. \<open>rw_pos\<close> is
  increased by the result of \<open>write\<close> before that is compared with \<open>-1\<close>.
\<close>

definition readable :: "string \<Rightarrow> int \<Rightarrow> bool" where
  "readable txt pos \<longleftrightarrow> 0 \<le> pos \<and> pos \<le> int (length txt)"

primrec write_loop :: "string \<Rightarrow> wr list \<Rightarrow> int \<Rightarrow> string \<Rightarrow> (wres \<times> int \<times> string) ub" where
  "write_loop txt [] pos sent = (if readable txt pos then Inr (WWait, pos - 1, sent) else Inl OutOfBounds)"
| "write_loop txt (w # ws) pos sent =
     (if readable txt pos then
        (case w of
          WAgain \<Rightarrow> Inr (WWait, pos - 1, sent)
        | WErr \<Rightarrow> Inr (WFail, pos - 1, sent)
        | WBytes n \<Rightarrow>
            let k = min n (length txt - nat pos) in
            if pos + int k = int (length txt) then Inr (WDone, pos + int k, sent @ take k (drop (nat pos) txt))
            else write_loop txt ws (pos + int k) (sent @ take k (drop (nat pos) txt)))
      else Inl OutOfBounds)"

text \<open>
  The loop of \<open>tgx_connection_handler_get_method_write_file\<close>: \<open>clen\<close> is the size that \<open>stat\<close> reported, \<open>txt\<close> what the file
  holds now. \<open>sendfile\<close> moves the offset only by what it sent.
\<close>

primrec file_loop :: "string \<Rightarrow> nat \<Rightarrow> wr list \<Rightarrow> nat \<Rightarrow> string \<Rightarrow> wres \<times> nat \<times> string" where
  "file_loop txt clen [] pos sent = (WWait, pos, sent)"
| "file_loop txt clen (w # ws) pos sent = (case w of
      WAgain \<Rightarrow> (WWait, pos, sent)
    | WErr \<Rightarrow> (WFail, pos, sent)
    | WBytes n \<Rightarrow>
        let k = min n (min (clen - pos) (length txt - pos)) in
        if pos + k = clen then (WDone, pos + k, sent @ take k (drop pos txt))
        else file_loop txt clen ws (pos + k) (sent @ take k (drop pos txt)))"

text \<open>As long as the socket takes bytes, the loop sends the rest of the text, in whatever portions.\<close>

lemma write_loop_done:
  assumes "0 \<le> pos" and "pos \<le> int (length txt)" and "sum_list ns \<ge> length txt - nat pos" and "ns \<noteq> []"
  shows "write_loop txt (map WBytes ns) pos sent = Inr (WDone, int (length txt), sent @ drop (nat pos) txt)"
  using assms
proof (induction ns arbitrary: pos sent)
  case (Cons n ns)
  define k where "k = min n (length txt - nat pos)"
  have k: "take k (drop (nat pos) txt) @ drop (nat pos + k) txt = drop (nat pos) txt"
    by (metis append_take_drop_id drop_drop add.commute)
  show ?case
  proof (cases "pos + int k = int (length txt)")
    case True
    then have "k = length txt - nat pos" using Cons.prems by linarith
    with True Cons.prems show ?thesis by (auto simp: k_def [symmetric] Let_def readable_def)
  next
    case False
    then have k': "k = n" "nat (pos + int k) = nat pos + k" "pos + int k < int (length txt)"
      using Cons.prems by (auto simp: k_def min_def split: if_splits)
    moreover have "ns \<noteq> []" "sum_list ns \<ge> length txt - nat (pos + int k)" using k' Cons.prems by auto
    moreover have "write_loop txt (map WBytes (n # ns)) pos sent =
        write_loop txt (map WBytes ns) (pos + int k) (sent @ take k (drop (nat pos) txt))"
      using False Cons.prems by (simp add: k_def [symmetric] Let_def readable_def)
    ultimately show ?thesis using Cons.IH [of "pos + int k" "sent @ take k (drop (nat pos) txt)"] Cons.prems k by simp
  qed
qed simp

lemma file_loop_inv:
  assumes "sent = take pos txt" and "pos \<le> length txt" and "clen = length txt" and "file_loop txt clen ws pos sent = (r, pos', sent')"
  shows "sent' = take pos' txt \<and> pos \<le> pos' \<and> pos' \<le> length txt \<and> (r = WDone \<longrightarrow> pos' = length txt)"
  using assms
proof (induction ws arbitrary: pos sent)
  case (Cons w ws)
  show ?case
  proof (cases w)
    case (WBytes n)
    define k where "k = min n (min (clen - pos) (length txt - pos))"
    have t: "sent @ take k (drop pos txt) = take (pos + k) txt" using Cons.prems(1) by (simp add: take_add)
    have le: "pos + k \<le> length txt" using Cons.prems(2,3) by (simp add: k_def)
    show ?thesis
    proof (cases "pos + k = clen")
      case True
      then have "(WDone, clen, take (pos + k) txt) = (r, pos', sent')"
        using Cons.prems(4) WBytes t by (auto simp: k_def [symmetric] Let_def)
      with True Cons.prems(3) show ?thesis by auto
    next
      case False
      then have "file_loop txt clen ws (pos + k) (sent @ take k (drop pos txt)) = (r, pos', sent')"
        using Cons.prems(4) WBytes by (simp add: k_def [symmetric] Let_def)
      from Cons.IH [OF t le Cons.prems(3) this] show ?thesis by auto
    qed
  qed (use Cons.prems in auto)
qed auto

end
