(* ===== verification/EventTable.thy ===== *)
theory EventTable
  imports Prelude
begin

section \<open>The event system\<close>

text \<open>
  src/event/tgx_event.c and its epoll engine src/event/tgx_linux_epoll.c: the table that maps file
  descriptors to handlers and contexts, the translation of event masks, and the dispatch loop of
  \<open>main\<close> in src/core/tgx.c that uses them. A pointer to the event system is an option; a handler and
  a context are options of whatever type stands for them. The calls into the kernel
  (\<open>epoll_create1\<close>, \<open>epoll_ctl\<close>, \<open>epoll_wait\<close>) and \<open>calloc\<close> are arguments: their results, or a function
  on the state of the kernel.
\<close>

unbundle bit_operations_syntax

subsection \<open>Data\<close>

definition TGX_EVENT_IN :: u32 where "TGX_EVENT_IN = 1"
definition TGX_EVENT_OUT :: u32 where "TGX_EVENT_OUT = 2"
definition TGX_EVENT_ERR :: u32 where "TGX_EVENT_ERR = 4"
definition TGX_EVENT_HUP :: u32 where "TGX_EVENT_HUP = 8"
definition TGX_EVENT_PRI :: u32 where "TGX_EVENT_PRI = 16"
definition TGX_EVENT_RDHUP :: u32 where "TGX_EVENT_RDHUP = 32"

definition TGX_EVENT_CTL_ADD :: int where "TGX_EVENT_CTL_ADD = 0"
definition TGX_EVENT_CTL_MOD :: int where "TGX_EVENT_CTL_MOD = 1"
definition TGX_EVENT_CTL_DEL :: int where "TGX_EVENT_CTL_DEL = 2"

text \<open>The masks and operations of the kernel, from its documented interface.\<close>

definition EPOLLIN :: u32 where "EPOLLIN = 0x1"
definition EPOLLPRI :: u32 where "EPOLLPRI = 0x2"
definition EPOLLOUT :: u32 where "EPOLLOUT = 0x4"
definition EPOLLERR :: u32 where "EPOLLERR = 0x8"
definition EPOLLHUP :: u32 where "EPOLLHUP = 0x10"
definition EPOLLRDHUP :: u32 where "EPOLLRDHUP = 0x2000"

datatype epoll_op = EPOLL_CTL_ADD | EPOLL_CTL_DEL | EPOLL_CTL_MOD

text \<open>\<open>struct tgx_schedule_s\<close> and \<open>struct tgx_event_s\<close>; \<open>engine\<close> says that the function pointers are set.\<close>

record ('h, 'c) sched =
  sc_fd :: int
  sc_handler :: "'h option"
  sc_context :: "'c option"

record epoll_event =
  ep_events :: u32
  ep_fd :: int

record ('h, 'c) event =
  sched_array :: "('h, 'c) sched option list"
  maxfds :: u64
  usedfds :: u64
  epoll_fd :: int
  epoll_events :: "epoll_event list option"
  engine :: bool

definition TGX_NO_INDEX_FIND :: int where "TGX_NO_INDEX_FIND = - 1"

subsection \<open>The table\<close>

definition holds :: "('h, 'c) sched option \<Rightarrow> int \<Rightarrow> bool" where
  "holds s fd \<longleftrightarrow> (case s of None \<Rightarrow> False | Some sc \<Rightarrow> sc_fd sc = fd)"

fun find_from :: "('h, 'c) sched option list \<Rightarrow> int \<Rightarrow> int \<Rightarrow> int" where
  "find_from [] i fd = TGX_NO_INDEX_FIND"
| "find_from (s # ss) i fd = (if holds s fd then i else find_from ss (i + 1) fd)"

definition tgx_find_schedule_index :: "('h, 'c) event \<Rightarrow> int \<Rightarrow> int ub" where
  "tgx_find_schedule_index te fd = bind_ub (peek (sched_array te) fd) (\<lambda>s.
     Inr (if holds s fd then fd else find_from (sched_array te) 0 fd))"

fun first_free :: "'a option list \<Rightarrow> nat \<Rightarrow> nat option" where
  "first_free [] i = None"
| "first_free (s # ss) i = (if s = None then Some i else first_free ss (Suc i))"

definition tgx_event_schedule_register ::
  "bool \<Rightarrow> ('h, 'c) event option \<Rightarrow> int \<Rightarrow> 'h option \<Rightarrow> 'c option \<Rightarrow> (int \<times> ('h, 'c) event option) ub" where
  "tgx_event_schedule_register calloc_ok te fd handler context = (case te of
      None \<Rightarrow> Inr (- 1, te)
    | Some e \<Rightarrow>
        if handler = None \<or> fd < 0 then Inr (- 1, te)
        else
          let e = e\<lparr>usedfds := usedfds e + 1\<rparr> in
          if usedfds e > maxfds e - 1 then Inr (- 1, Some e)
          else if \<not> calloc_ok then Inr (- 1, Some e)
          else
            let sched = \<lparr>sc_fd = fd, sc_handler = handler, sc_context = context\<rparr> in
            bind_ub (peek (sched_array e) fd) (\<lambda>s.
              if s = None then Inr (0, Some (e\<lparr>sched_array := (sched_array e)[nat fd := Some sched]\<rparr>))
              else (case first_free (sched_array e) 0 of
                  None \<Rightarrow> Inr (- 1, Some e)
                | Some i \<Rightarrow> Inr (0, Some (e\<lparr>sched_array := (sched_array e)[i := Some sched]\<rparr>)))))"

definition tgx_event_schedule_unregister ::
  "('h, 'c) event option \<Rightarrow> int \<Rightarrow> (int \<times> ('h, 'c) event option) ub" where
  "tgx_event_schedule_unregister te fd = (case te of
      None \<Rightarrow> Inr (- 1, te)
    | Some e \<Rightarrow>
        if fd < 0 then Inr (- 1, te)
        else if word_of_int fd > maxfds e - 1 \<or> fd < 0 then Inr (- 1, te)
        else bind_ub (tgx_find_schedule_index e fd) (\<lambda>r_index.
          if r_index = TGX_NO_INDEX_FIND then Inr (- 1, te)
          else Inr (0, Some (e\<lparr>sched_array := (sched_array e)[nat r_index := None], usedfds := usedfds e - 1\<rparr>))))"

definition tgx_event_get_handler :: "('h, 'c) event option \<Rightarrow> int \<Rightarrow> 'h option ub" where
  "tgx_event_get_handler te fd = (case te of
      None \<Rightarrow> Inr None
    | Some e \<Rightarrow>
        if fd < 0 then Inr None
        else bind_ub (tgx_find_schedule_index e fd) (\<lambda>r_index.
          if r_index = TGX_NO_INDEX_FIND then Inr None
          else bind_ub (peek (sched_array e) r_index) (\<lambda>s.
            case s of None \<Rightarrow> Inl NullDeref | Some sc \<Rightarrow> Inr (sc_handler sc))))"

definition tgx_event_set_handler ::
  "('h, 'c) event option \<Rightarrow> int \<Rightarrow> 'h option \<Rightarrow> 'c option \<Rightarrow> (int \<times> ('h, 'c) event option) ub" where
  "tgx_event_set_handler te fd handler context = (case te of
      None \<Rightarrow> Inr (- 1, te)
    | Some e \<Rightarrow>
        bind_ub (tgx_find_schedule_index e fd) (\<lambda>r_index.
          if r_index = TGX_NO_INDEX_FIND then Inr (- 1, te)
          else bind_ub (peek (sched_array e) r_index) (\<lambda>s.
            case s of None \<Rightarrow> Inl NullDeref
            | Some sc \<Rightarrow>
                if sc_handler sc = None then Inr (- 1, te)
                else
                  let e = e\<lparr>sched_array := (sched_array e)[nat r_index := Some (sc\<lparr>sc_handler := handler\<rparr>)]\<rparr> in
                  if context \<noteq> None then Inr (- 1, Some e) else Inr (0, Some e))))"

definition tgx_event_get_context :: "('h, 'c) event option \<Rightarrow> int \<Rightarrow> 'c option ub" where
  "tgx_event_get_context te fd = (case te of
      None \<Rightarrow> Inr None
    | Some e \<Rightarrow>
        bind_ub (tgx_find_schedule_index e fd) (\<lambda>r_index.
          if r_index = TGX_NO_INDEX_FIND then Inr None
          else bind_ub (peek (sched_array e) r_index) (\<lambda>s.
            case s of None \<Rightarrow> Inl NullDeref | Some sc \<Rightarrow> Inr (sc_context sc))))"

subsection \<open>The epoll engine\<close>

definition tgx_linux_epoll_event_free :: "('h, 'c) event option \<Rightarrow> ('h, 'c) event option" where
  "tgx_linux_epoll_event_free te = map_option (\<lambda>e.
     let e = (if epoll_fd e > 0 then e\<lparr>epoll_fd := - 1\<rparr> else e) in
     if epoll_events e \<noteq> None then e\<lparr>epoll_events := None\<rparr> else e) te"

definition local_op :: "int \<Rightarrow> epoll_op option" where
  "local_op op =
     (if op = TGX_EVENT_CTL_ADD then Some EPOLL_CTL_ADD
      else if op = TGX_EVENT_CTL_MOD then Some EPOLL_CTL_MOD
      else if op = TGX_EVENT_CTL_DEL then Some EPOLL_CTL_DEL
      else None)"

definition epoll_mask :: "u32 \<Rightarrow> u32" where
  "epoll_mask event_flag =
     (if event_flag AND TGX_EVENT_IN \<noteq> 0 then EPOLLIN else 0) OR
     (if event_flag AND TGX_EVENT_OUT \<noteq> 0 then EPOLLOUT else 0)"

text \<open>\<open>epoll_ctl\<close> acts on the state of the kernel and returns its result.\<close>

definition tgx_linux_epoll_ctl ::
  "('k \<Rightarrow> int \<Rightarrow> epoll_op \<Rightarrow> int \<Rightarrow> u32 \<Rightarrow> int \<times> 'k) \<Rightarrow> 'k \<Rightarrow> ('h, 'c) event option \<Rightarrow> int \<Rightarrow> int \<Rightarrow> u32 \<Rightarrow> int \<times> 'k" where
  "tgx_linux_epoll_ctl epoll_ctl k te op fd event_flag = (case te of
      None \<Rightarrow> (- 1, k)
    | Some e \<Rightarrow>
        if epoll_fd e < 0 then (- 1, k)
        else (case local_op op of
            None \<Rightarrow> (- 1, k)
          | Some lop \<Rightarrow>
              let (r, k') = epoll_ctl k (epoll_fd e) lop fd (epoll_mask event_flag) in
              if r < 0 then (- 1, k') else (0, k')))"

definition tgx_mask :: "u32 \<Rightarrow> u32" where
  "tgx_mask event =
     (if event AND EPOLLIN \<noteq> 0 then TGX_EVENT_IN else 0) OR
     (if event AND EPOLLOUT \<noteq> 0 then TGX_EVENT_OUT else 0) OR
     (if event AND EPOLLERR \<noteq> 0 then TGX_EVENT_ERR else 0) OR
     (if event AND EPOLLHUP \<noteq> 0 then TGX_EVENT_HUP else 0) OR
     (if event AND EPOLLPRI \<noteq> 0 then TGX_EVENT_PRI else 0) OR
     (if event AND EPOLLRDHUP \<noteq> 0 then TGX_EVENT_RDHUP else 0)"

text \<open>The result is an \<open>int\<close>: a mask, or \<open>-1\<close>.\<close>

definition tgx_linux_epoll_get_event :: "('h, 'c) event option \<Rightarrow> int \<Rightarrow> u32 ub" where
  "tgx_linux_epoll_get_event te i = (case te of
      None \<Rightarrow> Inr (- 1)
    | Some e \<Rightarrow>
        if epoll_fd e < 0 then Inr (- 1)
        else (case epoll_events e of
            None \<Rightarrow> Inl NullDeref
          | Some evs \<Rightarrow> bind_ub (peek evs i) (\<lambda>ev. Inr (tgx_mask (ep_events ev)))))"

definition tgx_linux_epoll_get_fd :: "('h, 'c) event option \<Rightarrow> int \<Rightarrow> int ub" where
  "tgx_linux_epoll_get_fd te i =
     (let i = (if i < 0 then 0 else i) in
      case te of
        None \<Rightarrow> Inr (- 1)
      | Some e \<Rightarrow> (case epoll_events e of
            None \<Rightarrow> Inr (- 1)
          | Some evs \<Rightarrow>
              if epoll_fd e < 0 then Inr (- 1)
              else bind_ub (peek evs i) (\<lambda>ev. Inr (ep_fd ev))))"

text \<open>
  \<open>return index = -1 ? 0 : index + 1\<close> is an assignment of a conditional expression whose condition is
  the constant \<open>-1\<close>.
\<close>

definition tgx_linux_epoll_get_next_index :: "('h, 'c) event option \<Rightarrow> int \<Rightarrow> int" where
  "tgx_linux_epoll_get_next_index te i = (if (- 1 :: int) \<noteq> 0 then 0 else i + 1)"

text \<open>
  \<open>epoll_wait\<close> returns its result and, unless that is \<open>-1\<close>, the events it stores at the start of the
  array, of which it fills at most \<open>maxfds\<close>. The two tests only log, and a null pointer is followed.
\<close>

definition tgx_linux_epoll_poll ::
  "(int \<Rightarrow> nat \<Rightarrow> int \<Rightarrow> epoll_event list option) \<Rightarrow> ('h, 'c) event option \<Rightarrow> int \<Rightarrow> (int \<times> ('h, 'c) event option) ub" where
  "tgx_linux_epoll_poll epoll_wait te timeout_ms = (case te of
      None \<Rightarrow> Inl NullDeref
    | Some e \<Rightarrow> (case epoll_wait (epoll_fd e) (unat (maxfds e)) timeout_ms of
          None \<Rightarrow> Inr (- 1, te)
        | Some evs \<Rightarrow> (case epoll_events e of
              None \<Rightarrow> Inr (- 1, te)
            | Some old \<Rightarrow>
                Inr (int (length evs), Some (e\<lparr>epoll_events := Some (evs @ drop (length evs) old)\<rparr>)))))"

datatype ('h, 'c) init_result = InitNull | InitExit | InitOk "('h, 'c) event"

definition tgx_linux_epoll_init :: "int \<Rightarrow> bool \<Rightarrow> ('h, 'c) event \<Rightarrow> ('h, 'c) init_result" where
  "tgx_linux_epoll_init efd calloc_ok e =
     (let e = e\<lparr>engine := True, epoll_fd := efd\<rparr> in
      if efd < 0 then InitNull
      else if \<not> calloc_ok then InitExit
      else InitOk (e\<lparr>epoll_events := Some (replicate (unat (maxfds e)) \<lparr>ep_events = 0, ep_fd = 0\<rparr>)\<rparr>))"

subsection \<open>The generic layer\<close>

text \<open>
  \<open>tgx_event_init\<close>: the three booleans are the results of its \<open>calloc\<close> calls, \<open>efd\<close> that of
  \<open>epoll_create1\<close>; with \<open>has_cycle\<close> false the cycle pointer is null.
\<close>

definition tgx_event_init ::
  "bool \<Rightarrow> int \<Rightarrow> bool \<Rightarrow> bool \<Rightarrow> int \<Rightarrow> bool \<Rightarrow> ('h, 'c) init_result" where
  "tgx_event_init has_cycle n te_ok array_ok efd events_ok =
     (if \<not> has_cycle then InitNull
      else
        let n = (if n > 0 then n else 1) in
        if \<not> te_ok then InitNull
        else if \<not> array_ok then InitNull
        else tgx_linux_epoll_init efd events_ok
          \<lparr>sched_array = replicate (nat n) None, maxfds = word_of_int n, usedfds = 0,
           epoll_fd = 0, epoll_events = None, engine = False\<rparr>)"

text \<open>
  \<open>tgx_event_destroy\<close>: what it gives back, the descriptor that \<open>event_free\<close> closes and the entries of the
  slots that it frees; afterwards the table itself is freed.
\<close>

definition tgx_event_destroy :: "('h, 'c) event option \<Rightarrow> int option \<times> ('h, 'c) sched list" where
  "tgx_event_destroy te = (case te of
      None \<Rightarrow> (None, [])
    | Some e \<Rightarrow>
        (if engine e \<and> epoll_fd e > 0 then Some (epoll_fd e) else None,
         map the (filter (\<lambda>s. s \<noteq> None) (take (unat (maxfds e)) (sched_array e)))))"

definition tgx_event_poll ::
  "(int \<Rightarrow> nat \<Rightarrow> int \<Rightarrow> epoll_event list option) \<Rightarrow> ('h, 'c) event option \<Rightarrow> int \<Rightarrow> (int \<times> ('h, 'c) event option) ub" where
  "tgx_event_poll epoll_wait te timeout_ms = (case te of
      None \<Rightarrow> Inr (- 1, te)
    | Some e \<Rightarrow> if engine e then tgx_linux_epoll_poll epoll_wait te timeout_ms else Inr (- 1, te))"

definition tgx_event_ctl ::
  "('k \<Rightarrow> int \<Rightarrow> epoll_op \<Rightarrow> int \<Rightarrow> u32 \<Rightarrow> int \<times> 'k) \<Rightarrow> 'k \<Rightarrow> ('h, 'c) event option \<Rightarrow> int \<Rightarrow> int \<Rightarrow> u32 \<Rightarrow> int \<times> 'k" where
  "tgx_event_ctl epoll_ctl k te op fd event = (case te of
      None \<Rightarrow> (- 1, k)
    | Some e \<Rightarrow>
        if fd < 0 then (- 1, k)
        else if engine e then tgx_linux_epoll_ctl epoll_ctl k te op fd event
        else (- 1, k))"

definition tgx_event_get_fd :: "('h, 'c) event option \<Rightarrow> int \<Rightarrow> int ub" where
  "tgx_event_get_fd te i = (case te of
      None \<Rightarrow> Inr (- 1)
    | Some e \<Rightarrow>
        if i < 0 then Inr (- 1)
        else if engine e then tgx_linux_epoll_get_fd te i
        else Inr (- 1))"

definition tgx_event_get_event :: "('h, 'c) event option \<Rightarrow> int \<Rightarrow> u32 ub" where
  "tgx_event_get_event te i = (case te of
      None \<Rightarrow> Inr (- 1)
    | Some e \<Rightarrow> if engine e then tgx_linux_epoll_get_event te i else Inr (- 1))"

definition tgx_event_get_next_index :: "('h, 'c) event option \<Rightarrow> int \<Rightarrow> int" where
  "tgx_event_get_next_index te i = (case te of
      None \<Rightarrow> - 1
    | Some e \<Rightarrow> if engine e then tgx_linux_epoll_get_next_index te i else - 1)"

subsection \<open>The dispatch loop\<close>

text \<open>
  The body of the loop of \<open>main\<close> in src/core/tgx.c for one call of \<open>tgx_event_poll\<close>. A handler acts on
  the event system and the rest of the program, whose state is \<open>'w\<close>; \<open>call\<close> runs it with the context
  and the event mask. The result records which handlers calls, with their descriptor.
\<close>

fun dispatch ::
  "('h \<Rightarrow> 'c option \<Rightarrow> u32 \<Rightarrow> ('h, 'c) event option \<times> 'w \<Rightarrow> int \<times> ('h, 'c) event option \<times> 'w) \<Rightarrow>
   nat \<Rightarrow> int \<Rightarrow> ('h, 'c) event option \<times> 'w \<Rightarrow> ((int \<times> 'h) list \<times> ('h, 'c) event option \<times> 'w) ub" where
  "dispatch call 0 i s = Inr ([], s)"
| "dispatch call (Suc n) i s =
     (let i = tgx_event_get_next_index (fst s) i in
      bind_ub (tgx_event_get_fd (fst s) i) (\<lambda>fd.
      bind_ub (tgx_event_get_handler (fst s) fd) (\<lambda>handler.
      bind_ub (tgx_event_get_context (fst s) fd) (\<lambda>context.
      bind_ub (tgx_event_get_event (fst s) i) (\<lambda>event.
        case handler of
          None \<Rightarrow> dispatch call n i s
        | Some h \<Rightarrow>
            let (r, s') = call h context event s in
            bind_ub (dispatch call n i s') (\<lambda>(calls, s''). Inr ((fd, h) # calls, s'')))))))"

definition event_turn ::
  "(int \<Rightarrow> nat \<Rightarrow> int \<Rightarrow> epoll_event list option) \<Rightarrow>
   ('h \<Rightarrow> 'c option \<Rightarrow> u32 \<Rightarrow> ('h, 'c) event option \<times> 'w \<Rightarrow> int \<times> ('h, 'c) event option \<times> 'w) \<Rightarrow>
   int \<Rightarrow> ('h, 'c) event option \<times> 'w \<Rightarrow> ((int \<times> 'h) list \<times> ('h, 'c) event option \<times> 'w) ub" where
  "event_turn epoll_wait call timeout_ms s =
     bind_ub (tgx_event_poll epoll_wait (fst s) timeout_ms) (\<lambda>(nEvent, te).
       if nEvent = - 1 then Inr ([], te, snd s)
       else dispatch call (nat nEvent) (- 1) (te, snd s))"

subsection \<open>The table as a map\<close>

text \<open>What the table says of a descriptor: the handler and the context of its entry.\<close>

definition slot :: "('h, 'c) event \<Rightarrow> int \<Rightarrow> ('h, 'c) sched option" where
  "slot e fd = (case find (\<lambda>s. holds s fd) (sched_array e) of None \<Rightarrow> None | Some s \<Rightarrow> s)"

definition in_range :: "('h, 'c) sched option list \<Rightarrow> bool" where
  "in_range ss \<longleftrightarrow> (\<forall>i < length ss. \<forall>sc. ss ! i = Some sc \<longrightarrow> 0 \<le> sc_fd sc \<and> nat (sc_fd sc) < length ss)"

definition no_dup :: "('h, 'c) sched option list \<Rightarrow> bool" where
  "no_dup ss \<longleftrightarrow> (\<forall>i < length ss. \<forall>j < length ss. \<forall>a b. ss ! i = Some a \<longrightarrow> ss ! j = Some b \<longrightarrow> sc_fd a = sc_fd b \<longrightarrow> i = j)"

text \<open>The array has \<open>maxfds\<close> slots, every entry is for a descriptor below that, and no two for the same.\<close>

definition wf_event :: "('h, 'c) event \<Rightarrow> bool" where
  "wf_event e \<longleftrightarrow> 0 < unat (maxfds e) \<and> unat (maxfds e) < 2 ^ 31 \<and> length (sched_array e) = unat (maxfds e) \<and>
     in_range (sched_array e) \<and> no_dup (sched_array e)"

definition occupied :: "('h, 'c) event \<Rightarrow> nat" where
  "occupied e = length (filter (\<lambda>s. s \<noteq> None) (sched_array e))"

lemma destroy_frees_entries: "wf_event e \<Longrightarrow> length (snd (tgx_event_destroy (Some e))) = occupied e"
  by (simp add: tgx_event_destroy_def occupied_def wf_event_def)

lemma holds_simps [simp]: "\<not> holds None fd" "holds (Some sc) fd \<longleftrightarrow> sc_fd sc = fd"
  by (simp_all add: holds_def)

lemma peek_nat: "0 \<le> p \<Longrightarrow> nat p < length mem \<Longrightarrow> peek mem p = Inr (mem ! nat p)"
  by (simp add: peek_def)

lemma holds_cases: "holds s fd \<longleftrightarrow> (\<exists>sc. s = Some sc \<and> sc_fd sc = fd)"
  by (cases s) auto

lemma find_from_cases:
  obtains "find_from ss i fd = TGX_NO_INDEX_FIND" "find (\<lambda>s. holds s fd) ss = None"
  | k where "find_from ss i fd = i + int k" "k < length ss" "holds (ss ! k) fd"
proof (induction ss arbitrary: i thesis)
  case (Cons s ss)
  show ?case
  proof (cases "holds s fd")
    case True
    then show ?thesis using Cons.prems(2) [of 0] by simp
  next
    case False
    show ?thesis
    proof (rule Cons.IH [of "i + 1"])
      fix k assume "find_from ss (i + 1) fd = i + 1 + int k" "k < length ss" "holds (ss ! k) fd"
      with False show ?thesis by (intro Cons.prems(2) [of "Suc k"]) simp_all
    qed (use False Cons.prems(1) in simp)
  qed
qed simp

lemma slot_eq_Some:
  assumes "wf_event e"
  shows "slot e fd = Some sc \<longleftrightarrow> sc_fd sc = fd \<and> (\<exists>i < length (sched_array e). sched_array e ! i = Some sc)"
proof
  assume "slot e fd = Some sc"
  then obtain s where "find (\<lambda>s. holds s fd) (sched_array e) = Some s" "s = Some sc"
    by (auto simp: slot_def split: option.splits)
  then show "sc_fd sc = fd \<and> (\<exists>i < length (sched_array e). sched_array e ! i = Some sc)"
    by (metis find_Some_iff holds_simps(2))
next
  assume r: "sc_fd sc = fd \<and> (\<exists>i < length (sched_array e). sched_array e ! i = Some sc)"
  then obtain i where i: "i < length (sched_array e)" "sched_array e ! i = Some sc" by blast
  show "slot e fd = Some sc"
  proof (cases "find (\<lambda>s. holds s fd) (sched_array e)")
    case None
    with i r show ?thesis by (auto simp: find_None_iff dest: nth_mem)
  next
    case (Some s)
    then obtain j where j: "j < length (sched_array e)" "s = sched_array e ! j" "holds s fd" by (auto simp: find_Some_iff)
    with i r assms have "j = i" by (auto simp: wf_event_def no_dup_def holds_cases)
    with Some j i show ?thesis by (simp add: slot_def)
  qed
qed

lemma slot_eq_None:
  "slot e fd = None \<longleftrightarrow> (\<forall>i < length (sched_array e). \<not> holds (sched_array e ! i) fd)"
  by (auto simp: slot_def holds_cases find_None_iff find_Some_iff in_set_conv_nth split: option.splits)

lemma slot_range: "wf_event e \<Longrightarrow> slot e fd = Some sc \<Longrightarrow> 0 \<le> fd \<and> nat fd < length (sched_array e)"
  by (metis in_range_def slot_eq_Some wf_event_def)

lemma find_schedule_index:
  assumes "wf_event e" and "0 \<le> fd" and "nat fd < length (sched_array e)"
  obtains "tgx_find_schedule_index e fd = Inr TGX_NO_INDEX_FIND" "slot e fd = None"
  | k sc where "tgx_find_schedule_index e fd = Inr (int k)" "k < length (sched_array e)" "sched_array e ! k = Some sc"
      "sc_fd sc = fd" "slot e fd = Some sc"
proof -
  have l: "peek (sched_array e) fd = Inr (sched_array e ! nat fd)"
    using assms by (simp add: peek_nat)
  show thesis
  proof (cases "holds (sched_array e ! nat fd) fd")
    case True
    then obtain sc where "sched_array e ! nat fd = Some sc" "sc_fd sc = fd" by (auto simp: holds_cases)
    with l True assms show ?thesis
      by (intro that(2) [of "nat fd" sc]) (auto simp: tgx_find_schedule_index_def slot_eq_Some wf_event_def)
  next
    case False
    show ?thesis
    proof (rule find_from_cases [of "sched_array e" 0 fd])
      assume "find_from (sched_array e) 0 fd = TGX_NO_INDEX_FIND" "find (\<lambda>s. holds s fd) (sched_array e) = None"
      with l False show ?thesis by (intro that(1)) (simp_all add: tgx_find_schedule_index_def slot_def)
    next
      fix k assume k: "find_from (sched_array e) 0 fd = 0 + int k" "k < length (sched_array e)" "holds (sched_array e ! k) fd"
      then obtain sc where "sched_array e ! k = Some sc" "sc_fd sc = fd" by (auto simp: holds_cases)
      with l False k assms(1) show ?thesis
        by (intro that(2) [of k sc]) (auto simp: tgx_find_schedule_index_def slot_eq_Some)
    qed
  qed
qed

lemma wf_event_frame [simp]:
  "wf_event (e\<lparr>usedfds := u\<rparr>) = wf_event e"
  "slot (e\<lparr>usedfds := u\<rparr>) = slot e"
  "wf_event (e\<lparr>epoll_events := ev\<rparr>) = wf_event e"
  "slot (e\<lparr>epoll_events := ev\<rparr>) = slot e"
  "wf_event (e\<lparr>sched_array := a, usedfds := u\<rparr>) = wf_event (e\<lparr>sched_array := a\<rparr>)"
  "slot (e\<lparr>sched_array := a, usedfds := u\<rparr>) = slot (e\<lparr>sched_array := a\<rparr>)"
  "wf_event (e\<lparr>usedfds := u, sched_array := a\<rparr>) = wf_event (e\<lparr>sched_array := a\<rparr>)"
  "slot (e\<lparr>usedfds := u, sched_array := a\<rparr>) = slot (e\<lparr>sched_array := a\<rparr>)"
  by (simp_all add: wf_event_def slot_def fun_eq_iff)

lemma in_range_update:
  "in_range ss \<Longrightarrow> (\<And>sc. s = Some sc \<Longrightarrow> 0 \<le> sc_fd sc \<and> nat (sc_fd sc) < length ss) \<Longrightarrow> in_range (ss[i := s])"
  unfolding in_range_def by (metis length_list_update nth_list_update_eq nth_list_update_neq)

lemma no_dup_update:
  assumes "no_dup ss" and "\<And>sc j. s = Some sc \<Longrightarrow> j < length ss \<Longrightarrow> holds (ss ! j) (sc_fd sc) \<Longrightarrow> j = i"
  shows "no_dup (ss[i := s])"
  unfolding no_dup_def
proof (intro allI impI)
  fix m n a b
  assume l: "m < length (ss[i := s])" "n < length (ss[i := s])"
    and e: "ss[i := s] ! m = Some a" "ss[i := s] ! n = Some b" "sc_fd a = sc_fd b"
  consider "m = i" "n = i" | "m = i" "n \<noteq> i" | "m \<noteq> i" "n = i" | "m \<noteq> i" "n \<noteq> i" by blast
  then show "m = n"
  proof cases
    case 2
    with l e have "s = Some a" "holds (ss ! n) (sc_fd a)" by simp_all
    with assms(2) [of a n] l show ?thesis using 2 by simp
  next
    case 3
    with l e have "s = Some b" "holds (ss ! m) (sc_fd b)" by simp_all
    with assms(2) [of b m] l show ?thesis using 3 by simp
  next
    case 4
    with l e assms(1) show ?thesis unfolding no_dup_def by (metis length_list_update nth_list_update_neq)
  qed simp
qed

lemma entry_update:
  "ss ! i \<noteq> Some s \<Longrightarrow> t \<noteq> Some s \<Longrightarrow>
   (\<exists>j < length (ss[i := t]). ss[i := t] ! j = Some s) \<longleftrightarrow> (\<exists>j < length ss. ss ! j = Some s)"
  by (metis length_list_update nth_list_update_eq nth_list_update_neq)

lemma slot_put:
  assumes wf: "wf_event e" and i: "i < length (sched_array e)" and fd: "0 \<le> sc_fd sc" "nat (sc_fd sc) < length (sched_array e)"
    and free: "sched_array e ! i = None \<or> holds (sched_array e ! i) (sc_fd sc)"
    and only: "\<forall>j < length (sched_array e). holds (sched_array e ! j) (sc_fd sc) \<longrightarrow> j = i"
  shows "wf_event (e\<lparr>sched_array := (sched_array e)[i := Some sc]\<rparr>)"
    and "slot (e\<lparr>sched_array := (sched_array e)[i := Some sc]\<rparr>) = (slot e)(sc_fd sc \<mapsto> sc)"
proof -
  let ?ss = "sched_array e"
  let ?e = "e\<lparr>sched_array := ?ss[i := Some sc]\<rparr>"
  show wf': "wf_event ?e"
    using wf fd in_range_update [of ?ss "Some sc" i] no_dup_update [of ?ss "Some sc" i] only by (simp add: wf_event_def)
  show "slot ?e = (slot e)(sc_fd sc \<mapsto> sc)"
  proof
    fix fd'
    show "slot ?e fd' = ((slot e)(sc_fd sc \<mapsto> sc)) fd'"
    proof (cases "fd' = sc_fd sc")
      case True
      with i have "slot ?e fd' = Some sc" unfolding slot_eq_Some [OF wf'] by auto
      with True show ?thesis by simp
    next
      case False
      have "slot ?e fd' = Some s \<longleftrightarrow> slot e fd' = Some s" for s
      proof (cases "sc_fd s = fd'")
        case True
        with free False have "?ss ! i \<noteq> Some s" "Some sc \<noteq> Some s" by auto
        from entry_update [OF this] show ?thesis unfolding slot_eq_Some [OF wf'] slot_eq_Some [OF wf] by simp
      qed (simp add: slot_eq_Some wf wf')
      with False show ?thesis by (metis fun_upd_other not_None_eq)
    qed
  qed
qed

lemma slot_clear:
  assumes wf: "wf_event e" and k: "k < length (sched_array e)" "holds (sched_array e ! k) fd"
  shows "wf_event (e\<lparr>sched_array := (sched_array e)[k := None]\<rparr>)"
    and "slot (e\<lparr>sched_array := (sched_array e)[k := None]\<rparr>) = (slot e)(fd := None)"
proof -
  let ?e = "e\<lparr>sched_array := (sched_array e)[k := None]\<rparr>"
  show wf': "wf_event ?e" 
    using wf in_range_update [of "sched_array e" None k] no_dup_update [of "sched_array e" None k] by (simp add: wf_event_def)
  have only: "j = k" if "j < length (sched_array e)" "holds (sched_array e ! j) fd" for j
    using wf k that by (auto simp: wf_event_def no_dup_def holds_cases)
  show "slot ?e = (slot e)(fd := None)"
  proof
    fix fd'
    show "slot ?e fd' = ((slot e)(fd := None)) fd'"
    proof (cases "fd' = fd")
      case True
      have "slot ?e fd' = None" unfolding slot_eq_None
      proof (intro allI impI)
        fix j assume j: "j < length (sched_array ?e)"
        show "\<not> holds (sched_array ?e ! j) fd'" using only [of j] j True by (cases "j = k") auto
      qed
      with True show ?thesis by simp
    next
      case False
      have "slot ?e fd' = Some s \<longleftrightarrow> slot e fd' = Some s" for s
      proof (cases "sc_fd s = fd'")
        case True
        with k False have "sched_array e ! k \<noteq> Some s" "None \<noteq> Some s" by auto
        from entry_update [OF this] show ?thesis unfolding slot_eq_Some [OF wf'] slot_eq_Some [OF wf] by simp
      qed (simp add: slot_eq_Some wf wf')
      with False show ?thesis by (metis fun_upd_other not_None_eq)
    qed
  qed
qed

subsection \<open>The operations on the map\<close>

definition wf_table :: "('h, 'c) event option \<Rightarrow> bool" where
  "wf_table te \<longleftrightarrow> (case te of None \<Rightarrow> False | Some e \<Rightarrow> wf_event e)"

definition lookup :: "('h, 'c) event option \<Rightarrow> int \<Rightarrow> ('h option \<times> 'c option) option" where
  "lookup te fd = (case te of None \<Rightarrow> None | Some e \<Rightarrow> map_option (\<lambda>sc. (sc_handler sc, sc_context sc)) (slot e fd))"

definition in_table :: "('h, 'c) event option \<Rightarrow> int \<Rightarrow> bool" where
  "in_table te fd \<longleftrightarrow> 0 \<le> fd \<and> (case te of None \<Rightarrow> False | Some e \<Rightarrow> nat fd < length (sched_array e))"

lemma table_simps [simp]:
  "wf_table (Some e) = wf_event e"
  "lookup (Some e) fd = map_option (\<lambda>sc. (sc_handler sc, sc_context sc)) (slot e fd)"
  "in_table (Some e) fd \<longleftrightarrow> 0 \<le> fd \<and> nat fd < length (sched_array e)"
  by (simp_all add: wf_table_def lookup_def in_table_def)

lemma first_free_spec: "first_free ss i = Some k \<Longrightarrow> i \<le> k \<and> k - i < length ss \<and> ss ! (k - i) = None"
proof (induction ss i rule: first_free.induct)
  case (2 s ss i)
  show ?case
  proof (cases "s = None")
    case False
    with 2 have "Suc i \<le> k" "k - Suc i < length ss" "ss ! (k - Suc i) = None" by auto
    then show ?thesis by (simp add: nth_Cons')
  qed (use 2 in auto)
qed simp

lemma first_free_None: "first_free ss i = None \<Longrightarrow> length (filter (\<lambda>s. s \<noteq> None) ss) = length ss"
  by (induction ss i rule: first_free.induct) (auto split: if_splits)

lemma length_filter_update:
  assumes "i < length xs"
  shows "length (filter P (xs[i := x])) + (if P (xs ! i) then 1 else 0) = length (filter P xs) + (if P x then 1 else 0)"
proof -
  have "length (filter P xs) = length (filter P (take i xs @ xs ! i # drop (Suc i) xs))"
    using assms by (simp add: id_take_nth_drop [symmetric])
  then show ?thesis using assms by (simp add: upd_conv_take_nth_drop)
qed

lemma register_put:
  assumes "wf_event e" and "0 \<le> fd" and "nat fd < length (sched_array e)" and "slot e fd = None"
    and "k < length (sched_array e)" and "sched_array e ! k = None"
  shows "wf_event (e\<lparr>sched_array := (sched_array e)[k := Some \<lparr>sc_fd = fd, sc_handler = h, sc_context = c\<rparr>]\<rparr>) \<and>
    lookup (Some (e\<lparr>sched_array := (sched_array e)[k := Some \<lparr>sc_fd = fd, sc_handler = h, sc_context = c\<rparr>]\<rparr>)) =
      (lookup (Some e))(fd \<mapsto> (h, c))"
  using slot_put [of e k "\<lparr>sc_fd = fd, sc_handler = h, sc_context = c\<rparr>"] assms
  by (auto simp: slot_eq_None fun_eq_iff)

lemma register_result:
  assumes "wf_event e" and "0 \<le> fd" and "nat fd < length (sched_array e)" and "slot e fd = None"
  obtains r e' where "tgx_event_schedule_register ok (Some e) fd h c = Inr (r, Some e')" "wf_event e'"
    "length (sched_array e') = length (sched_array e)"
    "lookup (Some e') = (if r = 0 then (lookup (Some e))(fd \<mapsto> (h, c)) else lookup (Some e))" "r = 0 \<or> r = - 1"
    "maxfds e' = maxfds e" "usedfds e' = (if h = None then usedfds e else usedfds e + 1)"
    "occupied e' = (if r = 0 then Suc (occupied e) else occupied e)"
    "ok \<Longrightarrow> h \<noteq> None \<Longrightarrow> usedfds e + 1 \<le> maxfds e - 1 \<Longrightarrow> occupied e < length (sched_array e) \<Longrightarrow> r = 0"
    "maxfds e - 1 < usedfds e + 1 \<Longrightarrow> r = - 1"
proof -
  let ?e = "e\<lparr>usedfds := usedfds e + 1\<rparr>"
  have p: "peek (sched_array e) fd = Inr (sched_array e ! nat fd)" using assms by (simp add: peek_nat)
  have w: "wf_event ?e" "slot ?e fd = None" "lookup (Some ?e) = lookup (Some e)" using assms by (simp_all add: fun_eq_iff)
  show thesis
  proof (cases "h = None \<or> usedfds ?e > maxfds e - 1 \<or> \<not> ok")
    case True
    then have "tgx_event_schedule_register ok (Some e) fd h c = Inr (- 1, Some (if h = None then e else ?e))"
      using assms(2) by (auto simp: tgx_event_schedule_register_def Let_def)
    then show ?thesis using w assms(1) True
      by (intro that [of "- 1" "if h = None then e else ?e"]) (auto simp: occupied_def)
  next
    case False
    define k where "k = (if sched_array e ! nat fd = None then Some (nat fd) else first_free (sched_array e) 0)"
    show ?thesis
    proof (cases k)
      case None
      then have "tgx_event_schedule_register ok (Some e) fd h c = Inr (- 1, Some ?e)"
        using False assms(2) p by (auto simp: tgx_event_schedule_register_def k_def split: if_splits)
      moreover have "\<not> occupied e < length (sched_array e)"
        using None first_free_None [of "sched_array e" 0] by (simp add: k_def occupied_def split: if_splits)
      ultimately show ?thesis using w False by (intro that [of "- 1" ?e]) (auto simp: occupied_def)
    next
      case (Some i)
      have i: "i < length (sched_array ?e)" "sched_array ?e ! i = None"
        using Some assms(3) first_free_spec [of "sched_array e" 0 i] by (auto simp: k_def split: if_splits)
      have "tgx_event_schedule_register ok (Some e) fd h c =
          Inr (0, Some (?e\<lparr>sched_array := (sched_array ?e)[i := Some \<lparr>sc_fd = fd, sc_handler = h, sc_context = c\<rparr>]\<rparr>))"
        using False assms(2) p Some by (auto simp: tgx_event_schedule_register_def k_def split: if_splits)
      then show ?thesis
        using register_put [OF w(1) assms(2) _ w(2) i, of h c] assms(3) w(3) False i
          length_filter_update [of i "sched_array e" "\<lambda>s. s \<noteq> None" "Some \<lparr>sc_fd = fd, sc_handler = h, sc_context = c\<rparr>"]
        by (intro that [of 0 "?e\<lparr>sched_array := (sched_array ?e)[i := Some \<lparr>sc_fd = fd, sc_handler = h, sc_context = c\<rparr>]\<rparr>"])
          (auto simp: occupied_def)
    qed
  qed
qed

lemma unregister_result:
  assumes "wf_event e" and "0 \<le> fd" and "nat fd < length (sched_array e)"
  obtains r e' where "tgx_event_schedule_unregister (Some e) fd = Inr (r, Some e')" "wf_event e'"
    "length (sched_array e') = length (sched_array e)"
    "lookup (Some e') = (lookup (Some e))(fd := None)" "r = (if slot e fd = None then - 1 else 0)"
    "occupied e' = (if slot e fd = None then occupied e else occupied e - 1)"
    "usedfds e' = (if slot e fd = None then usedfds e else usedfds e - 1)"
    "maxfds e' = maxfds e" "slot e fd \<noteq> None \<Longrightarrow> 0 < occupied e"
proof -
  have small: "\<not> word_of_int fd > maxfds e - 1"
  proof -
    obtain n where n: "unat (maxfds e) = n" by simp
    then have u: "uint (maxfds e) = int n" by auto
    have b: "0 < n" "n < 2 ^ 31" "nat fd < n" using assms n by (auto simp: wf_event_def)
    have "uint (maxfds e - 1) = int n - 1" using u b by (simp add: uint_sub_if')
    moreover have "uint (word_of_int fd :: u64) = fd"
      using assms(2) b by (simp add: uint_word_of_int)
    ultimately show ?thesis using b by (simp add: word_less_def)
  qed
  show thesis
  proof (cases rule: find_schedule_index [OF assms])
    case 1
    then have "tgx_event_schedule_unregister (Some e) fd = Inr (- 1, Some e)"
      using small assms(2) by (simp add: tgx_event_schedule_unregister_def)
    with 1 assms(1) show ?thesis by (intro that) (auto simp: fun_eq_iff)
  next
    case (2 k sc)
    let ?ss = "(sched_array e)[k := None]"
    have "tgx_event_schedule_unregister (Some e) fd = Inr (0, Some (e\<lparr>sched_array := ?ss, usedfds := usedfds e - 1\<rparr>))"
      using 2 small assms(2) by (simp add: tgx_event_schedule_unregister_def TGX_NO_INDEX_FIND_def)
    moreover have "length (filter (\<lambda>s. s \<noteq> None) ?ss) + 1 = occupied e"
      using 2 length_filter_update [of k "sched_array e" "\<lambda>s. s \<noteq> None" None] by (simp add: occupied_def)
    ultimately show ?thesis using 2 slot_clear [OF assms(1), of k fd]
      by (intro that [of 0 "e\<lparr>sched_array := ?ss, usedfds := usedfds e - 1\<rparr>"]) (auto simp: fun_eq_iff occupied_def)
  qed
qed

lemma set_handler_result:
  assumes "wf_event e" and "0 \<le> fd" and "nat fd < length (sched_array e)"
  obtains r e' where "tgx_event_set_handler (Some e) fd h c = Inr (r, Some e')" "wf_event e'"
    "length (sched_array e') = length (sched_array e)"
    "lookup (Some e') = (case lookup (Some e) fd of
       Some (Some _, ctx) \<Rightarrow> (lookup (Some e))(fd \<mapsto> (h, ctx)) | _ \<Rightarrow> lookup (Some e))"
    "r = (case lookup (Some e) fd of Some (Some _, _) \<Rightarrow> if c = None then 0 else - 1 | _ \<Rightarrow> - 1)"
proof (cases rule: find_schedule_index [OF assms])
  case 1
  then have "tgx_event_set_handler (Some e) fd h c = Inr (- 1, Some e)" by (simp add: tgx_event_set_handler_def)
  with 1 assms(1) show thesis by (intro that) simp_all
next
  case (2 k sc)
  note p = 2(1-3)
  let ?sc = "sc\<lparr>sc_handler := h\<rparr>"
  let ?e = "e\<lparr>sched_array := (sched_array e)[k := Some ?sc]\<rparr>"
  show thesis
  proof (cases "sc_handler sc")
    case None
    with p have "tgx_event_set_handler (Some e) fd h c = Inr (- 1, Some e)"
      by (simp add: tgx_event_set_handler_def TGX_NO_INDEX_FIND_def)
    with None 2 assms(1) show ?thesis by (intro that) simp_all
  next
    case (Some h0)
    have put: "wf_event ?e" "slot ?e = (slot e)(fd \<mapsto> ?sc)"
    proof -
      have only: "\<forall>j < length (sched_array e). holds (sched_array e ! j) (sc_fd ?sc) \<longrightarrow> j = k"
        using assms(1) 2 by (auto simp: wf_event_def no_dup_def holds_cases)
      have pre: "0 \<le> sc_fd ?sc" "nat (sc_fd ?sc) < length (sched_array e)"
          "sched_array e ! k = None \<or> holds (sched_array e ! k) (sc_fd ?sc)" "sc_fd ?sc = fd"
        using assms 2 by simp_all
      from slot_put [OF assms(1) 2(2) pre(1-3) only] show "wf_event ?e" "slot ?e = (slot e)(fd \<mapsto> ?sc)"
        unfolding pre(4) .
    qed
    have "tgx_event_set_handler (Some e) fd h c = Inr (if c = None then 0 else - 1, Some ?e)"
      using p Some by (simp add: tgx_event_set_handler_def TGX_NO_INDEX_FIND_def)
    with put 2 Some show ?thesis
      by (intro that [of "if c = None then 0 else - 1" ?e]) (auto simp: fun_eq_iff)
  qed
qed

lemma get_result:
  assumes "wf_event e" and "0 \<le> fd" and "nat fd < length (sched_array e)"
  shows "tgx_event_get_handler (Some e) fd = Inr (case lookup (Some e) fd of None \<Rightarrow> None | Some (h, _) \<Rightarrow> h)"
    and "tgx_event_get_context (Some e) fd = Inr (case lookup (Some e) fd of None \<Rightarrow> None | Some (_, c) \<Rightarrow> c)"
  using assms(2)
  by (cases rule: find_schedule_index [OF assms];
      simp add: tgx_event_get_handler_def tgx_event_get_context_def TGX_NO_INDEX_FIND_def)+

subsection \<open>The interface the server relies on\<close>

text \<open>
  What the accept handler and the connections rely on: a table of handlers with three operations that
  each return a status. A client sees a finite map; the laws say how a status and the map go together.
\<close>

datatype ('h, 'c) table_op = Register int "'h option" "'c option" | Unregister int | SetHandler int "'h option"

locale handler_table =
  fixes inv :: "'s \<Rightarrow> bool" and view :: "'s \<Rightarrow> int \<Rightarrow> ('h option \<times> 'c option) option" and dom_ok :: "'s \<Rightarrow> int \<Rightarrow> bool"
    and register :: "'s \<Rightarrow> int \<Rightarrow> 'h option \<Rightarrow> 'c option \<Rightarrow> (int \<times> 's) ub"
    and unregister :: "'s \<Rightarrow> int \<Rightarrow> (int \<times> 's) ub"
    and set_handler :: "'s \<Rightarrow> int \<Rightarrow> 'h option \<Rightarrow> (int \<times> 's) ub"
  assumes register_law: "inv s \<Longrightarrow> dom_ok s fd \<Longrightarrow> view s fd = None \<Longrightarrow>
      \<exists>r s'. register s fd h c = Inr (r, s') \<and> inv s' \<and> dom_ok s' = dom_ok s \<and>
        view s' = (if r = 0 then (view s)(fd \<mapsto> (h, c)) else view s)"
    and unregister_law: "inv s \<Longrightarrow> dom_ok s fd \<Longrightarrow>
      \<exists>r s'. unregister s fd = Inr (r, s') \<and> inv s' \<and> dom_ok s' = dom_ok s \<and> view s' = (view s)(fd := None) \<and>
        (r = 0 \<longleftrightarrow> view s fd \<noteq> None)"
    and set_handler_law: "inv s \<Longrightarrow> dom_ok s fd \<Longrightarrow>
      \<exists>r s'. set_handler s fd h = Inr (r, s') \<and> inv s' \<and> dom_ok s' = dom_ok s \<and>
        (r = 0 \<longleftrightarrow> (\<exists>h0 c. view s fd = Some (Some h0, c))) \<and>
        view s' = (case view s fd of Some (Some _, c) \<Rightarrow> (view s)(fd \<mapsto> (h, c)) | _ \<Rightarrow> view s)"
begin

fun perform :: "'s \<Rightarrow> ('h, 'c) table_op \<Rightarrow> (int \<times> 's) ub" where
  "perform s (Register fd h c) = register s fd h c"
| "perform s (Unregister fd) = unregister s fd"
| "perform s (SetHandler fd h) = set_handler s fd h"

primrec perform_all :: "'s \<Rightarrow> ('h, 'c) table_op list \<Rightarrow> (int list \<times> 's) ub" where
  "perform_all s [] = Inr ([], s)"
| "perform_all s (op # ops) = bind_ub (perform s op) (\<lambda>(r, s'). bind_ub (perform_all s' ops) (\<lambda>(rs, s''). Inr (r # rs, s'')))"

fun apply_op :: "(int \<Rightarrow> ('h option \<times> 'c option) option) \<Rightarrow> int \<Rightarrow> ('h, 'c) table_op \<Rightarrow> int \<Rightarrow> ('h option \<times> 'c option) option" where
  "apply_op m r (Register fd h c) = (if r = 0 then m(fd \<mapsto> (h, c)) else m)"
| "apply_op m r (Unregister fd) = m(fd := None)"
| "apply_op m r (SetHandler fd h) = (case m fd of Some (Some _, c) \<Rightarrow> m(fd \<mapsto> (h, c)) | _ \<Rightarrow> m)"

text \<open>A descriptor is registered again only after it was taken out, as descriptors are while they are open.\<close>

fun op_ok :: "(int \<Rightarrow> bool) \<Rightarrow> (int \<Rightarrow> ('h option \<times> 'c option) option) \<Rightarrow> ('h, 'c) table_op \<Rightarrow> bool" where
  "op_ok D m (Register fd h c) \<longleftrightarrow> D fd \<and> m fd = None"
| "op_ok D m (Unregister fd) \<longleftrightarrow> D fd"
| "op_ok D m (SetHandler fd h) \<longleftrightarrow> D fd"

fun ops_ok :: "(int \<Rightarrow> bool) \<Rightarrow> (int \<Rightarrow> ('h option \<times> 'c option) option) \<Rightarrow> ('h, 'c) table_op list \<Rightarrow> bool" where
  "ops_ok D m [] \<longleftrightarrow> True"
| "ops_ok D m (op # ops) \<longleftrightarrow> op_ok D m op \<and> ops_ok D (apply_op m 0 op) ops \<and> ops_ok D (apply_op m (- 1) op) ops"

lemma perform_law:
  assumes "inv s" and "op_ok (dom_ok s) (view s) op"
  shows "\<exists>r s'. perform s op = Inr (r, s') \<and> inv s' \<and> dom_ok s' = dom_ok s \<and> view s' = apply_op (view s) r op"
proof (cases op)
  case (Register fd h c)
  with register_law [OF assms(1), of fd h c] assms(2) show ?thesis by auto
next
  case (Unregister fd)
  with unregister_law [OF assms(1), of fd] assms(2) show ?thesis by auto
next
  case (SetHandler fd h)
  with set_handler_law [OF assms(1), of fd h] assms(2) show ?thesis by auto
qed

lemma ops_ok_apply: "ops_ok D m (op # ops) \<Longrightarrow> ops_ok D (apply_op m r op) ops"
  by (cases op; cases "r = 0") auto

lemma perform_all_law:
  "inv s \<Longrightarrow> ops_ok (dom_ok s) (view s) ops \<Longrightarrow>
   \<exists>rs s'. perform_all s ops = Inr (rs, s') \<and> inv s' \<and> dom_ok s' = dom_ok s \<and> length rs = length ops \<and>
     view s' = fold (\<lambda>(r, op) m. apply_op m r op) (zip rs ops) (view s)"
proof (induction ops arbitrary: s)
  case (Cons op ops)
  then obtain r s1 where p: "perform s op = Inr (r, s1)" "inv s1" "dom_ok s1 = dom_ok s" "view s1 = apply_op (view s) r op"
    using perform_law [of s op] by auto
  moreover from this Cons.prems(2) have "ops_ok (dom_ok s1) (view s1) ops" using ops_ok_apply by metis
  ultimately obtain rs s2 where "perform_all s1 ops = Inr (rs, s2)" "inv s2" "dom_ok s2 = dom_ok s1" "length rs = length ops"
      "view s2 = fold (\<lambda>(r, op) m. apply_op m r op) (zip rs ops) (view s1)"
    using Cons.IH [of s1] by blast
  with p show ?case by (intro exI [of _ "r # rs"] exI [of _ s2]) simp
qed simp

end

lemma in_table_length:
  "in_table (Some e') = in_table (Some e)" if "length (sched_array e') = length (sched_array e)"
  using that by (simp add: fun_eq_iff)

interpretation table: handler_table wf_table lookup in_table
  "tgx_event_schedule_register True" tgx_event_schedule_unregister "\<lambda>te fd h. tgx_event_set_handler te fd h None"
proof
  fix s :: "('h, 'c) event option" and fd h c
  assume a: "wf_table s" "in_table s fd" "lookup s fd = None"
  then obtain e where s: "s = Some e" by (cases s) (simp_all add: wf_table_def)
  with a have e: "wf_event e" "0 \<le> fd" "nat fd < length (sched_array e)" "slot e fd = None" by simp_all
  from register_result [OF this, of True h c] show
    "\<exists>r s'. tgx_event_schedule_register True s fd h c = Inr (r, s') \<and> wf_table s' \<and> in_table s' = in_table s \<and>
       lookup s' = (if r = 0 then (lookup s)(fd \<mapsto> (h, c)) else lookup s)"
    unfolding s by (metis in_table_length table_simps(1))
next
  fix s :: "('h, 'c) event option" and fd
  assume a: "wf_table s" "in_table s fd"
  then obtain e where s: "s = Some e" by (cases s) (simp_all add: wf_table_def)
  with a have e: "wf_event e" "0 \<le> fd" "nat fd < length (sched_array e)" by simp_all
  have v: "lookup (Some e) fd \<noteq> None \<longleftrightarrow> slot e fd \<noteq> None" by simp
  from unregister_result [OF e] show
    "\<exists>r s'. tgx_event_schedule_unregister s fd = Inr (r, s') \<and> wf_table s' \<and> in_table s' = in_table s \<and>
       lookup s' = (lookup s)(fd := None) \<and> (r = 0) = (lookup s fd \<noteq> None)"
    unfolding s v by (metis in_table_length table_simps(1) zero_neq_neg_one)
next
  fix s :: "('h, 'c) event option" and fd h
  assume a: "wf_table s" "in_table s fd"
  then obtain e where s: "s = Some e" by (cases s) (simp_all add: wf_table_def)
  with a have e: "wf_event e" "0 \<le> fd" "nat fd < length (sched_array e)" by simp_all
  obtain r e' where x: "tgx_event_set_handler (Some e) fd h None = Inr (r, Some e')" "wf_event e'"
      "length (sched_array e') = length (sched_array e)"
      "lookup (Some e') = (case lookup (Some e) fd of
         Some (Some _, ctx) \<Rightarrow> (lookup (Some e))(fd \<mapsto> (h, ctx)) | _ \<Rightarrow> lookup (Some e))"
      "r = (case lookup (Some e) fd of Some (Some _, _) \<Rightarrow> if (None :: 'c option) = None then 0 else - 1 | _ \<Rightarrow> - 1)"
    by (rule set_handler_result [OF e, of h None])
  have "r = 0 \<longleftrightarrow> (\<exists>h0 c. lookup (Some e) fd = Some (Some h0, c))"
    unfolding x(5) by (auto split: option.splits)
  with x in_table_length [OF x(3)] show
    "\<exists>r s'. tgx_event_set_handler s fd h None = Inr (r, s') \<and> wf_table s' \<and> in_table s' = in_table s \<and>
       (r = 0) = (\<exists>h0 c. lookup s fd = Some (Some h0, c)) \<and>
       lookup s' = (case lookup s fd of Some (Some _, c) \<Rightarrow> (lookup s)(fd \<mapsto> (h, c)) | _ \<Rightarrow> lookup s)"
    unfolding s by (intro exI [of _ r] exI [of _ "Some e'"]) simp
qed

subsection \<open>Properties of the table\<close>

text \<open>
  C8: The array of schedules with its hash-like slots behaves as a finite map from descriptors to
  handler and context. Any sequence of registrations, removals and changes of handler, on descriptors
  below \<open>maxfds\<close> and none registered while it is in the table, runs without leaving the array; the
  statuses say which registrations took effect, and afterwards \<open>tgx_event_get_handler\<close> and
  \<open>tgx_event_get_context\<close> return what the map says.
\<close>

theorem event_table_map:
  assumes "wf_table te" and "table.ops_ok (in_table te) (lookup te) ops"
  shows "\<exists>rs te'. table.perform_all te ops = Inr (rs, te') \<and> wf_table te' \<and>
    lookup te' = fold (\<lambda>(r, op) m. table.apply_op m r op) (zip rs ops) (lookup te) \<and>
    (\<forall>fd. in_table te fd \<longrightarrow>
       tgx_event_get_handler te' fd = Inr (case lookup te' fd of None \<Rightarrow> None | Some (h, _) \<Rightarrow> h) \<and>
       tgx_event_get_context te' fd = Inr (case lookup te' fd of None \<Rightarrow> None | Some (_, c) \<Rightarrow> c))"
proof -
  obtain rs te' where r: "table.perform_all te ops = Inr (rs, te')" "wf_table te'" "in_table te' = in_table te"
      "lookup te' = fold (\<lambda>(r, op) m. table.apply_op m r op) (zip rs ops) (lookup te)"
    using table.perform_all_law [OF assms] by blast
  then obtain e where e: "te' = Some e" by (cases te') (simp_all add: wf_table_def)
  have "tgx_event_get_handler te' fd = Inr (case lookup te' fd of None \<Rightarrow> None | Some (h, _) \<Rightarrow> h) \<and>
      tgx_event_get_context te' fd = Inr (case lookup te' fd of None \<Rightarrow> None | Some (_, c) \<Rightarrow> c)" if "in_table te fd" for fd
    using that r(2) get_result [of e fd] unfolding r(3) [symmetric] e by simp
  with r show ?thesis by blast
qed

text \<open>A table as \<open>tgx_event_init\<close> returns it, with handlers named by numbers.\<close>

definition fresh_event :: "nat \<Rightarrow> (nat, nat) event" where
  "fresh_event n = \<lparr>sched_array = replicate n None, maxfds = word_of_nat n, usedfds = 0, epoll_fd = 3,
     epoll_events = Some (replicate n \<lparr>ep_events = 0, ep_fd = 0\<rparr>), engine = True\<rparr>"

lemma fresh_event_wf: "0 < n \<Longrightarrow> n < 2 ^ 31 \<Longrightarrow> wf_event (fresh_event n)"
  by (simp add: wf_event_def fresh_event_def in_range_def no_dup_def unat_of_nat)

lemma fresh_slot [simp]: "slot (fresh_event n) fd = None"
  by (simp add: slot_eq_None fresh_event_def)

lemma init_gives_fresh: "0 < n \<Longrightarrow> tgx_event_init True (int n) True True 3 True = InitOk (fresh_event n)" if "n < 2 ^ 31"
  using that by (simp add: tgx_event_init_def tgx_linux_epoll_init_def fresh_event_def Let_def unat_of_nat)

theorem event_table_map_witness:
  "\<exists>rs te'. table.perform_all (Some (fresh_event 8)) [Register 5 (Some 1) None, SetHandler 5 (Some 2), Unregister 5] = Inr (rs, te') \<and>
     wf_table te'"
proof -
  have "wf_event (fresh_event 8)" by (rule fresh_event_wf) simp_all
  moreover have "table.ops_ok (in_table (Some (fresh_event 8))) (lookup (Some (fresh_event 8)))
      [Register 5 (Some 1) None, SetHandler 5 (Some 2), Unregister 5]"
    by (simp add: fresh_event_def [THEN arg_cong, of sched_array])
  ultimately show ?thesis using event_table_map [of "Some (fresh_event 8)" "[Register 5 (Some 1) None, SetHandler 5 (Some 2), Unregister 5]"]
    by auto
qed

text \<open>
  Below the limit a registration succeeds: the search for a free slot, whose failure the code
  calls impossible, never fails, because the slots in use are never more than \<open>usedfds\<close> counts. The
  count is kept.
\<close>

theorem register_has_room:
  assumes "wf_event e" and "occupied e \<le> unat (usedfds e)" and "usedfds e < maxfds e - 1"
    and "0 \<le> fd" and "nat fd < length (sched_array e)" and "slot e fd = None"
  shows "\<exists>e'. tgx_event_schedule_register True (Some e) fd (Some h) c = Inr (0, Some e') \<and> wf_event e' \<and>
    lookup (Some e') = (lookup (Some e))(fd \<mapsto> (Some h, c)) \<and> occupied e' \<le> unat (usedfds e') \<and> usedfds e' \<le> maxfds e' - 1"
proof -
  have u: "unat (usedfds e + 1) = unat (usedfds e) + 1" "usedfds e + 1 \<le> maxfds e - 1"
    using assms(3) by (simp_all add: unat_incr incr_le)
  have "unat (usedfds e) < unat (maxfds e - 1)" using assms(3) by (simp add: word_less_nat_alt)
  also have "\<dots> \<le> unat (maxfds e)" using assms(1) unat_pred [of "maxfds e"] by (auto simp: wf_event_def unat_gt_0)
  finally have occ: "occupied e < length (sched_array e)" using assms(1,2) by (simp add: wf_event_def)
  show ?thesis
  proof (rule register_result [OF assms(1,4,5,6), of True "Some h" c])
    fix r e'
    assume "tgx_event_schedule_register True (Some e) fd (Some h) c = Inr (r, Some e')" "wf_event e'"
      "lookup (Some e') = (if r = 0 then (lookup (Some e))(fd \<mapsto> (Some h, c)) else lookup (Some e))"
      "maxfds e' = maxfds e" "usedfds e' = (if Some h = None then usedfds e else usedfds e + 1)"
      "occupied e' = (if r = 0 then Suc (occupied e) else occupied e)"
      "True \<Longrightarrow> Some h \<noteq> None \<Longrightarrow> usedfds e + 1 \<le> maxfds e - 1 \<Longrightarrow> occupied e < length (sched_array e) \<Longrightarrow> r = 0"
    with u occ assms(2) show ?thesis by simp
  qed
qed

theorem register_has_room_witness:
  "\<exists>e'. tgx_event_schedule_register True (Some (fresh_event 8)) 5 (Some 1) None = Inr (0, Some e') \<and> wf_event e' \<and>
     lookup (Some e') 5 = Some (Some 1, None)"
proof -
  have "wf_event (fresh_event 8)" by (rule fresh_event_wf) simp_all
  moreover have "occupied (fresh_event 8) \<le> unat (usedfds (fresh_event 8))" "usedfds (fresh_event 8) < maxfds (fresh_event 8) - 1"
      "nat 5 < length (sched_array (fresh_event 8))"
    by (simp_all add: fresh_event_def occupied_def)
  ultimately obtain e' where "tgx_event_schedule_register True (Some (fresh_event 8)) 5 (Some 1) None = Inr (0, Some e')" "wf_event e'"
      "lookup (Some e') = (lookup (Some (fresh_event 8)))(5 \<mapsto> (Some 1, None))"
    using register_has_room [of "fresh_event 8" 5 1 None] by auto
  moreover from this(3) have "lookup (Some e') 5 = Some (Some 1, None)" by (metis fun_upd_same)
  ultimately show ?thesis by blast
qed

text \<open>
  \<open>tgx_event_schedule_register\<close> counts before it checks, and a refused registration stays counted.
  With the table at its limit, one refused registration uses up the place that a later removal frees:
  the registration after that removal is refused as well, with slots to spare.
\<close>

theorem refused_register_leaks:
  assumes "wf_event e" and "usedfds e = maxfds e - 1" and "slot e fd0 \<noteq> None" and "slot e fd1 = None"
    and "0 \<le> fd1" and "nat fd1 < length (sched_array e)"
  shows "\<exists>e1 e2 e3. tgx_event_schedule_register True (Some e) fd1 (Some h) c = Inr (- 1, Some e1) \<and>
    tgx_event_schedule_unregister (Some e1) fd0 = Inr (0, Some e2) \<and> occupied e2 < occupied e \<and>
    tgx_event_schedule_register True (Some e2) fd1 (Some h) c = Inr (- 1, Some e3)"
proof -
  obtain sc where sc: "slot e fd0 = Some sc" using assms(3) by blast
  then have fd0: "0 \<le> fd0" "nat fd0 < length (sched_array e)"
    using slot_range [OF assms(1)] by simp_all
  have pos: "maxfds e \<noteq> 0" using assms(1) by (auto simp: wf_event_def)
  then have lim: "maxfds e - 1 < usedfds e + 1" using assms(2) unat_pred [of "maxfds e"] by (simp add: word_less_nat_alt)
  let ?e1 = "e\<lparr>usedfds := usedfds e + 1\<rparr>"
  have 1: "tgx_event_schedule_register True (Some e) fd1 (Some h) c = Inr (- 1, Some ?e1)"
    using assms(5) lim by (simp add: tgx_event_schedule_register_def)
  have w1: "wf_event ?e1" "nat fd0 < length (sched_array ?e1)" "occupied ?e1 = occupied e" "slot ?e1 fd0 = Some sc"
    using assms(1) fd0 sc by (simp_all add: occupied_def)
  show ?thesis
  proof (rule unregister_result [OF w1(1) fd0(1) w1(2)])
    fix r e2
    assume u: "tgx_event_schedule_unregister (Some ?e1) fd0 = Inr (r, Some e2)"
      "r = (if slot ?e1 fd0 = None then - 1 else 0)"
      "occupied e2 = (if slot ?e1 fd0 = None then occupied ?e1 else occupied ?e1 - 1)"
      "usedfds e2 = (if slot ?e1 fd0 = None then usedfds ?e1 else usedfds ?e1 - 1)"
      "maxfds e2 = maxfds ?e1" "slot ?e1 fd0 \<noteq> None \<Longrightarrow> 0 < occupied ?e1"
    have "usedfds e2 = usedfds e" "maxfds e2 = maxfds e" using u w1 by simp_all
    with lim assms(5) have "tgx_event_schedule_register True (Some e2) fd1 (Some h) c = Inr (- 1, Some (e2\<lparr>usedfds := usedfds e2 + 1\<rparr>))"
      by (simp add: tgx_event_schedule_register_def)
    moreover have "r = 0" "occupied e2 < occupied e" using u w1 by simp_all
    ultimately show ?thesis using 1 u(1) by blast
  qed
qed

definition full_event :: "(nat, nat) event" where
  "full_event = (fresh_event 3)\<lparr>sched_array := [Some \<lparr>sc_fd = 0, sc_handler = Some 1, sc_context = None\<rparr>,
     Some \<lparr>sc_fd = 1, sc_handler = Some 1, sc_context = None\<rparr>, None], usedfds := 2\<rparr>"

theorem refused_register_leaks_witness:
  "\<exists>e1 e2 e3. tgx_event_schedule_register True (Some full_event) 2 (Some 1) None = Inr (- 1, Some e1) \<and>
     tgx_event_schedule_unregister (Some e1) 0 = Inr (0, Some e2) \<and> occupied e2 < occupied full_event \<and>
     tgx_event_schedule_register True (Some e2) 2 (Some 1) None = Inr (- 1, Some e3)"
proof (rule refused_register_leaks)
  show "wf_event full_event"
    by (auto simp: full_event_def fresh_event_def wf_event_def in_range_def no_dup_def nth_Cons' split: if_splits)
qed (simp_all add: full_event_def fresh_event_def slot_def)

subsection \<open>Event masks\<close>

lemma and_power: "x AND 2 ^ n = (if bit x n then 2 ^ n else 0)" for x :: "'a::len word"
  by (rule bit_word_eqI) (auto simp: bit_and_iff bit_exp_iff)

lemma bit_if_0: "bit (if b then x else 0) n \<longleftrightarrow> b \<and> bit x n" for x :: "'a::len word"
  by simp

lemmas tgx_bits = TGX_EVENT_IN_def TGX_EVENT_OUT_def TGX_EVENT_ERR_def TGX_EVENT_HUP_def TGX_EVENT_PRI_def TGX_EVENT_RDHUP_def

lemmas epoll_bits = EPOLLIN_def EPOLLPRI_def EPOLLOUT_def EPOLLERR_def EPOLLHUP_def EPOLLRDHUP_def

lemma mask_bits:
  "x AND 1 = 0 \<longleftrightarrow> \<not> bit x 0" "x AND 2 = 0 \<longleftrightarrow> \<not> bit x 1" "x AND 4 = 0 \<longleftrightarrow> \<not> bit x 2" "x AND 8 = 0 \<longleftrightarrow> \<not> bit x 3"
  "x AND 0x10 = 0 \<longleftrightarrow> \<not> bit x 4" "x AND 0x2000 = 0 \<longleftrightarrow> \<not> bit x 13" for x :: u32
  using and_power [of x 0] and_power [of x 1] and_power [of x 2] and_power [of x 3]
    and_power [of x 4] and_power [of x 13] by (simp_all split: if_splits)

text \<open>
  The masks of the server and of the kernel are translated bit by bit: what is subscribed is the
  kernel's name for exactly the input and output bits, what is reported is a combination of the six
  server bits, each set exactly when the kernel's bit is, and reporting what was subscribed gives the
  mask back.
\<close>

theorem event_masks:
  "tgx_mask (epoll_mask f) = f AND (TGX_EVENT_IN OR TGX_EVENT_OUT) \<and>
   tgx_mask ev AND NOT 63 = 0 \<and>
   (bit (tgx_mask ev) 0 \<longleftrightarrow> bit ev 0) \<and> (bit (tgx_mask ev) 1 \<longleftrightarrow> bit ev 2) \<and> (bit (tgx_mask ev) 2 \<longleftrightarrow> bit ev 3) \<and>
   (bit (tgx_mask ev) 3 \<longleftrightarrow> bit ev 4) \<and> (bit (tgx_mask ev) 4 \<longleftrightarrow> bit ev 1) \<and> (bit (tgx_mask ev) 5 \<longleftrightarrow> bit ev 13)"
proof -
  have "f AND 3 = (f AND 1) OR (f AND 2)" using bit.conj_disj_distrib [of f 1 2] by simp
  also have "\<dots> = (if bit f 0 then 1 else 0) OR (if bit f 1 then 2 else 0)"
    using and_power [of f 0] and_power [of f 1] by simp
  finally have "tgx_mask (epoll_mask f) = f AND (TGX_EVENT_IN OR TGX_EVENT_OUT)"
    by (cases "bit f 0"; cases "bit f 1") (simp_all add: tgx_mask_def epoll_mask_def tgx_bits epoll_bits mask_bits)
  moreover have "tgx_mask ev AND NOT 63 = 0"
    by (simp add: tgx_mask_def tgx_bits bit.conj_disj_distrib2 if_distrib [of "\<lambda>x. x AND NOT 63"])
  moreover have "bit (tgx_mask ev) n \<longleftrightarrow>
      (bit ev 0 \<and> bit (1 :: u32) n \<or> bit ev 2 \<and> bit (2 :: u32) n) \<or> (bit ev 3 \<and> bit (4 :: u32) n \<or> bit ev 4 \<and> bit (8 :: u32) n) \<or>
      bit ev 1 \<and> bit (16 :: u32) n \<or> bit ev 13 \<and> bit (32 :: u32) n" for n
    unfolding tgx_mask_def tgx_bits epoll_bits mask_bits bit_or_iff bit_if_0 by blast
  ultimately show ?thesis by simp
qed

subsection \<open>Dispatch\<close>

text \<open>Handlers change the table and the rest of the program, never the engine's own fields.\<close>

definition keeps_engine ::
  "('h \<Rightarrow> 'c option \<Rightarrow> u32 \<Rightarrow> ('h, 'c) event option \<times> 'w \<Rightarrow> int \<times> ('h, 'c) event option \<times> 'w) \<Rightarrow> bool" where
  "keeps_engine call \<longleftrightarrow> (\<forall>h c m e w. \<exists>r e' w'. call h c m (Some e, w) = (r, Some e', w') \<and>
     engine e' = engine e \<and> epoll_fd e' = epoll_fd e \<and> epoll_events e' = epoll_events e)"

text \<open>
  C32: One ready descriptor: the turn of the loop runs its registered handler once, with its context and
  the translated mask, on the state in which the event was stored.
\<close>

theorem event_turn_calls_handler:
  assumes "wf_event e" and "engine e" and "0 \<le> epoll_fd e" and "epoll_events e = Some old"
    and "epoll_wait (epoll_fd e) (unat (maxfds e)) t = Some [ev]"
    and "lookup (Some e) (ep_fd ev) = Some (Some h, c)"
  shows "event_turn epoll_wait call t (Some e, w) =
    (let (r, s') = call h c (tgx_mask (ep_events ev)) (Some (e\<lparr>epoll_events := Some (ev # tl old)\<rparr>), w) in
     Inr ([(ep_fd ev, h)], s'))"
proof -
  let ?e = "e\<lparr>epoll_events := Some (ev # tl old)\<rparr>"
  from assms(6) obtain sc where "slot e (ep_fd ev) = Some sc" by auto
  then have fd: "0 \<le> ep_fd ev" "nat (ep_fd ev) < length (sched_array ?e)"
    using slot_range [OF assms(1)] by simp_all
  have l: "lookup (Some ?e) (ep_fd ev) = Some (Some h, c)" "wf_event ?e" using assms(1,6) by simp_all
  have g: "tgx_event_get_handler (Some ?e) (ep_fd ev) = Inr (Some h)" "tgx_event_get_context (Some ?e) (ep_fd ev) = Inr c"
    using get_result [OF l(2) fd] unfolding l(1) by simp_all
  have x: "tgx_event_get_next_index (Some ?e) (- 1) = 0" "tgx_event_get_fd (Some ?e) 0 = Inr (ep_fd ev)"
      "tgx_event_get_event (Some ?e) 0 = Inr (tgx_mask (ep_events ev))"
    using assms(2,3) by (simp_all add: tgx_event_get_next_index_def tgx_linux_epoll_get_next_index_def tgx_event_get_fd_def
      tgx_linux_epoll_get_fd_def tgx_event_get_event_def tgx_linux_epoll_get_event_def peek_def)
  have "tgx_event_poll epoll_wait (Some e) t = Inr (1, Some ?e)"
    using assms(2,4,5) by (simp add: tgx_event_poll_def tgx_linux_epoll_poll_def drop_Suc)
  then show ?thesis by (simp add: event_turn_def x g split: prod.split)
qed

definition stay :: "nat \<Rightarrow> nat option \<Rightarrow> u32 \<Rightarrow> (nat, nat) event option \<times> nat \<Rightarrow> int \<times> (nat, nat) event option \<times> nat" where
  "stay h c m s = (0, fst s, snd s + unat m)"

theorem event_turn_calls_handler_witness:
  "event_turn (\<lambda>_ _ _. Some [\<lparr>ep_events = 5, ep_fd = 1\<rparr>]) stay 10 (Some full_event, 0) =
     Inr ([(1, 1)], Some (full_event\<lparr>epoll_events := Some (\<lparr>ep_events = 5, ep_fd = 1\<rparr> # tl (the (epoll_events full_event)))\<rparr>), 3)"
proof -
  have w: "wf_event full_event"
    by (auto simp: full_event_def fresh_event_def wf_event_def in_range_def no_dup_def nth_Cons' split: if_splits)
  have "lookup (Some full_event) 1 = Some (Some 1, None)" by (simp add: full_event_def slot_def)
  moreover have "unat (tgx_mask 5) = 3" by (simp add: tgx_mask_def tgx_bits epoll_bits)
  ultimately show ?thesis
    using event_turn_calls_handler [OF w, of "the (epoll_events full_event)" "\<lambda>_ _ _. Some [\<lparr>ep_events = 5, ep_fd = 1\<rparr>]" 10
        "\<lparr>ep_events = 5, ep_fd = 1\<rparr>" 1 None stay 0]
    by (simp add: full_event_def fresh_event_def stay_def)
qed

text \<open>
  With several ready descriptors the loop serves only the first: \<open>get_next_index\<close> always returns 0, so
  every handler it runs, however many events were reported, is that of the first event.
\<close>

theorem dispatch_first_only:
  assumes "keeps_engine call" and "engine e" and "0 \<le> epoll_fd e" and "epoll_events e = Some (ev # evs)"
    and "dispatch call n i (Some e, w) = Inr (calls, s)"
  shows "set (map fst calls) \<subseteq> {ep_fd ev}"
  using assms(2-)
proof (induction n arbitrary: i e w calls)
  case (Suc n)
  have x: "tgx_event_get_next_index (Some e) i = 0" "tgx_event_get_fd (Some e) 0 = Inr (ep_fd ev)"
    using Suc.prems by (simp_all add: tgx_event_get_next_index_def tgx_linux_epoll_get_next_index_def tgx_event_get_fd_def
      tgx_linux_epoll_get_fd_def peek_def)
  from Suc.prems(4) obtain h c m where
    b: "(case h of None \<Rightarrow> dispatch call n 0 (Some e, w)
       | Some h \<Rightarrow> let (r, s') = call h c m (Some e, w) in
           bind_ub (dispatch call n 0 s') (\<lambda>(calls, s''). Inr ((ep_fd ev, h) # calls, s''))) = Inr (calls, s)"
    by (auto simp: x bind_ub_eq_Inr)
  show ?case
  proof (cases h)
    case None
    with b Suc.IH [OF Suc.prems(1-3)] show ?thesis by simp
  next
    case (Some h')
    from assms(1) obtain r e' w' where c: "call h' c m (Some e, w) = (r, Some e', w')"
        "engine e' = engine e" "epoll_fd e' = epoll_fd e" "epoll_events e' = epoll_events e"
      unfolding keeps_engine_def by metis
    with b Some obtain calls' where "dispatch call n 0 (Some e', w') = Inr (calls', s)" "calls = (ep_fd ev, h') # calls'"
      by (auto simp: bind_ub_eq_Inr)
    with Suc.IH [of e' 0 w' calls'] Suc.prems c show ?thesis by simp
  qed
qed simp

definition two_ready :: "(nat, nat) event" where
  "two_ready = full_event\<lparr>epoll_events := Some [\<lparr>ep_events = 1, ep_fd = 0\<rparr>, \<lparr>ep_events = 1, ep_fd = 1\<rparr>]\<rparr>"

theorem dispatch_first_only_witness:
  "\<exists>calls s. dispatch stay 2 (- 1) (Some two_ready, 0) = Inr (calls, s) \<and> set (map fst calls) \<subseteq> {0} \<and> length calls = 2"
proof -
  have d: "dispatch stay 2 (- 1) (Some two_ready, 0) = Inr ([(0, 1), (0, 1)], Some two_ready, 2)" by code_simp
  have "keeps_engine stay" by (simp add: keeps_engine_def stay_def)
  from dispatch_first_only [OF this _ _ _ d, of "\<lparr>ep_events = 1, ep_fd = 0\<rparr>" "[\<lparr>ep_events = 1, ep_fd = 1\<rparr>]"] d
  show ?thesis by (simp add: two_ready_def full_event_def fresh_event_def)
qed

end
