(* ===== verification/Connection.thy ===== *)
theory Connection
  imports ConnBuffer EventTable
begin

section \<open>Connections\<close>

text \<open>
  src/core/tgx_connection.c and the accept handler of src/core/tgx.c: what happens to a connection
  from \<open>accept\<close> to \<open>close\<close>. A connection is served by handlers, which the event loop calls, and by
  tasks, which the worker threads run. A handler or a task acts on the state of the whole server:
  the heap of connections, the event table, the descriptors epoll watches, the posted tasks and the
  bytes each socket has taken. Reading a connection that has been freed is the fault \<open>UseAfterFree\<close>.

  What the rest of the world does in one call is collected in a record: results of allocations, the
  answers of \<open>read\<close> and \<open>write\<close>, files and dates, the HTTP parser, the loader of modules and the
  modules themselves. The theory assumes nothing about them.
\<close>

subsection \<open>State\<close>

type_synonym addr = nat

text \<open>\<open>struct tgx_connection_s\<close>; only \<open>httpReqBody\<close> may be null in a connection that was returned.\<close>

record conn =
  c_fd :: int
  httpReqBuf :: tgx_string
  httpReqBody :: "tgx_string option"
  httpRespHeader :: tgx_string
  httpRespBody :: tgx_string
  travelling :: bool
  rw_pos :: int
  c_parser :: http_parser
  dlopen_handle :: bool

datatype handler = H_accept | H_read | H_write_header | H_write_file | H_write_buffer | H_noop

datatype ctask = T_http_parser | T_get_prepare_write | T_post_prepare_module | T_post_prepare_write

text \<open>A posted task, the connection it works on and, as \<open>context\<close> of the wrapper, the module it will call.\<close>

type_synonym posting = "ctask \<times> addr \<times> string option"

record server =
  tevent :: "(handler, addr) event option"
  epoll :: "int \<Rightarrow> u32 option"
  conns :: "addr \<Rightarrow> conn option"
  brk_conn :: addr
  posted :: "posting list"
  wire :: "int \<Rightarrow> string"
  listen_fd :: int
  e_404 :: string

datatype rd = RData string | RAgain | RErr | REof

datatype pcall = Request callback | OnBody string nat

record env =
  m_conn :: bool
  m_reqbody :: bool
  m_parts :: bool
  m_wrap :: bool
  m_task :: bool
  m_node :: bool
  m_buf :: bool
  m_grow :: "char list option"
  m_parser :: bool
  m_path :: bool
  m_body :: bool
  m_http :: bool
  m_sched :: bool
  k_ok :: bool
  reads :: "rd list"
  writes :: "wr list"
  files :: file_system
  contents :: "string \<Rightarrow> string option"
  since :: "string \<Rightarrow> int"
  now :: string
  date_of :: "int \<Rightarrow> string"
  calls :: "string \<Rightarrow> pcall list"
  parsed :: "string \<Rightarrow> nat \<Rightarrow> nat"
  dl_opens :: "string \<Rightarrow> bool"
  dl_symbol :: "string \<Rightarrow> bool"
  run_module :: "string \<Rightarrow> tgx_string option \<Rightarrow> tgx_string \<Rightarrow> int \<times> tgx_string option \<times> tgx_string"

text \<open>
  The kernel's list of watched descriptors, as \<open>epoll_ctl\<close> documents it: a descriptor can be added
  once, and only a watched one can be changed or deleted. \<open>ok\<close> is false when the kernel lacks memory.
\<close>

definition kernel_ctl :: "bool \<Rightarrow> (int \<Rightarrow> u32 option) \<Rightarrow> int \<Rightarrow> epoll_op \<Rightarrow> int \<Rightarrow> u32 \<Rightarrow> int \<times> (int \<Rightarrow> u32 option)" where
  "kernel_ctl ok k efd op fd msk = (case op of
      EPOLL_CTL_ADD \<Rightarrow> if ok \<and> k fd = None then (0, k(fd \<mapsto> msk)) else (- 1, k)
    | EPOLL_CTL_MOD \<Rightarrow> if k fd \<noteq> None then (0, k(fd \<mapsto> msk)) else (- 1, k)
    | EPOLL_CTL_DEL \<Rightarrow> if k fd \<noteq> None then (0, k(fd := None)) else (- 1, k))"

definition ctl :: "env \<Rightarrow> int \<Rightarrow> int \<Rightarrow> u32 \<Rightarrow> server \<Rightarrow> int \<times> server" where
  "ctl env op fd ev s =
     (let (r, k) = tgx_event_ctl (kernel_ctl (k_ok env)) (epoll s) (tevent s) op fd ev in (r, s\<lparr>epoll := k\<rparr>))"

definition set_handler :: "int \<Rightarrow> handler \<Rightarrow> server \<Rightarrow> (int \<times> server) ub" where
  "set_handler fd h s = bind_ub (tgx_event_set_handler (tevent s) fd (Some h) None) (\<lambda>(r, te). Inr (r, s\<lparr>tevent := te\<rparr>))"

definition get_conn :: "server \<Rightarrow> addr \<Rightarrow> conn ub" where
  "get_conn s a = (case conns s a of None \<Rightarrow> Inl UseAfterFree | Some c \<Rightarrow> Inr c)"

definition put_conn :: "addr \<Rightarrow> conn \<Rightarrow> server \<Rightarrow> server" where
  "put_conn a c s = s\<lparr>conns := (conns s)(a \<mapsto> c)\<rparr>"

subsection \<open>Opening and closing\<close>

definition empty_string :: tgx_string where "empty_string = \<lparr>ts_size = 0, ts_data = None\<rparr>"

definition tgx_new_connection :: "env \<Rightarrow> int \<Rightarrow> server \<Rightarrow> addr option \<times> server" where
  "tgx_new_connection env fd s =
     (if \<not> m_conn env then (None, s)
      else if \<not> m_parts env then (None, s)
      else (Some (brk_conn s), s\<lparr>brk_conn := Suc (brk_conn s), conns := (conns s)(brk_conn s \<mapsto>
        \<lparr>c_fd = fd, httpReqBuf = empty_string,
         httpReqBody = (if m_reqbody env then Some empty_string else None),
         httpRespHeader = empty_string, httpRespBody = empty_string, travelling = False, rw_pos = 0,
         c_parser = new_http_parser, dlopen_handle = False\<rparr>)\<rparr>))"

text \<open>Closing the descriptor also takes it off the kernel's list.\<close>

definition tgx_free_connection :: "addr \<Rightarrow> server \<Rightarrow> server ub" where
  "tgx_free_connection a s = bind_ub (get_conn s a) (\<lambda>c.
     Inr (s\<lparr>epoll := (if c_fd c > 0 then (epoll s)(c_fd c := None) else epoll s), conns := (conns s)(a := None)\<rparr>))"

definition tgx_close_connection :: "env \<Rightarrow> addr \<Rightarrow> server \<Rightarrow> server ub" where
  "tgx_close_connection env a s =
     bind_ub (get_conn s a) (\<lambda>c.
     bind_ub (tgx_event_schedule_unregister (tevent s) (c_fd c)) (\<lambda>(_, te).
       let s = s\<lparr>tevent := te\<rparr>;
           s = (if \<not> travelling c then snd (ctl env TGX_EVENT_CTL_DEL (c_fd c) 0 s) else s)
       in tgx_free_connection a s))"

text \<open>The end of most error branches: close and return \<open>-1\<close>.\<close>

definition close_err :: "env \<Rightarrow> addr \<Rightarrow> server \<Rightarrow> (int \<times> server) ub" where
  "close_err env a s = bind_ub (tgx_close_connection env a s) (\<lambda>s. Inr (- 1, s))"

text \<open>\<open>tgx_acception_handler\<close>: the descriptors \<open>accept\<close> returns until it fails; \<open>nonblock\<close> says for which \<open>fcntl\<close> succeeds.\<close>

primrec tgx_acception_handler :: "env \<Rightarrow> (int \<Rightarrow> bool) \<Rightarrow> int list \<Rightarrow> server \<Rightarrow> (int \<times> server) ub" where
  "tgx_acception_handler env nonblock [] s = Inr (0, s)"
| "tgx_acception_handler env nonblock (infd # fds) s =
     (if \<not> nonblock infd then Inr (- 1, s)
      else
        let (r, s) = ctl env TGX_EVENT_CTL_ADD infd TGX_EVENT_IN s in
        if r < 0 then Inr (- 1, s)
        else (case tgx_new_connection env infd s of
            (None, s) \<Rightarrow> Inr (- 1, s)
          | (Some a, s) \<Rightarrow>
              bind_ub (tgx_event_schedule_register (m_sched env) (tevent s) infd (Some H_read) (Some a)) (\<lambda>(r, te).
                let s = s\<lparr>tevent := te\<rparr> in
                if r < 0 then Inr (- 1, s) else tgx_acception_handler env nonblock fds s)))"

subsection \<open>Posting tasks\<close>

definition task_start_travelling :: "env \<Rightarrow> addr \<Rightarrow> server \<Rightarrow> (int \<times> server \<times> string option) ub" where
  "task_start_travelling env a s =
     bind_ub (get_conn s a) (\<lambda>c.
       let s = put_conn a (c\<lparr>rw_pos := 0\<rparr>) s in
       bind_ub (set_handler (c_fd c) H_noop s) (\<lambda>(ret1, s).
         let (ret2, s) = ctl env TGX_EVENT_CTL_DEL (c_fd c) 0 s in
         if ret1 < 0 \<or> ret2 < 0 then Inr (- 1, s, None)
         else Inr (0, put_conn a (c\<lparr>rw_pos := 0, travelling := True\<rparr>) s, None)))"

definition task_get_prepare_write_on_post :: "env \<Rightarrow> addr \<Rightarrow> server \<Rightarrow> (int \<times> server \<times> string option) ub" where
  "task_get_prepare_write_on_post env a s = Inr (0, s, None)"

definition task_post_prepare_module_on_post :: "env \<Rightarrow> addr \<Rightarrow> server \<Rightarrow> (int \<times> server \<times> string option) ub" where
  "task_post_prepare_module_on_post env a s =
     bind_ub (get_conn s a) (\<lambda>c.
       let p = path (c_parser c); s = put_conn a (c\<lparr>dlopen_handle := dl_opens env p\<rparr>) s in
       if \<not> dl_opens env p then Inr (- 1, s, None)
       else if \<not> dl_symbol env p then Inr (- 1, s, None)
       else Inr (0, s, Some p))"

definition task_post_prepare_write_on_post :: "env \<Rightarrow> addr \<Rightarrow> server \<Rightarrow> (int \<times> server \<times> string option) ub" where
  "task_post_prepare_write_on_post env a s = Inr (0, s, None)"

text \<open>
  \<open>_post_task\<close> and the part of \<open>tgx_post_task\<close> it runs through (the task has no lock): the wrapper and the
  task, the \<open>on_post\<close> callback, the queue node, the queue.
\<close>

definition post_task ::
  "env \<Rightarrow> addr \<Rightarrow> (env \<Rightarrow> addr \<Rightarrow> server \<Rightarrow> (int \<times> server \<times> string option) ub) \<Rightarrow> ctask \<Rightarrow> server \<Rightarrow> (int \<times> server) ub" where
  "post_task env a on_post t s =
     (if \<not> m_wrap env then Inr (- 1, s)
      else if \<not> m_task env then Inr (- 1, s)
      else bind_ub (on_post env a s) (\<lambda>(r, s, m).
        if r < 0 then Inr (- 1, s)
        else if \<not> m_node env then Inr (- 1, s)
        else Inr (0, s\<lparr>posted := posted s @ [(t, a, m)]\<rparr>)))"

text \<open>Every caller closes the connection when posting fails.\<close>

definition post_or_close ::
  "env \<Rightarrow> addr \<Rightarrow> (env \<Rightarrow> addr \<Rightarrow> server \<Rightarrow> (int \<times> server \<times> string option) ub) \<Rightarrow> ctask \<Rightarrow> server \<Rightarrow> (int \<times> server) ub" where
  "post_or_close env a on_post t s =
     bind_ub (post_task env a on_post t s) (\<lambda>(r, s). if r < 0 then close_err env a s else Inr (0, s))"

subsection \<open>Reading a request\<close>

text \<open>\<open>read\<close> into the buffer at \<open>pos\<close>.\<close>

definition store_at :: "tgx_string \<Rightarrow> int \<Rightarrow> string \<Rightarrow> tgx_string ub" where
  "store_at str pos t = (case ts_data str of
      None \<Rightarrow> Inl NullDeref
    | Some d \<Rightarrow>
        if 0 \<le> pos \<and> pos + int (length t) \<le> int (length d)
        then Inr (str\<lparr>ts_data := Some (take (nat pos) d @ t @ drop (nat pos + length t) d)\<rparr>)
        else Inl OutOfBounds)"

text \<open>The number of bytes asked for is a \<open>size_t\<close>.\<close>

definition room :: "conn \<Rightarrow> nat" where
  "room c = nat ((int (ts_size (httpReqBuf c)) - rw_pos c) mod 2 ^ 64)"

text \<open>How much input is left, for the termination of the loop.\<close>

definition rd_size :: "rd \<Rightarrow> nat" where
  "rd_size x = (case x of RData d \<Rightarrow> Suc (length d) | _ \<Rightarrow> 1)"

text \<open>
  The read loop. Asked for no bytes at all, \<open>read\<close> returns 0, as at the end of the stream. Of a
  longer piece it takes what fits and leaves the rest. The result is false if the loop was left
  through one of its error branches.
\<close>

function read_loop :: "env \<Rightarrow> rd list \<Rightarrow> conn \<Rightarrow> (bool \<times> conn) ub" where
  "read_loop env rs c =
     (let (r, buf) = string_check_boundry (m_buf env) (m_grow env) (httpReqBuf c) (rw_pos c);
          c = c\<lparr>httpReqBuf := buf\<rparr> in
      if r < 0 then Inr (False, c)
      else if room c = 0 then Inr (False, c)
      else (case rs of
          [] \<Rightarrow> Inr (True, c)
        | x # rest \<Rightarrow> (case x of
              RAgain \<Rightarrow> Inr (True, c)
            | RErr \<Rightarrow> Inr (False, c)
            | REof \<Rightarrow> Inr (False, c)
            | RData d \<Rightarrow>
                if d = [] then Inr (False, c)
                else bind_ub (store_at buf (rw_pos c) (take (room c) d)) (\<lambda>buf.
                  read_loop env (if length d \<le> room c then rest else RData (drop (room c) d) # rest)
                    (c\<lparr>httpReqBuf := buf, rw_pos := rw_pos c + int (length (take (room c) d))\<rparr>)))))"
  by pat_completeness auto

termination
  by (relation "measure (\<lambda>(env, rs, c). sum_list (map rd_size rs))") (auto simp: rd_size_def split: if_splits)

declare read_loop.simps [simp del]

definition CRLF :: string where "CRLF = [CHR 0x0D, CHR 0x0A]"

text \<open>
  The value of the header \<open>Content-Length\<close>: \<open>raw\<close> is the buffer from the value on. The loop for its end
  looks for a carriage return and for nothing else, and the array that receives it has 128 elements.
\<close>

definition content_length :: "char list \<Rightarrow> int ub" where
  "content_length raw =
     (let v = dropWhile (\<lambda>c. c = CHR '' '') raw in
      if CHR 0x0D \<in> set v then
        bind_ub (put_str 128 (takeWhile (\<lambda>c. c \<noteq> CHR 0x0D) v)) (\<lambda>num. Inr (atoi num))
      else Inl OutOfBounds)"

text \<open>What to do with the request that is in the buffer.\<close>

datatype verdict = KeepReading | PostParser | Refuse

definition request_verdict :: "char list \<Rightarrow> int \<Rightarrow> verdict ub" where
  "request_verdict d pos =
     bind_ub (cstr d) (\<lambda>str. case strstr str (CRLF @ CRLF) of
        None \<Rightarrow> Inr KeepReading
      | Some p \<Rightarrow>
          if strncmp_eq str ''GET'' 3 then Inr PostParser
          else if strncmp_eq str ''POST'' 4 then
            (case strstr str ''Content-Length:'' of
                None \<Rightarrow> Inr Refuse
              | Some start \<Rightarrow>
                  bind_ub (content_length (drop (length str - length start + 15) d)) (\<lambda>num.
                    let header_len = int (length str - length p) + 4 in
                    if pos > num + header_len then Inr KeepReading else Inr PostParser))
          else Inr Refuse)"

definition tgx_connection_handler_read :: "env \<Rightarrow> addr \<Rightarrow> u32 \<Rightarrow> server \<Rightarrow> (int \<times> server) ub" where
  "tgx_connection_handler_read env a ev s =
     bind_ub (get_conn s a) (\<lambda>c.
       if ev AND TGX_EVENT_IN = 0 then close_err env a s
       else bind_ub (read_loop env (reads env) c) (\<lambda>(more, c).
         if \<not> more then close_err env a (put_conn a c s)
         else bind_ub (end_string (httpReqBuf c) (rw_pos c)) (\<lambda>buf.
           let s = put_conn a (c\<lparr>httpReqBuf := buf\<rparr>) s in
           case ts_data buf of
             None \<Rightarrow> Inl NullDeref
           | Some d \<Rightarrow> bind_ub (request_verdict d (rw_pos c)) (\<lambda>v. case v of
                 KeepReading \<Rightarrow> Inr (0, s)
               | Refuse \<Rightarrow> close_err env a s
               | PostParser \<Rightarrow> post_or_close env a task_start_travelling T_http_parser s))))"

subsection \<open>Writing a response\<close>

definition tgx_connection_handler_write_header :: "env \<Rightarrow> addr \<Rightarrow> u32 \<Rightarrow> server \<Rightarrow> (int \<times> server) ub" where
  "tgx_connection_handler_write_header env a ev s =
     bind_ub (get_conn s a) (\<lambda>c.
       if ev AND TGX_EVENT_OUT = 0 then close_err env a s
       else (case ts_data (httpRespHeader c) of
           None \<Rightarrow> close_err env a s
         | Some d \<Rightarrow>
             if ts_size (httpRespHeader c) = 0 then close_err env a s
             else bind_ub (cstr d) (\<lambda>txt.
               bind_ub (write_loop txt (writes env) (rw_pos c) []) (\<lambda>(r, pos, sent).
                 let s = put_conn a (c\<lparr>rw_pos := pos\<rparr>) (s\<lparr>wire := (wire s)(c_fd c := wire s (c_fd c) @ sent)\<rparr>) in
                 case r of
                   WWait \<Rightarrow> Inr (0, s)
                 | WFail \<Rightarrow> close_err env a s
                 | WDone \<Rightarrow>
                     let s = put_conn a (c\<lparr>rw_pos := 0\<rparr>) s in
                     if strncmp_eq (http_method (c_parser c)) ''GET'' 3 then
                       bind_ub (set_handler (c_fd c) H_write_file s) (\<lambda>(_, s). Inr (0, s))
                     else if strncmp_eq (http_method (c_parser c)) ''POST'' 4 then
                       bind_ub (set_handler (c_fd c) H_write_buffer s) (\<lambda>(_, s). Inr (0, s))
                     else close_err env a s))))"

text \<open>The offset of the file is \<open>rw_pos\<close>, which nothing makes negative once the header has been sent.\<close>

definition tgx_connection_handler_get_method_write_file :: "env \<Rightarrow> addr \<Rightarrow> u32 \<Rightarrow> server \<Rightarrow> (int \<times> server) ub" where
  "tgx_connection_handler_get_method_write_file env a ev s =
     bind_ub (get_conn s a) (\<lambda>c.
       if ev AND TGX_EVENT_OUT = 0 then close_err env a s
       else (case files env (path (c_parser c)) of
           None \<Rightarrow> close_err env a s
         | Some st \<Rightarrow>
             if \<not> st_reg st then close_err env a s
             else (case contents env (path (c_parser c)) of
                 None \<Rightarrow> close_err env a s
               | Some txt \<Rightarrow>
                   let (r, pos, sent) = file_loop txt (st_size st) (writes env) (nat (rw_pos c)) [];
                       s = put_conn a (c\<lparr>rw_pos := int pos\<rparr>) (s\<lparr>wire := (wire s)(c_fd c := wire s (c_fd c) @ sent)\<rparr>) in
                   case r of
                     WWait \<Rightarrow> Inr (0, s)
                   | WFail \<Rightarrow> close_err env a s
                   | WDone \<Rightarrow> bind_ub (tgx_close_connection env a s) (\<lambda>s. Inr (0, s)))))"

definition tgx_connection_handler_post_method_write_buffer :: "env \<Rightarrow> addr \<Rightarrow> u32 \<Rightarrow> server \<Rightarrow> (int \<times> server) ub" where
  "tgx_connection_handler_post_method_write_buffer env a ev s =
     bind_ub (get_conn s a) (\<lambda>c.
       if ev AND TGX_EVENT_OUT = 0 then close_err env a s
       else (case ts_data (httpRespBody c) of
           None \<Rightarrow> Inl NullDeref
         | Some d \<Rightarrow> bind_ub (cstr d) (\<lambda>txt.
             bind_ub (write_loop txt (writes env) (rw_pos c) []) (\<lambda>(r, pos, sent).
               let s = put_conn a (c\<lparr>rw_pos := pos\<rparr>) (s\<lparr>wire := (wire s)(c_fd c := wire s (c_fd c) @ sent)\<rparr>) in
               case r of
                 WWait \<Rightarrow> Inr (0, s)
               | WFail \<Rightarrow> close_err env a s
               | WDone \<Rightarrow> bind_ub (tgx_close_connection env a s) (\<lambda>s. Inr (0, s))))))"

subsection \<open>Tasks\<close>

text \<open>
  A callback of the parser on the connection. Each gets what the parser passes and returns its status.
\<close>

definition run_pcall :: "env \<Rightarrow> pcall \<Rightarrow> conn \<Rightarrow> (int \<times> conn) ub" where
  "run_pcall env p c = (case p of
      Request cb \<Rightarrow> bind_ub (run_callback (files env) (since env) (m_path env) cb (c_parser c)) (\<lambda>(r, hp). Inr (r, c\<lparr>c_parser := hp\<rparr>))
    | OnBody at n \<Rightarrow> (case httpReqBody c of
          None \<Rightarrow> Inl NullDeref
        | Some req \<Rightarrow> bind_ub (tgx_http_parser_on_body_cb (m_body env) at n (httpRespBody c) req) (\<lambda>(r, req).
            Inr (r, c\<lparr>httpReqBody := Some req\<rparr>))))"

text \<open>\<open>http_parser_execute\<close> stops at the first callback that does not return 0; \<open>n\<close> counts the calls.\<close>

primrec run_pcalls :: "env \<Rightarrow> pcall list \<Rightarrow> nat \<Rightarrow> conn \<Rightarrow> (nat \<times> conn) ub" where
  "run_pcalls env [] n c = Inr (n, c)"
| "run_pcalls env (p # ps) n c =
     bind_ub (run_pcall env p c) (\<lambda>(r, c). if r \<noteq> 0 then Inr (n, c) else run_pcalls env ps (Suc n) c)"

definition task_http_parser_do :: "env \<Rightarrow> addr \<Rightarrow> server \<Rightarrow> (int \<times> server) ub" where
  "task_http_parser_do env a s =
     (if \<not> m_parser env then Inr (- 1, s)
      else bind_ub (get_conn s a) (\<lambda>c. case ts_data (httpReqBuf c) of
          None \<Rightarrow> Inl NullDeref
        | Some d \<Rightarrow> bind_ub (cstr d) (\<lambda>str.
            bind_ub (run_pcalls env (calls env str) 0 c) (\<lambda>(n, c).
              Inr (if parsed env str n \<noteq> length str then - 1 else 0, put_conn a c s)))))"

definition task_http_parser_on_complete :: "env \<Rightarrow> addr \<Rightarrow> int \<Rightarrow> server \<Rightarrow> (int \<times> server) ub" where
  "task_http_parser_on_complete env a err s =
     (if err < 0 then close_err env a s
      else bind_ub (get_conn s a) (\<lambda>c.
        if strncmp_eq (http_method (c_parser c)) ''GET'' 3 then
          post_or_close env a task_get_prepare_write_on_post T_get_prepare_write s
        else if strncmp_eq (http_method (c_parser c)) ''POST'' 4 then
          post_or_close env a task_post_prepare_module_on_post T_post_prepare_module s
        else close_err env a s))"

text \<open>The lines both header tasks print first, and the rest of each.\<close>

definition head_lines :: "string \<Rightarrow> string list" where
  "head_lines status = [status @ CRLF, ''Server: tinyos-graphics/0.0.1'' @ CRLF, ''Connection: Close'' @ CRLF]"

definition get_lines :: "env \<Rightarrow> string \<Rightarrow> statbuf \<Rightarrow> string list" where
  "get_lines env mime st =
     [''Date: '', now env @ CRLF, ''Last-modified: '', date_of env (st_mtime st) @ CRLF, ''Content-Type: '' @ mime @ CRLF,
      ''Content-Length: '' @ decimal (st_size st) @ CRLF, CRLF]"

definition err_path :: "server \<Rightarrow> conn \<Rightarrow> conn ub" where
  "err_path s c =
     (if http_status (c_parser c) \<noteq> TGX_HTTP_STATUS_200 \<and> http_status (c_parser c) = TGX_HTTP_STATUS_404
      then bind_ub (put_str TGX_MAX_PATH_LENGTH (e_404 s)) (\<lambda>p. Inr (c\<lparr>c_parser := (c_parser c)\<lparr>path := p\<rparr>\<rparr>))
      else Inr c)"

definition set_header :: "addr \<Rightarrow> conn \<Rightarrow> tgx_string \<Rightarrow> server \<Rightarrow> server" where
  "set_header a c str s = put_conn a (c\<lparr>httpRespHeader := str\<rparr>) s"

definition task_get_prepare_write_do :: "env \<Rightarrow> addr \<Rightarrow> server \<Rightarrow> (int \<times> server) ub" where
  "task_get_prepare_write_do env a s =
     bind_ub (get_conn s a) (\<lambda>c.
     bind_ub (clear_start (httpRespHeader c)) (\<lambda>str.
     bind_ub (peek tgx_http_status_string (int (http_status (c_parser c)))) (\<lambda>status.
     bind_ub (copy_all (m_buf env) (m_grow env) (head_lines status) (str, 0)) (\<lambda>(ok, str, pos).
       if \<not> ok then close_err env a (set_header a c str s)
       else bind_ub (err_path s c) (\<lambda>c. case files env (path (c_parser c)) of
           None \<Rightarrow> Inr (- 1, set_header a c str s)
         | Some st \<Rightarrow>
             bind_ub (peek tgx_mime_type_string (int (mime_type (c_parser c)))) (\<lambda>mime.
             bind_ub (copy_all (m_buf env) (m_grow env) (get_lines env mime st) (str, pos)) (\<lambda>(ok, str, pos).
               if \<not> ok then close_err env a (set_header a c str s)
               else bind_ub (end_string str (int pos)) (\<lambda>str. Inr (0, set_header a c str s)))))))))"

text \<open>
  The module gets the body of the request and may change both strings. Without a module the result
  is an uninitialised variable.
\<close>

definition task_post_prepare_module_do :: "env \<Rightarrow> addr \<Rightarrow> string option \<Rightarrow> server \<Rightarrow> (int \<times> server) ub" where
  "task_post_prepare_module_do env a m s =
     (if \<not> m_http env then Inr (- 1, s)
      else bind_ub (get_conn s a) (\<lambda>c. case m of
          None \<Rightarrow> Inl Uninitialised
        | Some name \<Rightarrow>
            let (r, req, resp) = run_module env name (httpReqBody c) (httpRespBody c) in
            Inr (r, put_conn a (c\<lparr>httpReqBody := req, httpRespBody := resp\<rparr>) s)))"

definition task_post_prepare_module_on_complete :: "env \<Rightarrow> addr \<Rightarrow> int \<Rightarrow> server \<Rightarrow> (int \<times> server) ub" where
  "task_post_prepare_module_on_complete env a err s =
     (if err < 0 then close_err env a s
      else post_or_close env a task_post_prepare_write_on_post T_post_prepare_write s)"

definition task_post_prepare_write_do :: "env \<Rightarrow> addr \<Rightarrow> server \<Rightarrow> (int \<times> server) ub" where
  "task_post_prepare_write_do env a s =
     bind_ub (get_conn s a) (\<lambda>c.
     bind_ub (clear_start (httpRespHeader c)) (\<lambda>str.
     bind_ub (peek tgx_http_status_string (int (http_status (c_parser c)))) (\<lambda>status.
     bind_ub (copy_all (m_buf env) (m_grow env) (head_lines status) (str, 0)) (\<lambda>(ok, str, pos).
       if \<not> ok then close_err env a (set_header a c str s)
       else if http_status (c_parser c) \<noteq> TGX_HTTP_STATUS_200 then Inr (- 1, set_header a c str s)
       else bind_ub (copy_all (m_buf env) (m_grow env) [''Content-Type: application/json'' @ CRLF] (str, pos)) (\<lambda>(ok, str, pos).
         if \<not> ok then close_err env a (set_header a c str s)
         else (case ts_data (httpRespBody c) of
             None \<Rightarrow> Inr (- 1, set_header a c str s)
           | Some d \<Rightarrow>
               if ts_size (httpRespBody c) = 0 then Inr (- 1, set_header a c str s)
               else bind_ub (cstr d) (\<lambda>body.
                 bind_ub (copy_all (m_buf env) (m_grow env) [''Content-Length: '' @ decimal (length body) @ CRLF, CRLF] (str, pos))
                   (\<lambda>(ok, str, pos).
                     if \<not> ok then close_err env a (set_header a c str s)
                     else bind_ub (end_string str (int pos)) (\<lambda>str. Inr (0, set_header a c str s))))))))))"

definition task_end_travelling :: "env \<Rightarrow> addr \<Rightarrow> int \<Rightarrow> server \<Rightarrow> (int \<times> server) ub" where
  "task_end_travelling env a err s =
     (if err < 0 then close_err env a s
      else bind_ub (get_conn s a) (\<lambda>c.
        let s = put_conn a (c\<lparr>rw_pos := 0\<rparr>) s in
        bind_ub (set_handler (c_fd c) H_write_header s) (\<lambda>(ret1, s).
          let (ret2, s) = ctl env TGX_EVENT_CTL_ADD (c_fd c) TGX_EVENT_OUT s in
          if ret1 < 0 \<or> ret2 < 0 then close_err env a s else Inr (0, s))))"

subsection \<open>The server\<close>

text \<open>A worker's run of a task: the handler, then the completion callback with its result.\<close>

definition run_ctask :: "env \<Rightarrow> posting \<Rightarrow> server \<Rightarrow> (int \<times> server) ub" where
  "run_ctask env p s = (case p of (t, a, m) \<Rightarrow> (case t of
      T_http_parser \<Rightarrow> bind_ub (task_http_parser_do env a s) (\<lambda>(r, s). task_http_parser_on_complete env a r s)
    | T_get_prepare_write \<Rightarrow> bind_ub (task_get_prepare_write_do env a s) (\<lambda>(r, s). task_end_travelling env a r s)
    | T_post_prepare_module \<Rightarrow>
        bind_ub (task_post_prepare_module_do env a m s) (\<lambda>(r, s). task_post_prepare_module_on_complete env a r s)
    | T_post_prepare_write \<Rightarrow> bind_ub (task_post_prepare_write_do env a s) (\<lambda>(r, s). task_end_travelling env a r s)))"

text \<open>A handler gets the context of its table entry; all but the accept handler return \<open>-1\<close> without one.\<close>

definition call_handler ::
  "env \<Rightarrow> (int \<Rightarrow> bool) \<Rightarrow> int list \<Rightarrow> handler \<Rightarrow> addr option \<Rightarrow> u32 \<Rightarrow> server \<Rightarrow> (int \<times> server) ub" where
  "call_handler env nonblock infds h ctx ev s = (case h of
      H_accept \<Rightarrow> tgx_acception_handler env nonblock infds s
    | H_noop \<Rightarrow> Inr (0, s)
    | H_read \<Rightarrow> (case ctx of None \<Rightarrow> Inr (- 1, s) | Some a \<Rightarrow> tgx_connection_handler_read env a ev s)
    | H_write_header \<Rightarrow> (case ctx of None \<Rightarrow> Inr (- 1, s) | Some a \<Rightarrow> tgx_connection_handler_write_header env a ev s)
    | H_write_file \<Rightarrow> (case ctx of None \<Rightarrow> Inr (- 1, s) | Some a \<Rightarrow> tgx_connection_handler_get_method_write_file env a ev s)
    | H_write_buffer \<Rightarrow> (case ctx of None \<Rightarrow> Inr (- 1, s) | Some a \<Rightarrow> tgx_connection_handler_post_method_write_buffer env a ev s))"

text \<open>The dispatch of one event: the entry of the descriptor decides.\<close>

definition serve_event :: "env \<Rightarrow> (int \<Rightarrow> bool) \<Rightarrow> int list \<Rightarrow> int \<Rightarrow> u32 \<Rightarrow> server \<Rightarrow> (int \<times> server) ub" where
  "serve_event env nonblock infds fd ev s =
     bind_ub (tgx_event_get_handler (tevent s) fd) (\<lambda>h.
     bind_ub (tgx_event_get_context (tevent s) fd) (\<lambda>ctx. case h of
        None \<Rightarrow> Inr (0, s)
      | Some h \<Rightarrow> call_handler env nonblock infds h ctx ev s))"

end
