(* ===== verification/ConnLife.thy ===== *)
theory ConnLife
  imports Connection
begin

section \<open>The life of a connection\<close>

text \<open>
  A connection wanders between the event loop and the worker threads. The invariant of this theory
  says where it can be: watched by epoll with the handler that serves the event it waits for, or
  posted exactly once, off the watch list and with the handler that does nothing. From it follows that no
  handler and no task reads a connection that has been freed.

  Handlers and tasks are the steps: whatever order the event loop and the workers run them in, one
  runs at a time. Finer interleavings of the event loop with a worker are not covered.
\<close>

subsection \<open>Computations that do not touch freed memory\<close>

definition safe :: "'a ub \<Rightarrow> ('a \<Rightarrow> bool) \<Rightarrow> bool" where
  "safe m P \<longleftrightarrow> (case m of Inl e \<Rightarrow> e \<noteq> UseAfterFree | Inr x \<Rightarrow> P x)"

named_theorems safe_intros \<open>operations that read no freed memory\<close>

lemma safe_simps [simp]: "safe (Inr x) P = P x" "safe (Inl e) P \<longleftrightarrow> e \<noteq> UseAfterFree"
  by (simp_all add: safe_def)

lemma safe_bind: "safe m (\<lambda>x. safe (f x) P) \<Longrightarrow> safe (bind_ub m f) P"
  by (cases m) simp_all

lemma safe_mono: "safe m P \<Longrightarrow> (\<And>x. m = Inr x \<Longrightarrow> P x \<Longrightarrow> Q x) \<Longrightarrow> safe m Q"
  by (cases m) simp_all

lemma safe_then: "safe m P \<Longrightarrow> (\<And>x. m = Inr x \<Longrightarrow> P x \<Longrightarrow> safe (f x) Q) \<Longrightarrow> safe (bind_ub m f) Q"
  by (cases m) simp_all

lemma safe_not_uaf: "safe m P \<Longrightarrow> m \<noteq> Inl UseAfterFree"
  by auto

abbreviation harmless :: "'a ub \<Rightarrow> bool" where
  "harmless m \<equiv> safe m (\<lambda>_. True)"

lemma harmless_bind [safe_intros]: "harmless m \<Longrightarrow> (\<And>x. m = Inr x \<Longrightarrow> harmless (f x)) \<Longrightarrow> harmless (bind_ub m f)"
  by (rule safe_then)

lemma harmless_basic [safe_intros]:
  "harmless (Inr x)" "harmless (peek xs i)" "harmless (poke ys i y)" "harmless (put_str cap t)" "harmless (cstr d)"
  "harmless (strncpy d t n)" "harmless (memset0 d n)" "harmless (sprintf_at str pos t)" "harmless (store_at str j t)"
  by (simp_all add: safe_def peek_def poke_def put_str_def cstr_def strncpy_def memset0_def sprintf_at_def store_at_def
      split: option.splits)

lemma harmless_if [safe_intros]: "(b \<Longrightarrow> harmless x) \<Longrightarrow> (\<not> b \<Longrightarrow> harmless y) \<Longrightarrow> harmless (if b then x else y)"
  by simp

lemma harmless_option [safe_intros]:
  "harmless n \<Longrightarrow> (\<And>x. harmless (f x)) \<Longrightarrow> harmless (case v of None \<Rightarrow> n | Some x \<Rightarrow> f x)"
  by (cases v) simp_all

lemma harmless_prod [safe_intros]: "(\<And>x y. harmless (f x y)) \<Longrightarrow> harmless (case p of (x, y) \<Rightarrow> f x y)"
  by (cases p) simp

lemma harmless_fault [safe_intros]: "e \<noteq> UseAfterFree \<Longrightarrow> harmless (Inl e)"
  by simp

lemma harmless_strings [safe_intros]:
  "harmless (end_string str i)" "harmless (clear_start str)" "harmless (strncat cap dst src n)"
  "harmless (content_length raw)" "harmless (request_verdict d pos)" "harmless (last_entry hp)" "harmless (find_index fs p)"
  unfolding end_string_def clear_start_def strncat_def content_length_def request_verdict_def last_entry_def find_index_def Let_def
  by (intro safe_intros; simp)+

lemma harmless_check_headers [safe_intros]: "harmless (check_headers sn t hs hp)"
  by (induction hs arbitrary: hp) (auto intro!: safe_intros)

lemma harmless_callback [safe_intros]: "harmless (run_callback fs sn mem cb hp)"
  by (cases cb; simp add: tgx_http_parser_on_url_cb_def tgx_http_parser_on_header_field_cb_def
      tgx_http_parser_on_header_value_cb_def tgx_http_parser_on_header_complete_cb_def Let_def)
    (intro conjI impI safe_intros; simp)+

lemma harmless_copy_all [safe_intros]: "harmless (copy_all ok ro ts s)"
  by (induction ts arbitrary: s) (auto intro!: safe_intros simp: Let_def split: prod.split)

lemma harmless_write_loop [safe_intros]: "harmless (write_loop txt ws pos sent)"
  by (induction ws arbitrary: pos sent) (auto simp: Let_def split: wr.split)

lemma harmless_on_body [safe_intros]: "harmless (tgx_http_parser_on_body_cb mem at n resp req)"
  unfolding tgx_http_parser_on_body_cb_def by (intro safe_intros; simp)

lemma harmless_find_index [safe_intros]: "harmless (tgx_find_schedule_index e fd)"
  unfolding tgx_find_schedule_index_def by (intro safe_intros)

lemma harmless_events [safe_intros]:
  "harmless (tgx_event_schedule_register ok te fd h c)" "harmless (tgx_event_schedule_unregister te fd)"
  "harmless (tgx_event_set_handler te fd h c)" "harmless (tgx_event_get_handler te fd)" "harmless (tgx_event_get_context te fd)"
  unfolding tgx_event_schedule_register_def tgx_event_schedule_unregister_def tgx_event_set_handler_def
    tgx_event_get_handler_def tgx_event_get_context_def Let_def
  by (intro safe_intros; simp)+

lemma harmless_pcalls [safe_intros]: "harmless (run_pcalls env ps n c)"
proof (induction ps arbitrary: n c)
  case (Cons p ps)
  have "harmless (run_pcall env p c)"
    unfolding run_pcall_def by (cases p) (auto intro!: safe_intros split: option.split)
  with Cons show ?case by (auto intro!: safe_intros)
qed simp

lemma harmless_read_loop [safe_intros]: "harmless (read_loop env rs c)"
proof (induction "sum_list (map rd_size rs)" arbitrary: rs c rule: less_induct)
  case less
  show ?case
    by (subst read_loop.simps)
      (auto simp: Let_def rd_size_def split: prod.split list.split rd.split intro!: safe_intros less)
qed

subsection \<open>The invariant\<close>

definition tbl :: "server \<Rightarrow> int \<Rightarrow> (handler option \<times> addr option) option" where
  "tbl s = lookup (tevent s)"

definition posted_addrs :: "server \<Rightarrow> addr list" where
  "posted_addrs s = map (\<lambda>(t, a, m). a) (posted s)"

definition wf_tevent :: "(handler, addr) event option \<Rightarrow> bool" where
  "wf_tevent te \<longleftrightarrow> (\<exists>e. te = Some e \<and> wf_event e \<and> engine e \<and> 0 \<le> epoll_fd e)"

text \<open>
  What holds at every moment: the table is well formed, live connections have different descriptors, and a table
  entry with a context names a live connection with that descriptor.
\<close>

definition base :: "server \<Rightarrow> bool" where
  "base s \<longleftrightarrow> wf_tevent (tevent s) \<and>
     (\<forall>a c. conns s a = Some c \<longrightarrow> 0 < c_fd c \<and> c_fd c \<noteq> listen_fd s \<and> a < brk_conn s \<and> wf_buffer (httpRespHeader c)) \<and>
     (\<forall>a b c d. conns s a = Some c \<longrightarrow> conns s b = Some d \<longrightarrow> c_fd c = c_fd d \<longrightarrow> a = b) \<and>
     (\<forall>fd h a. tbl s fd = Some (h, Some a) \<longrightarrow> (\<exists>c. conns s a = Some c \<and> c_fd c = fd)) \<and>
     (\<forall>fd h. tbl s fd = Some (h, None) \<longrightarrow> fd = listen_fd s \<and> h = Some H_accept) \<and>
     (\<forall>a \<in> set (posted_addrs s). \<exists>c h. conns s a = Some c \<and> tbl s (c_fd c) = Some (h, Some a)) \<and>
     distinct (posted_addrs s)"

text \<open>Where a connection is: in epoll's hands or in the workers'.\<close>

definition served :: "server \<Rightarrow> conn \<Rightarrow> handler \<Rightarrow> addr \<Rightarrow> bool" where
  "served s c h a = (case h of
      H_accept \<Rightarrow> False
    | H_read \<Rightarrow> \<not> travelling c \<and> epoll s (c_fd c) = Some EPOLLIN \<and> a \<notin> set (posted_addrs s)
    | H_noop \<Rightarrow> epoll s (c_fd c) = None \<and> a \<in> set (posted_addrs s)
    | _ \<Rightarrow> epoll s (c_fd c) = Some EPOLLOUT \<and> a \<notin> set (posted_addrs s))"

definition settled :: "server \<Rightarrow> addr \<Rightarrow> bool" where
  "settled s a \<longleftrightarrow> (\<forall>c h. conns s a = Some c \<longrightarrow> tbl s (c_fd c) = Some (h, Some a) \<longrightarrow> (\<exists>h'. h = Some h' \<and> served s c h' a))"

definition life :: "server \<Rightarrow> bool" where
  "life s \<longleftrightarrow> base s \<and> (\<forall>a. settled s a)"

text \<open>While a handler or a task is at work on a connection, the invariant holds of the others.\<close>

definition life_but :: "addr \<Rightarrow> conn \<Rightarrow> server \<Rightarrow> bool" where
  "life_but a c s \<longleftrightarrow> base s \<and> (\<forall>b. b \<noteq> a \<longrightarrow> settled s b) \<and> a \<notin> set (posted_addrs s) \<and> conns s a = Some c"

lemma baseD:
  assumes "base s"
  shows "wf_tevent (tevent s)"
    and "\<And>a c. conns s a = Some c \<Longrightarrow> 0 < c_fd c \<and> c_fd c \<noteq> listen_fd s \<and> a < brk_conn s \<and> wf_buffer (httpRespHeader c)"
    and "\<And>a b c d. conns s a = Some c \<Longrightarrow> conns s b = Some d \<Longrightarrow> c_fd c = c_fd d \<Longrightarrow> a = b"
    and "\<And>fd h a. tbl s fd = Some (h, Some a) \<Longrightarrow> \<exists>c. conns s a = Some c \<and> c_fd c = fd"
    and "\<And>fd h. tbl s fd = Some (h, None) \<Longrightarrow> fd = listen_fd s \<and> h = Some H_accept"
    and "\<And>a. a \<in> set (posted_addrs s) \<Longrightarrow> \<exists>c h. conns s a = Some c \<and> tbl s (c_fd c) = Some (h, Some a)"
    and "distinct (posted_addrs s)"
  using assms unfolding base_def by blast+

lemma get_conn_but [simp]: "life_but a c s \<Longrightarrow> get_conn s a = Inr c"
  by (simp add: life_but_def get_conn_def)

text \<open>The entry of a connection that is being worked on.\<close>

lemma entry_of:
  assumes "base s" and "conns s a = Some c" and "tbl s (c_fd c) = Some (h, x)"
  shows "x = Some a"
proof (cases x)
  case None
  with assms baseD(5) [OF assms(1)] baseD(2) [OF assms(1,2)] show ?thesis by blast
next
  case (Some b)
  with assms obtain d where "conns s b = Some d" "c_fd d = c_fd c" using baseD(4) [OF assms(1)] by blast
  with assms baseD(3) [OF assms(1)] Some show ?thesis by blast
qed

text \<open>
  Changes to the connection at hand, to the entry and the watch of its descriptor, and to nothing
  else, keep the invariant of the others.
\<close>

lemma others_conns:
  assumes "base s" "conns s a = Some c" "conns s' = (conns s)(a := x')" "conns s' x = Some d"
  shows "(x = a \<and> x' = Some d) \<or> (x \<noteq> a \<and> conns s x = Some d \<and> c_fd d \<noteq> c_fd c)"
proof (cases "x = a")
  case False
  then have d: "conns s x = Some d" using assms(4) unfolding assms(3) by simp
  with baseD(3) [OF assms(1) d assms(2)] False show ?thesis by blast
qed (use assms(3,4) in simp)

lemma others_change:
  assumes "life_but a c s" and "wf_tevent (tevent s')" and "conns s' = (conns s)(a := x')"
    and "\<forall>c'. x' = Some c' \<longrightarrow> c_fd c' = c_fd c \<and> wf_buffer (httpRespHeader c')"
    and "x' = None \<longrightarrow> tbl s' (c_fd c) = None" and "posted s' = posted s" and "listen_fd s' = listen_fd s" and "brk_conn s' = brk_conn s"
    and "\<forall>fd. fd \<noteq> c_fd c \<longrightarrow> tbl s' fd = tbl s fd \<and> epoll s' fd = epoll s fd"
    and "\<forall>h x. tbl s' (c_fd c) = Some (h, x) \<longrightarrow> x = Some a"
  shows "base s' \<and> (\<forall>b. b \<noteq> a \<longrightarrow> settled s' b)"
proof -
  have b: "base s" and o: "\<And>b. b \<noteq> a \<Longrightarrow> settled s b" and n: "a \<notin> set (posted_addrs s)" and c: "conns s a = Some c"
    using assms(1) by (auto simp: life_but_def)
  note B = baseD [OF b]
  have pa: "posted_addrs s' = posted_addrs s" using assms(6) by (simp add: posted_addrs_def)
  note live = others_conns [OF b c assms(3)]
  have other: "conns s' x = Some d \<Longrightarrow> x \<noteq> a \<Longrightarrow> conns s x = Some d \<and> c_fd d \<noteq> c_fd c" for x d using live [of x d] by blast
  have e: "tbl s' fd = Some (h, x) \<Longrightarrow> (fd = c_fd c \<and> x = Some a \<and> x' \<noteq> None) \<or> (fd \<noteq> c_fd c \<and> tbl s fd = Some (h, x))" for fd h x
  proof (cases "fd = c_fd c")
    case True
    assume "tbl s' fd = Some (h, x)"
    with True assms(5,10) show ?thesis by simp
  next
    case False
    assume "tbl s' fd = Some (h, x)"
    with False assms(9) show ?thesis by simp
  qed
  have "base s'"
    unfolding base_def pa assms(7,8)
  proof (intro conjI allI impI ballI)
    fix x d assume "conns s' x = Some d"
    from live [OF this] show "0 < c_fd d" "c_fd d \<noteq> listen_fd s" "x < brk_conn s" "wf_buffer (httpRespHeader d)"
      using B(2) [OF c] B(2) [of x d] assms(4) [rule_format, of d] by (elim disjE; simp)+
  next
    fix x y d f assume "conns s' x = Some d" "conns s' y = Some f" "c_fd d = c_fd f"
    with live [of x d] live [of y f] B(3) [of x d y f] assms(4) [rule_format, of d] assms(4) [rule_format, of f]
    show "x = y" by fastforce
  next
    fix fd h x assume t: "tbl s' fd = Some (h, Some x)"
    show "\<exists>d. conns s' x = Some d \<and> c_fd d = fd"
    proof (cases "fd = c_fd c")
      case True
      with e [OF t] have "x = a" "x' \<noteq> None" by simp_all
      moreover then obtain c' where c': "x' = Some c'" by blast
      moreover have "c_fd c' = fd" using assms(4) [rule_format, OF c'] True by simp
      ultimately show ?thesis using assms(3) by simp
    next
      case False
      with e [OF t] obtain d where d: "conns s x = Some d" "c_fd d = fd" using B(4) by blast
      with False c have "x \<noteq> a" by auto
      with d assms(3) show ?thesis by auto
    qed
  next
    fix fd h assume t: "tbl s' fd = Some (h, None)"
    from e [OF t] B(5) show "fd = listen_fd s" "h = Some H_accept" by auto
  next
    fix x assume x: "x \<in> set (posted_addrs s)"
    with n have "x \<noteq> a" by auto
    moreover obtain d h where "conns s x = Some d" "tbl s (c_fd d) = Some (h, Some x)" using B(6) [OF x] by blast
    ultimately have "conns s' x = Some d" using assms(3) by simp
    moreover have "tbl s' (c_fd d) = Some (h, Some x)"
      using other [OF \<open>conns s' x = Some d\<close> \<open>x \<noteq> a\<close>] \<open>tbl s (c_fd d) = Some (h, Some x)\<close> assms(9) by auto
    ultimately show "\<exists>d h. conns s' x = Some d \<and> tbl s' (c_fd d) = Some (h, Some x)" by blast
  qed (use B(7) assms(2) in auto)
  moreover have "settled s' b" if "b \<noteq> a" for b
    using o [OF that] other [OF _ that] assms(9) pa unfolding settled_def served_def by (metis (no_types, lifting))
  ultimately show ?thesis by blast
qed

lemma life_but_change:
  assumes "life_but a c s" and "wf_tevent (tevent s')" and "conns s' = (conns s)(a \<mapsto> c')" and "c_fd c' = c_fd c"
    and "wf_buffer (httpRespHeader c')" and "posted s' = posted s" and "listen_fd s' = listen_fd s" and "brk_conn s' = brk_conn s"
    and "\<forall>fd. fd \<noteq> c_fd c \<longrightarrow> tbl s' fd = tbl s fd \<and> epoll s' fd = epoll s fd"
    and "\<forall>h x. tbl s' (c_fd c) = Some (h, x) \<longrightarrow> x = Some a"
  shows "life_but a c' s'"
proof -
  have "a \<notin> set (posted_addrs s')" using assms(1,6) by (simp add: life_but_def posted_addrs_def)
  with others_change [of a c s s' "Some c'"] assms show ?thesis by (simp add: life_but_def)
qed

lemma life_freed:
  assumes "life_but a c s" and "wf_tevent (tevent s')" and "conns s' = (conns s)(a := None)"
    and "posted s' = posted s" and "listen_fd s' = listen_fd s" and "brk_conn s' = brk_conn s"
    and "\<forall>fd. fd \<noteq> c_fd c \<longrightarrow> tbl s' fd = tbl s fd \<and> epoll s' fd = epoll s fd" and "tbl s' (c_fd c) = None"
  shows "life s'"
proof -
  have "settled s' a" using assms(3) by (simp add: settled_def)
  with others_change [of a c s s' None] assms show ?thesis unfolding life_def by fastforce
qed

subsection \<open>The event table and epoll\<close>

lemma event_frames:
  "tgx_event_schedule_unregister (Some e) fd = Inr (r, te) \<Longrightarrow> \<exists>e'. te = Some e' \<and> engine e' = engine e \<and> epoll_fd e' = epoll_fd e"
  "tgx_event_set_handler (Some e) fd h c = Inr (r, te) \<Longrightarrow> \<exists>e'. te = Some e' \<and> engine e' = engine e \<and> epoll_fd e' = epoll_fd e"
  "tgx_event_schedule_register ok (Some e) fd h c = Inr (r, te) \<Longrightarrow> \<exists>e'. te = Some e' \<and> engine e' = engine e \<and> epoll_fd e' = epoll_fd e"
  by (auto simp: tgx_event_schedule_unregister_def tgx_event_set_handler_def tgx_event_schedule_register_def Let_def bind_ub_eq_Inr
      split: if_splits option.splits)

lemma out_of_range:
  assumes "wf_event e" and "\<not> nat fd < length (sched_array e)" and "0 \<le> fd"
  shows "tgx_find_schedule_index e fd = Inl OutOfBounds" and "lookup (Some e) fd = None"
  using assms slot_range [of e fd] by (auto simp: tgx_find_schedule_index_def peek_def) (metis not_None_eq option.simps(8))

lemma unregister_tbl:
  assumes "wf_tevent te" and "0 \<le> fd" and "tgx_event_schedule_unregister te fd = Inr (r, te')"
  shows "wf_tevent te' \<and> lookup te' = (lookup te)(fd := None)"
proof -
  obtain e where e: "te = Some e" "wf_event e" "engine e" "0 \<le> epoll_fd e" using assms(1) by (auto simp: wf_tevent_def)
  show ?thesis
  proof (cases "nat fd < length (sched_array e)")
    case True
    from unregister_result [OF e(2) assms(2) True] obtain r1 e1 where
      "tgx_event_schedule_unregister (Some e) fd = Inr (r1, Some e1)" "wf_event e1" "lookup (Some e1) = (lookup (Some e))(fd := None)"
      by blast
    with assms(3) e event_frames(1) [of e fd r te'] show ?thesis by (auto simp: wf_tevent_def)
  next
    case False
    with out_of_range [OF e(2) False assms(2)] assms e show ?thesis
      by (auto simp: tgx_event_schedule_unregister_def fun_upd_idem split: if_splits)
  qed
qed

lemma set_handler_tbl:
  assumes "wf_tevent te" and "0 \<le> fd" and "tgx_event_set_handler te fd (Some h) None = Inr (r, te')"
  shows "wf_tevent te' \<and> lookup te' = (case lookup te fd of Some (Some _, ctx) \<Rightarrow> (lookup te)(fd \<mapsto> (Some h, ctx)) | _ \<Rightarrow> lookup te) \<and>
    (0 \<le> r \<longrightarrow> (\<exists>h0 ctx. lookup te fd = Some (Some h0, ctx)))"
proof -
  obtain e where e: "te = Some e" "wf_event e" "engine e" "0 \<le> epoll_fd e" using assms(1) by (auto simp: wf_tevent_def)
  show ?thesis
  proof (cases "nat fd < length (sched_array e)")
    case True
    from set_handler_result [OF e(2) assms(2) True, of "Some h" None] obtain r1 e1 where
      r1: "tgx_event_set_handler (Some e) fd (Some h) None = Inr (r1, Some e1)" "wf_event e1"
        "lookup (Some e1) = (case lookup (Some e) fd of Some (Some _, ctx) \<Rightarrow> (lookup (Some e))(fd \<mapsto> (Some h, ctx)) | _ \<Rightarrow> lookup (Some e))"
        "r1 = (case lookup (Some e) fd of Some (Some _, _) \<Rightarrow> if (None :: addr option) = None then 0 else - 1 | _ \<Rightarrow> - 1)"
      by blast
    with assms(3) e have "te' = Some e1" "r = r1" by auto
    with r1 e event_frames(2) [OF r1(1)] show ?thesis by (auto simp: wf_tevent_def split: option.splits)
  next
    case False
    with out_of_range [OF e(2) False assms(2)] assms e show ?thesis by (auto simp: tgx_event_set_handler_def)
  qed
qed

lemma register_tbl:
  assumes "wf_tevent te" and "0 \<le> fd" and "lookup te fd = None" and "tgx_event_schedule_register ok te fd (Some h) (Some a) = Inr (r, te')"
  shows "wf_tevent te' \<and> lookup te' = (if r < 0 then lookup te else (lookup te)(fd \<mapsto> (Some h, Some a)))"
proof -
  obtain e where e: "te = Some e" "wf_event e" "engine e" "0 \<le> epoll_fd e" using assms(1) by (auto simp: wf_tevent_def)
  show ?thesis
  proof (cases "nat fd < length (sched_array e)")
    case True
    have "slot e fd = None" using assms(3) e(1) by simp
    from register_result [OF e(2) assms(2) True this, of ok "Some h" "Some a"] obtain r1 e1 where
      "tgx_event_schedule_register ok (Some e) fd (Some h) (Some a) = Inr (r1, Some e1)" "wf_event e1"
      "lookup (Some e1) = (if r1 = 0 then (lookup (Some e))(fd \<mapsto> (Some h, Some a)) else lookup (Some e))" "r1 = 0 \<or> r1 = - 1"
      by blast
    with assms(4) e event_frames(3) [of ok e fd "Some h" "Some a" r te'] show ?thesis by (auto simp: wf_tevent_def)
  next
    case False
    with assms(2,4) e show ?thesis
      by (auto simp: tgx_event_schedule_register_def Let_def bind_ub_eq_Inr peek_def wf_tevent_def lookup_def split: if_splits)
  qed
qed

lemma ctl_simps:
  assumes "wf_tevent (tevent s)" and "0 \<le> fd"
  shows "ctl env TGX_EVENT_CTL_DEL fd ev s = (if epoll s fd \<noteq> None then 0 else - 1, s\<lparr>epoll := (epoll s)(fd := None)\<rparr>)"
    and "ctl env TGX_EVENT_CTL_ADD fd ev s =
      (if k_ok env \<and> epoll s fd = None then (0, s\<lparr>epoll := (epoll s)(fd \<mapsto> epoll_mask ev)\<rparr>) else (- 1, s))"
  using assms by (auto simp: wf_tevent_def ctl_def tgx_event_ctl_def tgx_linux_epoll_ctl_def local_op_def kernel_ctl_def
      TGX_EVENT_CTL_DEL_def TGX_EVENT_CTL_ADD_def TGX_EVENT_CTL_MOD_def Let_def fun_upd_idem)

lemma masks [simp]: "epoll_mask TGX_EVENT_IN = EPOLLIN" "epoll_mask TGX_EVENT_OUT = EPOLLOUT"
  by code_simp+

subsection \<open>Work on one connection\<close>

lemma life_but_parts:
  assumes "life_but a c s"
  shows "base s" and "wf_tevent (tevent s)" and "0 < c_fd c" and "conns s a = Some c" and "wf_buffer (httpRespHeader c)"
    and "a \<notin> set (posted_addrs s)"
  using assms baseD(1,2) [of s] by (auto simp: life_but_def)

lemma entry_but: "life_but a c s \<Longrightarrow> tbl s (c_fd c) = Some (h, x) \<Longrightarrow> x = Some a"
  using entry_of life_but_parts(1,4) by blast

lemma life_but_put:
  "life_but a c s \<Longrightarrow> c_fd c' = c_fd c \<Longrightarrow> wf_buffer (httpRespHeader c') \<Longrightarrow> life_but a c' (put_conn a c' s)"
  by (rule life_but_change) (auto simp: put_conn_def tbl_def life_but_parts dest: entry_but [unfolded tbl_def])

lemma life_but_epoll: "life_but a c s \<Longrightarrow> life_but a c (s\<lparr>epoll := (epoll s)(c_fd c := x)\<rparr>)"
  by (rule life_but_change [of a c s]) (auto simp: tbl_def life_but_parts dest: entry_but [unfolded tbl_def])

lemma life_but_wire [simp]: "life_but a c (s\<lparr>wire := w\<rparr>) = life_but a c s"
proof -
  have "served (s\<lparr>wire := w\<rparr>) d h b = served s d h b" for d h b by (cases h) (simp_all add: served_def posted_addrs_def)
  then show ?thesis by (simp add: life_but_def base_def settled_def tbl_def posted_addrs_def)
qed

lemma life_settled: "life_but a c s \<Longrightarrow> settled s a \<Longrightarrow> life s"
  unfolding life_def life_but_def by metis

lemma life_done:
  assumes "life_but a c s" and "tbl s (c_fd c) = Some (Some h, Some a)" and "served s c h a"
  shows "life s"
proof -
  have "settled s a" using assms life_but_parts(4) [OF assms(1)] by (auto simp: settled_def)
  with assms(1) show ?thesis by (rule life_settled)
qed

lemma close_safe [safe_intros]:
  assumes "life_but a c s"
  shows "safe (tgx_close_connection env a s) life"
proof -
  note P = life_but_parts [OF assms]
  have "safe (tgx_event_schedule_unregister (tevent s) (c_fd c))
    (\<lambda>(r, te). wf_tevent te \<and> lookup te = (lookup (tevent s))(c_fd c := None))"
    using unregister_tbl [OF P(2) less_imp_le [OF P(3)]] by (intro safe_mono [OF harmless_events(2)]) auto
  then show ?thesis
    unfolding tgx_close_connection_def get_conn_but [OF assms] bind_ub_simps
  proof (rule safe_then)
    fix x assume x: "case x of (r, te) \<Rightarrow> wf_tevent te \<and> lookup te = (lookup (tevent s))(c_fd c := None)"
    obtain r te where rt: "x = (r, te)" by fastforce
    let ?s = "s\<lparr>tevent := te\<rparr>"
    let ?s1 = "if \<not> travelling c then snd (ctl env TGX_EVENT_CTL_DEL (c_fd c) 0 ?s) else ?s"
    let ?s2 = "s\<lparr>tevent := te, epoll := (epoll s)(c_fd c := None), conns := (conns s)(a := None)\<rparr>"
    have "tgx_free_connection a ?s1 = Inr ?s2"
      using x P(3,4) by (auto simp: rt ctl_simps tgx_free_connection_def get_conn_def)
    moreover have "life ?s2"
      by (rule life_freed [OF assms]) (use x in \<open>auto simp: rt tbl_def\<close>)
    ultimately show "safe (case x of (_, te) \<Rightarrow> let s = s\<lparr>tevent := te\<rparr>;
        s = if \<not> travelling c then snd (ctl env TGX_EVENT_CTL_DEL (c_fd c) 0 s) else s in tgx_free_connection a s) life"
      by (simp add: rt Let_def)
  qed
qed

lemma close_err_safe [safe_intros]: "life_but a c s \<Longrightarrow> safe (close_err env a s) (\<lambda>(r, s'). life s')"
  unfolding close_err_def by (rule safe_then [OF close_safe]) simp_all

lemma set_handler_safe:
  assumes "life_but a c s"
  shows "safe (set_handler (c_fd c) h s) (\<lambda>(r, s'). life_but a c s' \<and> epoll s' = epoll s \<and>
    (\<forall>h0 x. tbl s (c_fd c) = Some (Some h0, x) \<longrightarrow> tbl s' (c_fd c) = Some (Some h, Some a)) \<and>
    (0 \<le> r \<longrightarrow> tbl s' (c_fd c) = Some (Some h, Some a)))"
  unfolding set_handler_def
proof (rule safe_then [OF harmless_events(3)])
  fix x assume x: "tgx_event_set_handler (tevent s) (c_fd c) (Some h) None = Inr x"
  obtain r te where rt: "x = (r, te)" by fastforce
  note P = life_but_parts [OF assms]
  have T: "wf_tevent te" "tbl (s\<lparr>tevent := te\<rparr>) = (case tbl s (c_fd c) of Some (Some _, ctx) \<Rightarrow> (tbl s)(c_fd c \<mapsto> (Some h, ctx)) | _ \<Rightarrow> tbl s)"
      "0 \<le> r \<longrightarrow> (\<exists>h0 ctx. tbl s (c_fd c) = Some (Some h0, ctx))"
    using set_handler_tbl [OF P(2) less_imp_le [OF P(3)] x [unfolded rt]] unfolding tbl_def by simp_all
  have other: "\<forall>fd. fd \<noteq> c_fd c \<longrightarrow> tbl (s\<lparr>tevent := te\<rparr>) fd = tbl s fd" unfolding T(2) by (simp split: option.splits)
  have at: "tbl s (c_fd c) = Some (Some h0, x) \<Longrightarrow> tbl (s\<lparr>tevent := te\<rparr>) (c_fd c) = Some (Some h, Some a)" for h0 x
    unfolding T(2) using entry_but [OF assms] by auto
  have "life_but a c (s\<lparr>tevent := te\<rparr>)"
  proof (rule life_but_change [OF assms])
    show "\<forall>h x. tbl (s\<lparr>tevent := te\<rparr>) (c_fd c) = Some (h, x) \<longrightarrow> x = Some a"
      unfolding T(2) using entry_but [OF assms] by (auto split: option.splits)
  qed (use T(1) other P in auto)
  with at T(3) show "safe (case x of (r, te) \<Rightarrow> Inr (r, s\<lparr>tevent := te\<rparr>)) (\<lambda>(r, s'). life_but a c s' \<and> epoll s' = epoll s \<and>
    (\<forall>h0 x. tbl s (c_fd c) = Some (Some h0, x) \<longrightarrow> tbl s' (c_fd c) = Some (Some h, Some a)) \<and>
    (0 \<le> r \<longrightarrow> tbl s' (c_fd c) = Some (Some h, Some a)))"
    by (auto simp: rt)
qed

lemma set_handler_then:
  assumes "life_but a c s" and "fd = c_fd c"
    and "\<And>r s'. life_but a c s' \<Longrightarrow> epoll s' = epoll s \<Longrightarrow> \<not> r < 0 \<longrightarrow> tbl s' fd = Some (Some h, Some a) \<Longrightarrow>
      \<forall>h0 x. tbl s fd = Some (Some h0, x) \<longrightarrow> tbl s' fd = Some (Some h, Some a) \<Longrightarrow> safe (f (r, s')) P"
  shows "safe (bind_ub (set_handler fd h s) f) P"
  using set_handler_safe [OF assms(1), of h] assms(3) unfolding assms(2) [symmetric]
  by (elim safe_then) (auto simp: not_less)

text \<open>A connection in the hands of a worker, or about to be posted.\<close>

definition in_hand :: "addr \<Rightarrow> conn \<Rightarrow> server \<Rightarrow> bool" where
  "in_hand a c s \<longleftrightarrow> life_but a c s \<and> tbl s (c_fd c) = Some (Some H_noop, Some a) \<and> epoll s (c_fd c) = None"

lemma in_hand_but: "in_hand a c s \<Longrightarrow> life_but a c s"
  by (simp add: in_hand_def)

lemma in_hand_put:
  "in_hand a c s \<Longrightarrow> c_fd c' = c_fd c \<Longrightarrow> wf_buffer (httpRespHeader c') \<Longrightarrow> in_hand a c' (put_conn a c' s)"
  using life_but_put [of a c s c'] unfolding in_hand_def by (simp add: put_conn_def tbl_def)

lemma life_post:
  assumes "in_hand a c s"
  shows "life (s\<lparr>posted := posted s @ [(t, a, m)]\<rparr>)"
proof -
  let ?s = "s\<lparr>posted := posted s @ [(t, a, m)]\<rparr>"
  note I = in_hand_but [OF assms]
  have pa: "posted_addrs ?s = posted_addrs s @ [a]" by (simp add: posted_addrs_def)
  have t: "tbl ?s = tbl s" by (simp add: tbl_def)
  have "base ?s"
    using life_but_parts [OF I] assms unfolding base_def pa t by (auto simp: in_hand_def)
  moreover have "settled ?s b" for b
  proof (cases "b = a")
    case True
    then show ?thesis using assms life_but_parts(4) [OF I] by (auto simp: settled_def served_def pa t in_hand_def)
  next
    case False
    then have "settled s b" using I by (simp add: life_but_def)
    moreover have "served ?s d h b = served s d h b" for d h using False by (cases h) (simp_all add: served_def pa)
    ultimately show ?thesis by (simp add: settled_def t)
  qed
  ultimately show ?thesis by (simp add: life_def)
qed

subsection \<open>Posting\<close>

abbreviation post_ok :: "addr \<Rightarrow> int \<times> server \<times> string option \<Rightarrow> bool" where
  "post_ok a \<equiv> \<lambda>(r, s, m). \<exists>c. life_but a c s \<and> (0 \<le> r \<longrightarrow> in_hand a c s)"

lemma start_travelling_safe:
  assumes "life_but a c s"
  shows "safe (task_start_travelling env a s) (post_ok a)"
proof -
  let ?c = "c\<lparr>rw_pos := 0\<rparr>"
  let ?c2 = "c\<lparr>rw_pos := 0, travelling := True\<rparr>"
  have l: "life_but a ?c (put_conn a ?c s)" using assms life_but_parts(5) by (intro life_but_put) auto
  show ?thesis
    unfolding task_start_travelling_def get_conn_but [OF assms] bind_ub_simps Let_def
  proof (rule set_handler_then [OF l])
    fix r1 :: int and s1
    assume l1: "life_but a ?c s1" and t1: "\<not> r1 < 0 \<longrightarrow> tbl s1 (c_fd c) = Some (Some H_noop, Some a)"
    let ?s2 = "s1\<lparr>epoll := (epoll s1)(c_fd c := None)\<rparr>"
    have l2: "life_but a ?c ?s2" using life_but_epoll [OF l1, of None] by simp
    have "in_hand a ?c2 (put_conn a ?c2 ?s2)" if "\<not> r1 < 0"
    proof -
      have "in_hand a ?c ?s2" using l2 t1 that by (simp add: in_hand_def tbl_def)
      from in_hand_put [OF this, of ?c2] show ?thesis using life_but_parts(5) [OF assms] by simp
    qed
    moreover have "ctl env TGX_EVENT_CTL_DEL (c_fd c) 0 s1 = (if epoll s1 (c_fd c) \<noteq> None then 0 else - 1, ?s2)"
      using life_but_parts(2,3) [OF l1] by (simp add: ctl_simps)
    moreover have "in_hand a ?c2 s' \<Longrightarrow> post_ok a (0, s', m)" for s' m using in_hand_but by auto
    ultimately show "safe (case (r1, s1) of (ret1, s) \<Rightarrow> case ctl env TGX_EVENT_CTL_DEL (c_fd c) 0 s of (ret2, s) \<Rightarrow>
        if ret1 < 0 \<or> ret2 < 0 then Inr (- 1, s, None) else Inr (0, put_conn a ?c2 s, None)) (post_ok a)"
      using l2 by (cases "r1 < 0"; cases "epoll s1 (c_fd c)") auto
  qed simp
qed

lemma post_or_close_safe:
  assumes "life_but a c s" and "safe (op env a s) (post_ok a)"
  shows "safe (post_or_close env a op t s) (\<lambda>(r, s'). life s')"
proof -
  have "safe (post_task env a op t s) (\<lambda>(r, s'). if r < 0 then \<exists>c. life_but a c s' else life s')"
  proof (cases "m_wrap env \<and> m_task env")
    case True
    then show ?thesis
      unfolding post_task_def
      by (auto intro!: safe_then [OF assms(2)] intro: life_post split: prod.split)
  qed (use assms(1) in \<open>auto simp: post_task_def\<close>)
  then show ?thesis
    unfolding post_or_close_def by (rule safe_then) (auto split: if_splits prod.splits intro: close_err_safe)
qed

lemma in_hand_posts:
  assumes "in_hand a c s"
  shows "safe (task_get_prepare_write_on_post env a s) (post_ok a)" and "safe (task_post_prepare_write_on_post env a s) (post_ok a)"
    and "safe (task_post_prepare_module_on_post env a s) (post_ok a)"
proof -
  have "in_hand a (c\<lparr>dlopen_handle := b\<rparr>) (put_conn a (c\<lparr>dlopen_handle := b\<rparr>) s)" for b
    using life_but_parts(5) [OF in_hand_but [OF assms]] by (intro in_hand_put [OF assms]) auto
  then show "safe (task_post_prepare_module_on_post env a s) (post_ok a)"
    using assms in_hand_but by (fastforce simp: task_post_prepare_module_on_post_def Let_def get_conn_but [OF in_hand_but])
qed (use assms in_hand_but in \<open>auto simp: task_get_prepare_write_on_post_def task_post_prepare_write_on_post_def\<close>)

subsection \<open>Handlers\<close>

lemma read_loop_frame:
  "read_loop env rs c = Inr (r, c') \<Longrightarrow> c_fd c' = c_fd c \<and> httpRespHeader c' = httpRespHeader c \<and> travelling c' = travelling c"
proof (induction "sum_list (map rd_size rs)" arbitrary: rs c rule: less_induct)
  case less
  have IH: "read_loop env rs' d = Inr (r, c') \<Longrightarrow> sum_list (map rd_size rs') < sum_list (map rd_size rs) \<Longrightarrow>
      c_fd c' = c_fd d \<and> httpRespHeader c' = httpRespHeader d \<and> travelling c' = travelling d" for rs' d
    using less.hyps by blast
  from less.prems show ?case
    by (subst (asm) read_loop.simps)
      (auto simp: Let_def bind_ub_eq_Inr rd_size_def split: prod.splits list.splits rd.splits if_splits dest!: IH)
qed

text \<open>A handler is called for a connection whose entry names it.\<close>

lemma life_handler:
  assumes "life s" and "tbl s fd = Some (Some h, Some a)"
  obtains c where "conns s a = Some c" "c_fd c = fd" "served s c h a" "h \<noteq> H_noop \<Longrightarrow> life_but a c s"
proof -
  have b: "base s" using assms(1) by (simp add: life_def)
  from baseD(4) [OF b assms(2)] obtain c where c: "conns s a = Some c" "c_fd c = fd" by blast
  with assms have sv: "served s c h a" by (auto simp: life_def settled_def)
  then have "h \<noteq> H_noop \<Longrightarrow> life_but a c s"
    using assms(1) c(1) by (cases h) (auto simp: life_but_def life_def served_def)
  with c sv that show thesis by blast
qed

lemma handler_read_safe:
  assumes "life s" and "tbl s fd = Some (Some H_read, Some a)"
  shows "safe (tgx_connection_handler_read env a ev s) (\<lambda>(r, s'). life s')"
proof -
  from life_handler [OF assms] obtain c where c: "c_fd c = fd" "served s c H_read a" "life_but a c s" by blast
  show ?thesis
    unfolding tgx_connection_handler_read_def get_conn_but [OF c(3)] bind_ub_simps
  proof (split if_split, intro conjI impI close_err_safe [OF c(3)] safe_then [OF harmless_read_loop])
    fix x assume x: "read_loop env (reads env) c = Inr x"
    obtain more c1 where m: "x = (more, c1)" by fastforce
    have f: "c_fd c1 = fd" "wf_buffer (httpRespHeader c1)" "\<not> travelling c1"
      using read_loop_frame [OF x [unfolded m]] c life_but_parts(5) [OF c(3)] by (simp_all add: served_def)
    have l: "life_but a (c1\<lparr>httpReqBuf := b\<rparr>) (put_conn a (c1\<lparr>httpReqBuf := b\<rparr>) s)" for b
      using f c(1) by (intro life_but_put [OF c(3)]) auto
    have done1: "life (put_conn a (c1\<lparr>httpReqBuf := b\<rparr>) s)" for b
      using l [of b] assms(2) c(2) f c(1) by (intro life_done [OF l, of b H_read]) (auto simp: put_conn_def tbl_def served_def posted_addrs_def)
    have l1: "life_but a c1 (put_conn a c1 s)" using l [of "httpReqBuf c1"] by simp
    show "safe (case x of (more, c) \<Rightarrow> if \<not> more then close_err env a (put_conn a c s)
       else bind_ub (end_string (httpReqBuf c) (rw_pos c)) (\<lambda>buf. let s = put_conn a (c\<lparr>httpReqBuf := buf\<rparr>) s in
         case ts_data buf of None \<Rightarrow> Inl NullDeref
         | Some d \<Rightarrow> bind_ub (request_verdict d (rw_pos c)) (case_verdict (Inr (0, s))
             (post_or_close env a task_start_travelling T_http_parser s) (close_err env a s)))) (\<lambda>(r, s'). life s')"
      unfolding m prod.case
    proof (split if_split, intro conjI impI close_err_safe [OF l1] safe_then [OF harmless_strings(1)])
      fix buf
      show "safe (let s = put_conn a (c1\<lparr>httpReqBuf := buf\<rparr>) s in case ts_data buf of None \<Rightarrow> Inl NullDeref
         | Some d \<Rightarrow> bind_ub (request_verdict d (rw_pos c1)) (case_verdict (Inr (0, s))
             (post_or_close env a task_start_travelling T_http_parser s) (close_err env a s))) (\<lambda>(r, s'). life s')"
        using done1 close_err_safe [OF l] post_or_close_safe [OF l [of buf], where op = task_start_travelling, OF start_travelling_safe [OF l]]
        by (auto simp: Let_def split: option.split verdict.split intro!: safe_then [OF harmless_strings(5)])
    qed
  qed
qed

text \<open>What a writer does to the connection, before it waits, closes or goes on.\<close>

lemma written:
  assumes "life_but a c s" and "tbl s (c_fd c) = Some (Some h, Some a)" and "served s c h a" and "h \<in> {H_write_header, H_write_file, H_write_buffer}"
  shows "life_but a (c\<lparr>rw_pos := p\<rparr>) (put_conn a (c\<lparr>rw_pos := p\<rparr>) (s\<lparr>wire := w\<rparr>))"
    and "life (put_conn a (c\<lparr>rw_pos := p\<rparr>) (s\<lparr>wire := w\<rparr>))"
proof -
  show l: "life_but a (c\<lparr>rw_pos := p\<rparr>) (put_conn a (c\<lparr>rw_pos := p\<rparr>) (s\<lparr>wire := w\<rparr>))"
    using assms(1) life_but_parts(5) [OF assms(1)] by (intro life_but_put [of a c]) auto
  show "life (put_conn a (c\<lparr>rw_pos := p\<rparr>) (s\<lparr>wire := w\<rparr>))"
    using assms(2-4) by (intro life_done [OF l, of h]) (auto simp: put_conn_def tbl_def served_def posted_addrs_def)
qed

lemma put_conn_twice [simp]: "put_conn a c (put_conn a c' s) = put_conn a c s"
  by (simp add: put_conn_def)

lemma switch_safe:
  assumes "life_but a c s" and "tbl s (c_fd c) = Some (Some h0, Some a)" and "served s c h0 a"
    and "h0 \<in> {H_write_header, H_write_file, H_write_buffer}" and "h \<in> {H_write_header, H_write_file, H_write_buffer}"
  shows "safe (bind_ub (set_handler (c_fd c) h s) (\<lambda>(_, s). Inr (0 :: int, s))) (\<lambda>(r, s'). life s')"
proof (rule set_handler_then [OF assms(1) refl])
  fix r :: int and s1
  assume l: "life_but a c s1" and e: "epoll s1 = epoll s"
    and t: "\<forall>h0 x. tbl s (c_fd c) = Some (Some h0, x) \<longrightarrow> tbl s1 (c_fd c) = Some (Some h, Some a)"
  have "life s1"
    using t assms(2-5) e life_but_parts(6) [OF l] by (intro life_done [OF l, of h]) (auto simp: served_def)
  then show "safe (case (r, s1) of (_, s) \<Rightarrow> Inr (0 :: int, s)) (\<lambda>(r, s'). life s')" by simp
qed

lemma handler_write_header_safe:
  assumes "life s" and "tbl s fd = Some (Some H_write_header, Some a)"
  shows "safe (tgx_connection_handler_write_header env a ev s) (\<lambda>(r, s'). life s')"
proof -
  from life_handler [OF assms] obtain c where c: "c_fd c = fd" "served s c H_write_header a" "life_but a c s" by blast
  note w = written [OF c(3) assms(2) [folded c(1)] c(2)]
  have sw: "safe (bind_ub (set_handler (c_fd c) h (put_conn a (c\<lparr>rw_pos := 0\<rparr>) (s\<lparr>wire := w\<rparr>))) (\<lambda>(_, s). Inr (0 :: int, s))) (\<lambda>(r, s'). life s')"
    if "h \<in> {H_write_file, H_write_buffer}" for h w
    using switch_safe [OF w(1) [of 0 w], of H_write_header h] that assms(2) c(1,2)
    by (auto simp: put_conn_def tbl_def served_def posted_addrs_def)
  show ?thesis
    unfolding tgx_connection_handler_write_header_def get_conn_but [OF c(3)] bind_ub_simps
    by (auto simp: Let_def intro!: close_err_safe [OF c(3)] close_err_safe [OF w(1)] w(2) sw safe_then [OF harmless_basic(5)]
        safe_then [OF harmless_write_loop] split: option.split prod.split wres.split)
qed

lemma close_ok_safe: "life_but a c s \<Longrightarrow> safe (bind_ub (tgx_close_connection env a s) (\<lambda>s. Inr (r, s))) (\<lambda>(r, s'). life s')"
  by (rule safe_then [OF close_safe]) simp_all

lemma handler_write_file_safe:
  assumes "life s" and "tbl s fd = Some (Some H_write_file, Some a)"
  shows "safe (tgx_connection_handler_get_method_write_file env a ev s) (\<lambda>(r, s'). life s')"
proof -
  from life_handler [OF assms] obtain c where c: "c_fd c = fd" "served s c H_write_file a" "life_but a c s" by blast
  note w = written [OF c(3) assms(2) [folded c(1)] c(2)]
  show ?thesis
    unfolding tgx_connection_handler_get_method_write_file_def get_conn_but [OF c(3)] bind_ub_simps
    by (auto simp: Let_def intro!: close_err_safe [OF c(3)] close_err_safe [OF w(1)] close_ok_safe [OF w(1)] w(2)
        split: option.split prod.split wres.split)
qed

lemma handler_write_buffer_safe:
  assumes "life s" and "tbl s fd = Some (Some H_write_buffer, Some a)"
  shows "safe (tgx_connection_handler_post_method_write_buffer env a ev s) (\<lambda>(r, s'). life s')"
proof -
  from life_handler [OF assms] obtain c where c: "c_fd c = fd" "served s c H_write_buffer a" "life_but a c s" by blast
  note w = written [OF c(3) assms(2) [folded c(1)] c(2)]
  show ?thesis
    unfolding tgx_connection_handler_post_method_write_buffer_def get_conn_but [OF c(3)] bind_ub_simps
    by (auto simp: Let_def intro!: close_err_safe [OF c(3)] close_err_safe [OF w(1)] close_ok_safe [OF w(1)] w(2)
        safe_then [OF harmless_basic(5)] safe_then [OF harmless_write_loop] split: option.split prod.split wres.split)
qed

subsection \<open>Tasks\<close>

lemma run_pcalls_frame:
  "run_pcalls env ps n c = Inr (k, c') \<Longrightarrow> c_fd c' = c_fd c \<and> httpRespHeader c' = httpRespHeader c"
proof (induction ps arbitrary: n c)
  case (Cons p ps)
  have f: "run_pcall env p c = Inr (r, d) \<Longrightarrow> c_fd d = c_fd c \<and> httpRespHeader d = httpRespHeader c" for r d
    by (cases p) (auto simp: run_pcall_def bind_ub_eq_Inr split: option.splits)
  from Cons.prems obtain r d where d: "run_pcall env p c = Inr (r, d)" "r \<noteq> 0 \<and> c' = d \<or> run_pcalls env ps (Suc n) d = Inr (k, c')"
    by (auto simp: bind_ub_eq_Inr split: if_splits)
  from d(2) f [OF d(1)] show ?case using Cons.IH [of "Suc n" d] by (elim disjE) simp_all
qed simp

lemma http_parser_do_safe:
  assumes "in_hand a c s"
  shows "safe (task_http_parser_do env a s) (\<lambda>(r, s'). \<exists>c'. in_hand a c' s')"
proof -
  have "\<exists>d. in_hand a d (put_conn a c' s)" if "run_pcalls env ps n c = Inr (k, c')" for ps n k c'
    using run_pcalls_frame [OF that] life_but_parts(5) [OF in_hand_but [OF assms]] by (intro exI [of _ c'] in_hand_put [OF assms]) auto
  then show ?thesis
    using assms unfolding task_http_parser_do_def get_conn_but [OF in_hand_but [OF assms]] bind_ub_simps
    by (auto intro!: safe_then [OF harmless_basic(5)] safe_then [OF harmless_pcalls] split: option.split)
qed

lemma http_parser_complete_safe:
  assumes "in_hand a c s"
  shows "safe (task_http_parser_on_complete env a err s) (\<lambda>(r, s'). life s')"
  using close_err_safe [OF in_hand_but [OF assms]]
    post_or_close_safe [OF in_hand_but [OF assms], where op = task_get_prepare_write_on_post, OF in_hand_posts(1) [OF assms]]
    post_or_close_safe [OF in_hand_but [OF assms], where op = task_post_prepare_module_on_post, OF in_hand_posts(3) [OF assms]]
  by (simp add: task_http_parser_on_complete_def get_conn_but [OF in_hand_but [OF assms]])

lemma module_do_safe:
  assumes "in_hand a c s"
  shows "safe (task_post_prepare_module_do env a m s) (\<lambda>(r, s'). \<exists>c'. in_hand a c' s')"
proof -
  have "in_hand a (c\<lparr>httpReqBody := q, httpRespBody := r\<rparr>) (put_conn a (c\<lparr>httpReqBody := q, httpRespBody := r\<rparr>) s)" for q r
    using life_but_parts(5) [OF in_hand_but [OF assms]] by (intro in_hand_put [OF assms]) auto
  with assms show ?thesis
    by (auto simp: task_post_prepare_module_do_def get_conn_but [OF in_hand_but [OF assms]] Let_def split: option.split prod.split)
qed

lemma module_complete_safe:
  assumes "in_hand a c s"
  shows "safe (task_post_prepare_module_on_complete env a err s) (\<lambda>(r, s'). life s')"
  using close_err_safe [OF in_hand_but [OF assms]]
    post_or_close_safe [OF in_hand_but [OF assms], where op = task_post_prepare_write_on_post, OF in_hand_posts(2) [OF assms]]
  by (simp add: task_post_prepare_module_on_complete_def)

text \<open>Printing into a well-formed buffer keeps it so, and with memory for it no check fails.\<close>

lemma same_length_wf:
  "wf_buffer str \<Longrightarrow> map_option length (ts_data str') = map_option length (ts_data str) \<Longrightarrow> ts_size str' = ts_size str \<Longrightarrow> wf_buffer str'"
  by (auto simp: wf_buffer_def full_size_def)

lemma clear_start_keeps: "wf_buffer str \<Longrightarrow> clear_start str = Inr str' \<Longrightarrow> wf_buffer str'"
  by (erule same_length_wf) (auto simp: clear_start_def bind_ub_eq_Inr memset0_def split: option.splits if_splits)

lemma end_string_keeps: "wf_buffer str \<Longrightarrow> end_string str p = Inr str' \<Longrightarrow> wf_buffer str'"
  by (erule same_length_wf) (auto simp: end_string_def bind_ub_eq_Inr poke_def split: option.splits if_splits)

lemma sprintf_at_keeps: "wf_buffer str \<Longrightarrow> sprintf_at str p t = Inr str' \<Longrightarrow> wf_buffer str'"
  by (erule same_length_wf) (auto simp: sprintf_at_def split: option.splits if_splits)

lemma copy_all_keeps:
  "wf_buffer str \<Longrightarrow> copy_all True ro ts (str, p) = Inr (ok, str', p') \<Longrightarrow> ok \<and> wf_buffer str'"
proof (induction ts arbitrary: str p)
  case (Cons t ts)
  obtain r str1 where r: "string_check_boundry True ro str (int p) = (r, str1)" by fastforce
  have "\<not> r < 0" using r Cons.prems(1) check_boundry_full [of str "int p" True ro] check_boundry_fresh [of str "int p" ro]
    by (auto simp: wf_buffer_def)
  with r Cons.prems obtain str2 where "sprintf_at str1 p t = Inr str2" "copy_all True ro ts (str2, p + length t) = Inr (ok, str', p')"
    by (auto simp: bind_ub_eq_Inr)
  with Cons.IH check_boundry_wf [OF Cons.prems(1) r] sprintf_at_keeps show ?case by blast
qed simp

lemma header_put:
  "in_hand a c s \<Longrightarrow> c_fd c' = c_fd c \<Longrightarrow> wf_buffer str \<Longrightarrow> \<exists>d. in_hand a d (set_header a c' str s)"
  unfolding set_header_def by (intro exI [of _ "c'\<lparr>httpRespHeader := str\<rparr>"] in_hand_put [of a c s]) auto

lemma copy_all_safe:
  assumes "wf_buffer str" and "\<And>str' p'. wf_buffer str' \<Longrightarrow> safe (f (True, str', p')) P"
  shows "safe (bind_ub (copy_all True ro ts (str, p)) f) P"
proof (rule safe_then [OF harmless_copy_all])
  fix x assume "copy_all True ro ts (str, p) = Inr x"
  moreover obtain ok str' p' where "x = (ok, str', p')" by (cases x)
  ultimately show "safe (f x) P" using copy_all_keeps [OF assms(1)] assms(2) by fastforce
qed

lemma end_string_safe:
  "wf_buffer str \<Longrightarrow> (\<And>str'. wf_buffer str' \<Longrightarrow> safe (f str') P) \<Longrightarrow> safe (bind_ub (end_string str p) f) P"
  by (rule safe_then [OF harmless_strings(1)]) (blast dest: end_string_keeps)

lemma err_path_safe:
  "(\<And>c'. c_fd c' = c_fd c \<Longrightarrow> safe (f c') P) \<Longrightarrow> safe (bind_ub (err_path s c) f) P"
  by (auto simp: err_path_def bind_ub_def put_str_def split: sum.split)

lemma prepare_write_safe:
  assumes "in_hand a c s" and "m_buf env"
  shows "safe (task_get_prepare_write_do env a s) (\<lambda>(r, s'). \<exists>c'. in_hand a c' s')"
    and "safe (task_post_prepare_write_do env a s) (\<lambda>(r, s'). \<exists>c'. in_hand a c' s')"
proof -
  have w: "wf_buffer (httpRespHeader c)" using assms life_but_parts(5) in_hand_but by blast
  note h = header_put [OF assms(1)]
  show "safe (task_get_prepare_write_do env a s) (\<lambda>(r, s'). \<exists>c'. in_hand a c' s')"
    unfolding task_get_prepare_write_do_def get_conn_but [OF in_hand_but [OF assms(1)]] bind_ub_simps
    using assms(2)
    by (auto intro!: safe_then [OF harmless_strings(2)] safe_then [OF harmless_basic(2)] copy_all_safe end_string_safe err_path_safe h
        intro: clear_start_keeps [OF w] split: option.split)
  show "safe (task_post_prepare_write_do env a s) (\<lambda>(r, s'). \<exists>c'. in_hand a c' s')"
    unfolding task_post_prepare_write_do_def get_conn_but [OF in_hand_but [OF assms(1)]] bind_ub_simps
    using assms(2)
    by (auto intro!: safe_then [OF harmless_strings(2)] safe_then [OF harmless_basic(2)] safe_then [OF harmless_basic(5)]
        copy_all_safe end_string_safe h intro: clear_start_keeps [OF w] split: option.split simp del: copy_all.simps)
qed

lemma end_travelling_safe:
  assumes "in_hand a c s"
  shows "safe (task_end_travelling env a err s) (\<lambda>(r, s'). life s')"
proof (cases "err < 0")
  case True
  with close_err_safe [OF in_hand_but [OF assms]] show ?thesis by (simp add: task_end_travelling_def)
next
  case False
  let ?c = "c\<lparr>rw_pos := 0\<rparr>"
  have h: "in_hand a ?c (put_conn a ?c s)"
    using life_but_parts(5) [OF in_hand_but [OF assms]] by (intro in_hand_put [OF assms]) auto
  have e: "epoll (put_conn a ?c s) (c_fd c) = None" using assms by (simp add: in_hand_def put_conn_def)
  show ?thesis
    unfolding task_end_travelling_def get_conn_but [OF in_hand_but [OF assms]] bind_ub_simps Let_def if_not_P [OF False]
  proof (rule set_handler_then [OF in_hand_but [OF h]])
    fix r1 :: int and s1
    assume l1: "life_but a ?c s1" and "epoll s1 = epoll (put_conn a ?c s)"
      and t1: "\<not> r1 < 0 \<longrightarrow> tbl s1 (c_fd c) = Some (Some H_write_header, Some a)"
    with e have e1: "epoll s1 (c_fd c) = None" by simp
    let ?s2 = "s1\<lparr>epoll := (epoll s1)(c_fd c \<mapsto> EPOLLOUT)\<rparr>"
    have l2: "life_but a ?c ?s2" using life_but_epoll [OF l1, of "Some EPOLLOUT"] by simp
    have "life ?s2" if "\<not> r1 < 0"
      using t1 that life_but_parts(6) [OF l2] by (intro life_done [OF l2, of H_write_header]) (auto simp: tbl_def served_def)
    moreover have "ctl env TGX_EVENT_CTL_ADD (c_fd c) TGX_EVENT_OUT s1 = (if k_ok env then (0, ?s2) else (- 1, s1))"
      using life_but_parts(2,3) [OF l1] e1 by (simp add: ctl_simps)
    ultimately show "safe (case (r1, s1) of (ret1, s) \<Rightarrow> case ctl env TGX_EVENT_CTL_ADD (c_fd c) TGX_EVENT_OUT s of (ret2, s) \<Rightarrow>
        if ret1 < 0 \<or> ret2 < 0 then close_err env a s else Inr (0, s)) (\<lambda>(r, s'). life s')"
      using close_err_safe [OF l1] close_err_safe [OF l2] by simp
  qed simp
qed

text \<open>A worker takes a posted task off the queue and runs it.\<close>

lemma take_posting:
  assumes "life s" and "posted s = ps @ (t, a, m) # qs"
  shows "\<exists>c. in_hand a c (s\<lparr>posted := ps @ qs\<rparr>)"
proof -
  let ?s = "s\<lparr>posted := ps @ qs\<rparr>"
  have b: "base s" and st: "\<And>b. settled s b" using assms(1) by (auto simp: life_def)
  note B = baseD [OF b]
  have pa: "set (posted_addrs s) = insert a (set (posted_addrs ?s))" "a \<notin> set (posted_addrs ?s)" "distinct (posted_addrs ?s)"
    using B(7) assms(2) by (auto simp: posted_addrs_def)
  have t: "tbl ?s = tbl s" by (simp add: tbl_def)
  from B(6) [of a] pa(1) obtain c h where c: "conns s a = Some c" "tbl s (c_fd c) = Some (h, Some a)" by auto
  with st [of a] obtain h' where h: "h = Some h'" "served s c h' a" by (auto simp: settled_def)
  then have n: "h' = H_noop" "epoll s (c_fd c) = None" using pa(1) by (cases h'; simp add: served_def)+
  have "base ?s" using b pa unfolding base_def t by auto
  moreover have "settled ?s d" if "d \<noteq> a" for d
  proof -
    have "served ?s f g d = served s f g d" for f g using that pa(1) by (cases g) (simp_all add: served_def)
    with st [of d] show ?thesis by (simp add: settled_def t)
  qed
  ultimately show ?thesis using c h n pa(2) by (auto simp: in_hand_def life_but_def t)
qed

lemma run_ctask_safe:
  assumes "in_hand a c s" and "m_buf env"
  shows "safe (run_ctask env (t, a, m) s) (\<lambda>(r, s'). life s')"
proof (cases t)
  case T_http_parser
  then show ?thesis
    by (auto simp: run_ctask_def intro!: safe_then [OF http_parser_do_safe [OF assms(1)]] intro: http_parser_complete_safe)
next
  case T_get_prepare_write
  then show ?thesis
    by (auto simp: run_ctask_def intro!: safe_then [OF prepare_write_safe(1) [OF assms]] intro: end_travelling_safe)
next
  case T_post_prepare_module
  then show ?thesis
    by (auto simp: run_ctask_def intro!: safe_then [OF module_do_safe [OF assms(1)]] intro: module_complete_safe)
next
  case T_post_prepare_write
  then show ?thesis
    by (auto simp: run_ctask_def intro!: safe_then [OF prepare_write_safe(2) [OF assms]] intro: end_travelling_safe)
qed

subsection \<open>New connections\<close>

text \<open>\<open>accept\<close> returns descriptors that are not in use.\<close>

definition fresh_fds :: "server \<Rightarrow> int list \<Rightarrow> bool" where
  "fresh_fds s fds \<longleftrightarrow> distinct fds \<and>
     (\<forall>fd \<in> set fds. 0 < fd \<and> fd \<noteq> listen_fd s \<and> (\<forall>a c. conns s a = Some c \<longrightarrow> c_fd c \<noteq> fd))"

lemma fresh_tbl: "base s \<Longrightarrow> fresh_fds s fds \<Longrightarrow> fd \<in> set fds \<Longrightarrow> tbl s fd = None"
proof (rule ccontr)
  assume b: "base s" and f: "fresh_fds s fds" "fd \<in> set fds" and "tbl s fd \<noteq> None"
  then obtain h x where "tbl s fd = Some (h, x)" by auto
  with baseD(4,5) [OF b] f show False by (cases x) (fastforce simp: fresh_fds_def)+
qed

text \<open>The three things that accepting a connection does.\<close>

lemma life_watch:
  assumes "life s" and "\<forall>a c. conns s a = Some c \<longrightarrow> c_fd c \<noteq> fd"
  shows "life (s\<lparr>epoll := (epoll s)(fd := x)\<rparr>)"
proof -
  let ?s = "s\<lparr>epoll := (epoll s)(fd := x)\<rparr>"
  have "served ?s c h a = served s c h a" if "conns s a = Some c" for a c h
    using assms(2) that by (cases h) (auto simp: served_def posted_addrs_def)
  then show ?thesis using assms(1) unfolding life_def settled_def base_def tbl_def posted_addrs_def by auto
qed

lemma life_new:
  assumes "life s" and "0 < c_fd c" and "c_fd c \<noteq> listen_fd s" and "\<forall>a d. conns s a = Some d \<longrightarrow> c_fd d \<noteq> c_fd c"
    and "wf_buffer (httpRespHeader c)"
  shows "life_but (brk_conn s) c (s\<lparr>brk_conn := Suc (brk_conn s), conns := (conns s)(brk_conn s \<mapsto> c)\<rparr>)"
proof -
  let ?s = "s\<lparr>brk_conn := Suc (brk_conn s), conns := (conns s)(brk_conn s \<mapsto> c)\<rparr>"
  have b: "base s" and st: "\<And>b. settled s b" using assms(1) by (auto simp: life_def)
  note B = baseD [OF b]
  have new: "conns s (brk_conn s) = None" using B(2) [of "brk_conn s"] by (cases "conns s (brk_conn s)") auto
  have pa: "posted_addrs ?s = posted_addrs s" and t: "tbl ?s = tbl s" by (simp_all add: posted_addrs_def tbl_def)
  have n: "brk_conn s \<notin> set (posted_addrs s)" using B(6) [of "brk_conn s"] new by auto
  have "base ?s"
    unfolding base_def pa t
  proof (intro conjI allI impI ballI)
    fix a d assume "conns ?s a = Some d"
    then show "0 < c_fd d" "c_fd d \<noteq> listen_fd ?s" "a < brk_conn ?s" "wf_buffer (httpRespHeader d)"
      using B(2) [of a d] assms by (auto split: if_splits)
  next
    fix a d e f assume "conns ?s a = Some d" "conns ?s e = Some f" "c_fd d = c_fd f"
    then show "a = e" using B(3) [of a d e f] assms(4) by (auto split: if_splits)
  next
    fix fd h a assume "tbl s fd = Some (h, Some a)"
    from B(4) [OF this] new show "\<exists>d. conns ?s a = Some d \<and> c_fd d = fd" by (auto simp del: split_paired_Ex)
  next
    fix a assume "a \<in> set (posted_addrs s)"
    from B(6) [OF this] new show "\<exists>d h. conns ?s a = Some d \<and> tbl s (c_fd d) = Some (h, Some a)" by auto
  qed (use B(1,5,7) in auto)
  moreover have "settled ?s a" if "a \<noteq> brk_conn s" for a
  proof -
    have "served ?s d h a = served s d h a" for d h by (cases h) (simp_all add: served_def pa)
    with st [of a] that show ?thesis by (simp add: settled_def t)
  qed
  ultimately show ?thesis using n pa by (simp add: life_but_def)
qed

lemma accept_safe:
  assumes "life s" and "fresh_fds s fds"
  shows "safe (tgx_acception_handler env nb fds s) (\<lambda>(r, s'). life s')"
  using assms
proof (induction fds arbitrary: s)
  case (Cons fd fds)
  have f: "0 < fd" "fd \<noteq> listen_fd s" "\<forall>a c. conns s a = Some c \<longrightarrow> c_fd c \<noteq> fd" "fd \<notin> set fds"
    using Cons.prems(2) by (auto simp: fresh_fds_def)
  have b: "base s" using Cons.prems(1) by (simp add: life_def)
  have w: "wf_tevent (tevent s)" using baseD(1) [OF b] .
  have no: "lookup (tevent s) fd = None" using fresh_tbl [OF b Cons.prems(2), of fd] by (simp add: tbl_def)
  define s1 where "s1 = s\<lparr>epoll := (epoll s)(fd \<mapsto> EPOLLIN)\<rparr>"
  define c where "c = \<lparr>c_fd = fd, httpReqBuf = empty_string, httpReqBody = (if m_reqbody env then Some empty_string else None),
    httpRespHeader = empty_string, httpRespBody = empty_string, travelling = False, rw_pos = 0,
    c_parser = new_http_parser, dlopen_handle = False\<rparr>"
  define s2 where "s2 = s1\<lparr>brk_conn := Suc (brk_conn s1), conns := (conns s1)(brk_conn s1 \<mapsto> c)\<rparr>"
  have l1: "life s1" unfolding s1_def using life_watch [OF Cons.prems(1)] f(3) by simp
  have l2: "life_but (brk_conn s1) c s2"
    unfolding s2_def using f by (intro life_new [OF l1]) (auto simp: c_def s1_def wf_buffer_def empty_string_def)
  have "safe (bind_ub (tgx_event_schedule_register (m_sched env) (tevent s2) fd (Some H_read) (Some (brk_conn s1)))
      (\<lambda>(r, te). if r < 0 then Inr (- 1, s2\<lparr>tevent := te\<rparr>) else tgx_acception_handler env nb fds (s2\<lparr>tevent := te\<rparr>)))
      (\<lambda>(r, s'). life s')"
  proof (rule safe_then [OF harmless_events(1)])
    fix x assume x: "tgx_event_schedule_register (m_sched env) (tevent s2) fd (Some H_read) (Some (brk_conn s1)) = Inr x"
    obtain r te where rt: "x = (r, te)" by fastforce
    let ?s3 = "s2\<lparr>tevent := te\<rparr>"
    have T: "wf_tevent te" "lookup te = (if r < 0 then tbl s2 else (tbl s2)(fd \<mapsto> (Some H_read, Some (brk_conn s1))))"
      using register_tbl [OF _ _ _ x [unfolded rt]] w no f(1) by (simp_all add: s1_def s2_def tbl_def)
    have l3: "life_but (brk_conn s1) c ?s3"
      by (rule life_but_change [OF l2]) (use T no life_but_parts [OF l2] in \<open>auto simp: c_def tbl_def s1_def s2_def split: if_splits\<close>)
    have "settled ?s3 (brk_conn s1)"
      using T no life_but_parts(6) [OF l3] by (auto simp: settled_def served_def tbl_def s1_def s2_def c_def split: if_splits)
    with l3 have "life ?s3" by (rule life_settled)
    moreover have "fresh_fds ?s3 fds"
      using Cons.prems(2) f(4) by (auto simp: fresh_fds_def s1_def s2_def c_def split: if_splits)
    ultimately show "safe (case x of (r, te) \<Rightarrow> if r < 0 then Inr (- 1, s2\<lparr>tevent := te\<rparr>)
        else tgx_acception_handler env nb fds (s2\<lparr>tevent := te\<rparr>)) (\<lambda>(r, s'). life s')"
      using Cons.IH by (simp add: rt)
  qed
  moreover have "ctl env TGX_EVENT_CTL_ADD fd TGX_EVENT_IN s = (if k_ok env \<and> epoll s fd = None then (0, s1) else (- 1, s))"
    using w f(1) by (simp add: ctl_simps s1_def)
  moreover have "tgx_new_connection env fd s1 = (if m_conn env \<and> m_parts env then (Some (brk_conn s1), s2) else (None, s1))"
    by (simp add: tgx_new_connection_def s2_def c_def)
  ultimately show ?case using l1 Cons.prems(1) by (simp add: Let_def)
qed simp

subsection \<open>The server at work\<close>

text \<open>
  The state in which the loop of \<open>main\<close> starts: the listening socket is registered, and nothing else. A
  step is the dispatch of any event for any descriptor, or a worker's run of any posted task. In a
  task the allocation of the header buffer succeeds; see below for what happens otherwise.
\<close>

definition server_start :: "server \<Rightarrow> bool" where
  "server_start s \<longleftrightarrow> wf_tevent (tevent s) \<and> tbl s = [listen_fd s \<mapsto> (Some H_accept, None)] \<and>
     conns s = Map.empty \<and> posted s = []"

inductive server_step :: "server \<Rightarrow> server \<Rightarrow> bool" where
  event: "serve_event env nb infds fd ev s = Inr (r, s') \<Longrightarrow> fresh_fds s infds \<Longrightarrow> server_step s s'"
| task: "posted s = ps @ p # qs \<Longrightarrow> m_buf env \<Longrightarrow> run_ctask env p (s\<lparr>posted := ps @ qs\<rparr>) = Inr (r, s') \<Longrightarrow> server_step s s'"

inductive server_reachable :: "server \<Rightarrow> bool" where
  start: "server_start s \<Longrightarrow> server_reachable s"
| step: "server_reachable s \<Longrightarrow> server_step s s' \<Longrightarrow> server_reachable s'"

lemma serve_event_safe:
  assumes "life s" and "fresh_fds s infds"
  shows "safe (serve_event env nb infds fd ev s) (\<lambda>(r, s'). life s')"
  unfolding serve_event_def
proof (rule safe_then [OF harmless_events(4)], rule safe_then [OF harmless_events(5)])
  fix h ctx assume h: "tgx_event_get_handler (tevent s) fd = Inr h" and ctx: "tgx_event_get_context (tevent s) fd = Inr ctx"
  obtain e where e: "tevent s = Some e" "wf_event e" using assms(1) baseD(1) by (fastforce simp: life_def wf_tevent_def)
  have "0 \<le> fd \<and> nat fd < length (sched_array e)"
    using ctx e(1) by (auto simp: tgx_event_get_context_def tgx_find_schedule_index_def bind_ub_eq_Inr peek_def split: if_splits)
  with get_result [OF e(2)] h ctx e(1) have t: "h = Some h' \<Longrightarrow> tbl s fd = Some (Some h', ctx)" for h'
    by (auto simp: tbl_def split: option.splits)
  show "safe (case h of None \<Rightarrow> Inr (0, s) | Some h \<Rightarrow> call_handler env nb infds h ctx ev s) (\<lambda>(r, s'). life s')"
    using assms accept_safe [OF assms, of env nb] t
    by (auto simp: call_handler_def split: option.split handler.split
        intro: handler_read_safe handler_write_header_safe handler_write_file_safe handler_write_buffer_safe)
qed

lemma life_step: "server_step s s' \<Longrightarrow> life s \<Longrightarrow> life s'"
proof (induction rule: server_step.induct)
  case (event env nb infds fd ev s r s')
  then show ?case using serve_event_safe [of s infds env nb fd ev] by simp
next
  case (task s ps p qs env r s')
  obtain t a m where p: "p = (t, a, m)" by (cases p)
  with take_posting task obtain c where "in_hand a c (s\<lparr>posted := ps @ qs\<rparr>)" by blast
  from run_ctask_safe [OF this, of env t m] task p show ?case by simp
qed

lemma life_start: "server_start s \<Longrightarrow> life s"
  by (auto simp: server_start_def life_def base_def settled_def posted_addrs_def)

lemma life_reachable: "server_reachable s \<Longrightarrow> life s"
  by (induction rule: server_reachable.induct) (auto intro: life_start life_step)

lemma distinct_count_list: "distinct xs \<Longrightarrow> count_list xs a = (if a \<in> set xs then 1 else 0)"
  by (induction xs) auto

text \<open>
  C3: In every reachable state a table entry with a context names a live connection with that
  descriptor, which is in one of three places: epoll watches it for reading and its handler reads; epoll
  watches it for writing and its handler is one of the writers; or epoll does not watch it, its handler does
  nothing and exactly one task for it is posted.
\<close>

theorem connection_lifecycle:
  assumes "server_reachable s" and "tbl s fd = Some (h, Some a)"
  shows "\<exists>c. conns s a = Some c \<and> c_fd c = fd \<and>
    (h = Some H_read \<and> epoll s fd = Some EPOLLIN \<and> count_list (posted_addrs s) a = 0 \<or>
     h \<in> {Some H_write_header, Some H_write_file, Some H_write_buffer} \<and> epoll s fd = Some EPOLLOUT \<and> count_list (posted_addrs s) a = 0 \<or>
     h = Some H_noop \<and> epoll s fd = None \<and> count_list (posted_addrs s) a = 1)"
proof -
  have l: "life s" using assms(1) by (rule life_reachable)
  then have b: "base s" by (simp add: life_def)
  from baseD(4) [OF b assms(2)] obtain c where c: "conns s a = Some c" "c_fd c = fd" by blast
  have "settled s a" using l by (simp add: life_def)
  with c assms(2) obtain h' where h: "h = Some h'" "served s c h' a" unfolding settled_def by blast
  have "count_list (posted_addrs s) a = (if a \<in> set (posted_addrs s) then 1 else 0)"
    using baseD(7) [OF b] by (rule distinct_count_list)
  with c h show ?thesis by (cases h') (auto simp: served_def)
qed

text \<open>
  C6: Whatever the event loop dispatches next, for whatever descriptor, and whichever posted task a worker runs
  next with memory for its header buffer, no connection is read after it was freed.
\<close>

theorem no_use_after_free:
  assumes "server_reachable s" and "fresh_fds s infds"
  shows "serve_event env nb infds fd ev s \<noteq> Inl UseAfterFree \<and>
    (\<forall>ps p qs. posted s = ps @ p # qs \<longrightarrow> m_buf env \<longrightarrow> run_ctask env p (s\<lparr>posted := ps @ qs\<rparr>) \<noteq> Inl UseAfterFree)"
proof -
  have l: "life s" using assms(1) by (rule life_reachable)
  have "run_ctask env (t, a, m) (s\<lparr>posted := ps @ qs\<rparr>) \<noteq> Inl UseAfterFree" if "posted s = ps @ (t, a, m) # qs" "m_buf env" for ps t a m qs
    using take_posting [OF l that(1)] run_ctask_safe that(2) safe_not_uaf by blast
  with safe_not_uaf [OF serve_event_safe [OF l assms(2)]] show ?thesis by auto
qed

lemma conns_ctl [simp]: "conns (snd (ctl env op fd ev s)) = conns s"
  by (simp add: ctl_def split: prod.split)

lemma close_frees:
  assumes "conns s a = Some c" and "tgx_event_schedule_unregister (tevent s) (c_fd c) = Inr (r, te)"
  shows "\<exists>s1. tgx_close_connection env a s = Inr s1 \<and> conns s1 a = None"
  using assms by (cases "travelling c") (simp_all add: tgx_close_connection_def get_conn_def tgx_free_connection_def Let_def)

text \<open>
  When the header buffer cannot be allocated, the macro \<open>COPY\<close> closes the connection inside the task, and
  \<open>_task_end_travelling\<close>, which is told of the failure, closes it again.
\<close>

theorem failed_buffer_double_close:
  assumes "in_hand a c s" and "\<not> m_buf env" and "ts_size (httpRespHeader c) = 0" and "http_status (c_parser c) < length tgx_http_status_string"
    and "t = T_get_prepare_write \<or> t = T_post_prepare_write"
  shows "run_ctask env (t, a, m) s = Inl UseAfterFree"
proof -
  let ?str = "\<lparr>ts_size = MAX_BUFFER_SIZE, ts_data = None\<rparr>"
  let ?s = "set_header a c ?str s"
  have l: "life_but a c s" using assms(1) by (rule in_hand_but)
  have "wf_tevent (tevent s)" "0 < c_fd c" using life_but_parts(2,3) [OF l] by auto
  then obtain e where e: "tevent s = Some e" "wf_event e" "0 \<le> c_fd c" by (auto simp: wf_tevent_def)
  have "slot e (c_fd c) \<noteq> None" using assms(1) e by (auto simp: in_hand_def tbl_def)
  with slot_range [OF e(2)] have "nat (c_fd c) < length (sched_array e)" by blast
  from unregister_result [OF e(2,3) this] obtain r e1 where "tgx_event_schedule_unregister (tevent s) (c_fd c) = Inr (r, Some e1)"
    unfolding e(1) by blast
  then obtain s1 where s1: "tgx_close_connection env a ?s = Inr s1" "conns s1 a = None"
    using close_frees [of ?s a "c\<lparr>httpRespHeader := ?str\<rparr>" r "Some e1" env] by (auto simp: set_header_def put_conn_def)
  have "copy_all False (m_grow env) (x # xs) (httpRespHeader c, 0) = Inr (False, ?str, 0)" for x xs
    using assms(3) by (simp add: string_check_boundry_def)
  with s1(1) assms(2-4) have "task_get_prepare_write_do env a s = Inr (- 1, s1)" "task_post_prepare_write_do env a s = Inr (- 1, s1)"
    by (simp_all add: task_get_prepare_write_do_def task_post_prepare_write_do_def get_conn_but [OF l] clear_start_def
        head_lines_def close_err_def del: copy_all.simps)
  moreover have "task_end_travelling env a (- 1) s1 = Inl UseAfterFree"
    using s1(2) by (simp add: task_end_travelling_def close_err_def tgx_close_connection_def get_conn_def)
  ultimately show ?thesis using assms(5) by (auto simp: run_ctask_def)
qed

subsection \<open>A server that runs\<close>

text \<open>
  A table of eight slots with the listening socket 3, an environment in which every call succeeds, and a
  run: a connection arrives, its request is read, parsed and answered.
\<close>

definition small_server :: server where
  "small_server = \<lparr>tevent = Some \<lparr>sched_array = (replicate 8 None)[3 := Some \<lparr>sc_fd = 3, sc_handler = Some H_accept, sc_context = None\<rparr>],
       maxfds = 8, usedfds = 1, epoll_fd = 4, epoll_events = Some (replicate 8 \<lparr>ep_events = 0, ep_fd = 0\<rparr>), engine = True\<rparr>,
     epoll = (\<lambda>_. None)(3 := Some EPOLLIN), conns = (\<lambda>_. None), brk_conn = 0, posted = [], wire = (\<lambda>_. []), listen_fd = 3, e_404 = ''./404.html''\<rparr>"

definition calm :: env where
  "calm = \<lparr>m_conn = True, m_reqbody = True, m_parts = True, m_wrap = True, m_task = True, m_node = True, m_buf = True, m_grow = None,
     m_parser = True, m_path = True, m_body = True, m_http = True, m_sched = True, k_ok = True,
     reads = [], writes = [], files = small_fs, contents = (\<lambda>_. Some ''content''), since = (\<lambda>_. 0), now = ''today'', date_of = (\<lambda>_. ''then''),
     calls = (\<lambda>_. []), parsed = (\<lambda>s _. length s), dl_opens = (\<lambda>_. True), dl_symbol = (\<lambda>_. True),
     run_module = (\<lambda>_ req resp. (0, req, resp))\<rparr>"

lemma small_server_start: "server_start small_server"
proof -
  let ?e = "the (tevent small_server)"
  have a: "sched_array ?e = (replicate 8 None)[3 := Some \<lparr>sc_fd = 3, sc_handler = Some H_accept, sc_context = None\<rparr>]" by (simp add: small_server_def)
  have w: "wf_event ?e"
    by (auto simp: wf_event_def in_range_def no_dup_def a nth_list_update split: if_splits) (simp_all add: small_server_def)
  have s: "slot ?e fd = (if fd = 3 then Some \<lparr>sc_fd = 3, sc_handler = Some H_accept, sc_context = None\<rparr> else None)" for fd
  proof (cases "fd = 3")
    case True
    then show ?thesis using slot_eq_Some [OF w, of 3] a by (auto intro!: exI [of _ 3])
  next
    case False
    then show ?thesis by (auto simp: slot_eq_None a nth_list_update)
  qed
  have "tbl small_server = [3 \<mapsto> (Some H_accept, None)]"
    using s by (auto simp: tbl_def fun_eq_iff lookup_def small_server_def)
  with w show ?thesis by (simp add: server_start_def wf_tevent_def small_server_def)
qed

lemma event_reachable:
  assumes "server_reachable s" and "fresh_fds s infds" and "serve_event env nb infds fd ev s = Inr (r, s')"
  shows "server_reachable s'"
  using assms by (blast intro: server_reachable.step server_step.event)

definition accepted :: server where
  "accepted = (case serve_event calm (\<lambda>_. True) [5] 3 TGX_EVENT_IN small_server of Inr (r, s) \<Rightarrow> s | Inl _ \<Rightarrow> small_server)"

lemma accepted_reachable: "server_reachable accepted"
proof -
  have "case serve_event calm (\<lambda>_. True) [5] 3 TGX_EVENT_IN small_server of Inr _ \<Rightarrow> True | Inl _ \<Rightarrow> False" by code_simp
  then obtain r where "serve_event calm (\<lambda>_. True) [5] 3 TGX_EVENT_IN small_server = Inr (r, accepted)"
    by (auto simp: accepted_def split: sum.splits)
  moreover have "fresh_fds small_server [5]" by (simp add: fresh_fds_def small_server_def)
  ultimately show ?thesis using event_reachable server_reachable.start [OF small_server_start] by blast
qed

theorem connection_lifecycle_witness:
  "tbl accepted 5 = Some (Some H_read, Some 0) \<and> (\<exists>c. conns accepted 0 = Some c \<and> c_fd c = 5 \<and> epoll accepted 5 = Some EPOLLIN)"
proof -
  have t: "tbl accepted 5 = Some (Some H_read, Some 0)" by code_simp
  from connection_lifecycle [OF accepted_reachable t] t show ?thesis by auto
qed

theorem no_use_after_free_witness:
  "serve_event calm (\<lambda>_. True) [] 5 TGX_EVENT_OUT accepted \<noteq> Inl UseAfterFree"
  using no_use_after_free [OF accepted_reachable, of "[]" calm] by (simp add: fresh_fds_def)

definition travelled :: server where
  "travelled = (case task_start_travelling calm 0 accepted of Inr (r, s, m) \<Rightarrow> s | Inl _ \<Rightarrow> accepted)"

lemma travelled_in_hand: "\<exists>c. in_hand 0 c travelled"
proof -
  have "tbl accepted 5 = Some (Some H_read, Some 0)" by code_simp
  then obtain c where c: "life_but 0 c accepted"
    using life_handler [OF life_reachable [OF accepted_reachable]] by blast
  have "case task_start_travelling calm 0 accepted of Inr (r, s, m) \<Rightarrow> r = 0 | Inl _ \<Rightarrow> False" by code_simp
  then obtain m where "task_start_travelling calm 0 accepted = Inr (0, travelled, m)"
    by (auto simp: travelled_def split: sum.splits)
  with start_travelling_safe [OF c, of calm] show ?thesis by auto
qed

theorem failed_buffer_double_close_witness:
  "run_ctask (calm\<lparr>m_buf := False\<rparr>) (T_get_prepare_write, 0, None) travelled = Inl UseAfterFree"
proof -
  from travelled_in_hand obtain c where c: "in_hand 0 c travelled" by blast
  have "case conns travelled 0 of Some d \<Rightarrow> ts_size (httpRespHeader d) = 0 \<and> http_status (c_parser d) = 0 | None \<Rightarrow> False" by code_simp
  then have "ts_size (httpRespHeader c) = 0" "http_status (c_parser c) = 0"
    using life_but_parts(4) [OF in_hand_but [OF c]] by auto
  then show ?thesis
    using failed_buffer_double_close [OF c, of "calm\<lparr>m_buf := False\<rparr>" T_get_prepare_write None]
    by (simp add: tgx_http_status_string_def)
qed

end
