(* ===== verification/ConnServe.thy ===== *)
theory ConnServe
  imports ConnLife
begin

section \<open>Requests and responses\<close>

text \<open>
  What the handlers and tasks of theory Connection put into the buffers and on the wire: the text of a
  request, the decision what to do with it, the header of the response and its body.
\<close>

subsection \<open>Text in the buffers\<close>

lemma decimal_short: "n < 10 ^ k \<Longrightarrow> 0 < k \<Longrightarrow> length (decimal n) \<le> k"
proof (induction n arbitrary: k rule: decimal.induct)
  case (1 n)
  show ?case
  proof (cases "n < 10")
    case True
    then show ?thesis using 1 by (simp add: decimal.simps [of n])
  next
    case False
    from 1(3) obtain j where j: "k = Suc j" by (cases k) auto
    moreover have "j \<noteq> 0" using 1(2) False j by (intro notI) simp
    ultimately have j: "k = Suc j" "0 < j" by simp_all
    then have "n div 10 < 10 ^ j" using 1(2) by (simp add: less_mult_imp_div_less mult.commute)
    from 1(1) [OF False this j(2)] j(1) False show ?thesis by (simp add: decimal.simps [of n])
  qed
qed

lemma decimal_plain: "c \<in> set (decimal n) \<Longrightarrow> is_digit c"
  using decimal_digits [of n] by (simp add: list_all_iff)

lemma no_digit [simp]: "\<not> is_digit NUL" "\<not> is_digit (CHR 0x0D)" "\<not> is_digit (CHR '' '')"
  by (simp_all add: is_digit_def NUL_def)

definition plain :: "string \<Rightarrow> bool" where
  "plain t \<longleftrightarrow> NUL \<notin> set t"

lemma plain_simps [simp]:
  "plain []" "plain (c # t) \<longleftrightarrow> c \<noteq> NUL \<and> plain t" "plain (t @ u) \<longleftrightarrow> plain t \<and> plain u" "plain CRLF" "plain (decimal n)"
  using decimal_plain [of NUL n] no_digit(1) by (auto simp: plain_def CRLF_def) (simp_all add: NUL_def)

lemma CRLF_length [simp]: "length CRLF = 2"
  by (simp add: CRLF_def)

subsection \<open>The header of a response\<close>

lemma status_lines: "x \<in> set tgx_http_status_string \<Longrightarrow> plain x \<and> length x < 50"
  by (auto simp: tgx_http_status_string_def NUL_def)

lemma mime_names: "x \<in> set tgx_mime_type_string \<Longrightarrow> plain x \<and> length x < 50"
  by (auto simp: tgx_mime_type_string_def NUL_def)

definition get_header :: "env \<Rightarrow> http_parser \<Rightarrow> statbuf \<Rightarrow> string" where
  "get_header env hp st = tgx_http_status_string ! http_status hp @ CRLF @ ''Server: tinyos-graphics/0.0.1'' @ CRLF @ ''Connection: Close'' @ CRLF @
     ''Date: '' @ now env @ CRLF @ ''Last-modified: '' @ date_of env (st_mtime st) @ CRLF @
     ''Content-Type: '' @ tgx_mime_type_string ! mime_type hp @ CRLF @ ''Content-Length: '' @ decimal (st_size st) @ CRLF @ CRLF"

text \<open>The dates are what \<open>strftime\<close> puts into an array of 256 characters, the size is an \<open>off_t\<close>.\<close>

definition dates_ok :: "env \<Rightarrow> statbuf \<Rightarrow> bool" where
  "dates_ok env st \<longleftrightarrow> plain (now env) \<and> length (now env) < 256 \<and> plain (date_of env (st_mtime st)) \<and>
     length (date_of env (st_mtime st)) < 256 \<and> st_size st < 10 ^ 19"

lemma get_header_fits:
  assumes "wf_http hp" and "dates_ok env st"
  shows "plain (get_header env hp st)" and "length (get_header env hp st) < MAX_BUFFER_SIZE"
proof -
  have "plain (tgx_http_status_string ! http_status hp)" "length (tgx_http_status_string ! http_status hp) < 50"
    "plain (tgx_mime_type_string ! mime_type hp)" "length (tgx_mime_type_string ! mime_type hp) < 50"
    using assms(1) status_lines mime_names by (auto simp: wf_http_def)
  moreover have "length (decimal (st_size st)) \<le> 19" using assms(2) decimal_short [of "st_size st" 19] by (simp add: dates_ok_def)
  ultimately show "plain (get_header env hp st)" "length (get_header env hp st) < MAX_BUFFER_SIZE"
    using assms(2) by (simp_all add: get_header_def dates_ok_def NUL_def MAX_BUFFER_SIZE_def)
qed

lemma copy_all_chain:
  assumes "wf_buffer str" and "ts \<noteq> []" and "length (concat (ts @ us)) < MAX_BUFFER_SIZE"
  obtains str1 str2 where "copy_all True ro ts (str, 0) = Inr (True, str1, length (concat ts))"
    "copy_all True ro us (str1, length (concat ts)) = Inr (True, str2, length (concat (ts @ us)))" "holds_text str2 (concat (ts @ us))"
proof -
  from copy_all_starts [OF assms(1,2), of ro] assms(3) obtain str1 where
    s1: "copy_all True ro ts (str, 0) = Inr (True, str1, length (concat ts))" "holds_text str1 (concat ts)" by auto
  from copy_all_holds [OF s1(2), of us True ro] assms(3) obtain str2 where
    "copy_all True ro us (str1, length (concat ts)) = Inr (True, str2, length (concat (ts @ us)))" "holds_text str2 (concat (ts @ us))"
    by auto
  with s1(1) that show thesis by blast
qed

text \<open>What the header task does to a connection whose file exists.\<close>

lemma get_prepare_write_result:
  assumes "conns s a = Some c" and "wf_http (c_parser c)" and "wf_buffer (httpRespHeader c)" and "m_buf env"
    and "err_path s c = Inr c1" and "files env (path (c_parser c1)) = Some st" and "dates_ok env st"
  obtains str d where "task_get_prepare_write_do env a s = Inr (0, put_conn a (c1\<lparr>httpRespHeader := str\<rparr>) s)"
    "ts_data str = Some d" "full_size str" "cstr d = Inr (get_header env (c_parser c) st)"
proof -
  let ?status = "tgx_http_status_string ! http_status (c_parser c)"
  let ?mime = "tgx_mime_type_string ! mime_type (c_parser c)"
  have c1: "mime_type (c_parser c1) = mime_type (c_parser c)"
    using assms(5) by (auto simp: err_path_def bind_ub_eq_Inr split: if_splits)
  have in_tables: "peek tgx_http_status_string (int (http_status (c_parser c))) = Inr ?status"
      "peek tgx_mime_type_string (int (mime_type (c_parser c1))) = Inr ?mime"
    using assms(2) c1 by (simp_all add: wf_http_def)
  have t: "concat (head_lines ?status @ get_lines env ?mime st) = get_header env (c_parser c) st"
    by (simp add: head_lines_def get_lines_def get_header_def)
  obtain str0 where str0: "clear_start (httpRespHeader c) = Inr str0" "wf_buffer str0" using clear_start_wf [OF assms(3)] by blast
  obtain str1 str2 where str12: "copy_all True (m_grow env) (head_lines ?status) (str0, 0) = Inr (True, str1, length (concat (head_lines ?status)))"
      "copy_all True (m_grow env) (get_lines env ?mime st) (str1, length (concat (head_lines ?status))) =
         Inr (True, str2, length (get_header env (c_parser c) st))" "holds_text str2 (get_header env (c_parser c) st)"
    using copy_all_chain [OF str0(2), of "head_lines ?status" "get_lines env ?mime st" "m_grow env"]
      get_header_fits [OF assms(2,7)] unfolding t by (auto simp: head_lines_def)
  obtain str d where str: "end_string str2 (int (length (get_header env (c_parser c) st))) = Inr str" "ts_data str = Some d"
      "full_size str" "cstr d = Inr (get_header env (c_parser c) st)"
    using end_string_holds [OF str12(3)] get_header_fits [OF assms(2,7)] unfolding plain_def by blast
  have "task_get_prepare_write_do env a s = Inr (0, put_conn a (c1\<lparr>httpRespHeader := str\<rparr>) s)"
    using assms(1,4-6) in_tables str0(1) str12(1,2) str(1)
    by (simp add: task_get_prepare_write_do_def get_conn_def set_header_def)
  with str show thesis by (intro that)
qed

subsection \<open>From the task to the last byte\<close>

lemma set_handler_result_ok:
  assumes "life_but a c s" and "tbl s (c_fd c) = Some (Some h0, x)"
  obtains te where "set_handler (c_fd c) h s = Inr (0, s\<lparr>tevent := te\<rparr>)" "tbl (s\<lparr>tevent := te\<rparr>) (c_fd c) = Some (Some h, Some a)"
    "life_but a c (s\<lparr>tevent := te\<rparr>)"
proof -
  note P = life_but_parts [OF assms(1)]
  obtain e where e: "tevent s = Some e" "wf_event e" "0 \<le> c_fd c" using P(2,3) by (auto simp: wf_tevent_def)
  have t: "lookup (Some e) (c_fd c) = Some (Some h0, x)" using assms(2) e(1) by (simp add: tbl_def)
  then have "slot e (c_fd c) \<noteq> None" by auto
  with slot_range [OF e(2)] have "nat (c_fd c) < length (sched_array e)" by blast
  from set_handler_result [OF e(2,3) this, of "Some h" None] obtain r1 e1 where
    "tgx_event_set_handler (Some e) (c_fd c) (Some h) None = Inr (r1, Some e1)"
    "r1 = (case lookup (Some e) (c_fd c) of Some (Some _, _) \<Rightarrow> if (None :: addr option) = None then 0 else - 1 | _ \<Rightarrow> - 1)"
    by blast
  then have r: "tgx_event_set_handler (Some e) (c_fd c) (Some h) None = Inr (0, Some e1)" unfolding t by simp
  then have "set_handler (c_fd c) h s = Inr (0, s\<lparr>tevent := Some e1\<rparr>)" by (simp add: set_handler_def e(1))
  with set_handler_safe [OF assms(1), of h] assms(2) show thesis by (intro that [of "Some e1"]) auto
qed

lemma end_travelling_result:
  assumes "in_hand a c s" and "k_ok env"
  obtains s' where "task_end_travelling env a 0 s = Inr (0, s')" "conns s' a = Some (c\<lparr>rw_pos := 0\<rparr>)" "wire s' = wire s"
    "tbl s' (c_fd c) = Some (Some H_write_header, Some a)" "life s'"
proof -
  let ?c = "c\<lparr>rw_pos := 0\<rparr>"
  let ?s = "put_conn a ?c s"
  have h: "in_hand a ?c ?s"
    using life_but_parts(5) [OF in_hand_but [OF assms(1)]] by (intro in_hand_put [OF assms(1)]) auto
  then have t: "tbl ?s (c_fd ?c) = Some (Some H_noop, Some a)" "epoll ?s (c_fd c) = None" by (simp_all add: in_hand_def)
  from set_handler_result_ok [OF in_hand_but [OF h] t(1), of H_write_header] obtain te where
    te: "set_handler (c_fd c) H_write_header ?s = Inr (0, ?s\<lparr>tevent := te\<rparr>)"
      "tbl (?s\<lparr>tevent := te\<rparr>) (c_fd c) = Some (Some H_write_header, Some a)" "life_but a ?c (?s\<lparr>tevent := te\<rparr>)" by auto
  let ?s' = "?s\<lparr>tevent := te, epoll := (epoll ?s)(c_fd c \<mapsto> EPOLLOUT)\<rparr>"
  have "ctl env TGX_EVENT_CTL_ADD (c_fd c) TGX_EVENT_OUT (?s\<lparr>tevent := te\<rparr>) = (0, ?s')"
    using life_but_parts(2,3) [OF te(3)] t(2) assms(2) by (simp add: ctl_simps)
  then have r: "task_end_travelling env a 0 s = Inr (0, ?s')"
    by (simp add: task_end_travelling_def get_conn_but [OF in_hand_but [OF assms(1)]] te(1))
  with end_travelling_safe [OF assms(1), of env 0] have "life ?s'" by simp
  with r te(2) show thesis by (intro that [of ?s']) (auto simp: put_conn_def tbl_def)
qed

lemma serve_event_tbl:
  assumes "life s" and "tbl s fd = Some (Some h, ctx)"
  shows "serve_event env nb infds fd ev s = call_handler env nb infds h ctx ev s"
proof -
  obtain e where e: "tevent s = Some e" "wf_event e" using assms(1) baseD(1) by (fastforce simp: life_def wf_tevent_def)
  have t: "lookup (Some e) fd = Some (Some h, ctx)" using assms(2) e(1) by (simp add: tbl_def)
  then have "slot e fd \<noteq> None" by auto
  with slot_range [OF e(2)] have "0 \<le> fd \<and> nat fd < length (sched_array e)" by blast
  then have "tgx_event_get_handler (tevent s) fd = Inr (Some h)" "tgx_event_get_context (tevent s) fd = Inr ctx"
    using get_result [OF e(2), of fd] t unfolding e(1) by auto
  then show ?thesis by (simp add: serve_event_def)
qed

lemma write_header_result:
  assumes "life s" and "tbl s (c_fd c) = Some (Some H_write_header, Some a)" and "conns s a = Some c"
    and "0 \<le> rw_pos c" and "rw_pos c \<le> int (length txt)"
    and "ts_data (httpRespHeader c) = Some d" and "ts_size (httpRespHeader c) \<noteq> 0" and "cstr d = Inr txt"
    and "writes env = map WBytes ns" and "length txt \<le> sum_list ns" and "ns \<noteq> []" and "http_method (c_parser c) = ''GET''"
  obtains s' where "tgx_connection_handler_write_header env a TGX_EVENT_OUT s = Inr (0, s')" "conns s' a = Some (c\<lparr>rw_pos := 0\<rparr>)"
    "wire s' = (wire s)(c_fd c := wire s (c_fd c) @ drop (nat (rw_pos c)) txt)"
    "tbl s' (c_fd c) = Some (Some H_write_file, Some a)" "life s'"
proof -
  from life_handler [OF assms(1,2)] assms(3) have lb: "life_but a c s" and sv: "served s c H_write_header a" by auto
  let ?s = "put_conn a (c\<lparr>rw_pos := 0\<rparr>) (s\<lparr>wire := (wire s)(c_fd c := wire s (c_fd c) @ drop (nat (rw_pos c)) txt)\<rparr>)"
  have lb1: "life_but a (c\<lparr>rw_pos := 0\<rparr>) ?s" using written(1) [OF lb assms(2) sv, of 0] by blast
  have t: "tbl ?s (c_fd (c\<lparr>rw_pos := 0\<rparr>)) = Some (Some H_write_header, Some a)" using assms(2) by (simp add: tbl_def put_conn_def)
  from set_handler_result_ok [OF lb1 t, of H_write_file] obtain te where
    te: "set_handler (c_fd c) H_write_file ?s = Inr (0, ?s\<lparr>tevent := te\<rparr>)"
      "tbl (?s\<lparr>tevent := te\<rparr>) (c_fd c) = Some (Some H_write_file, Some a)" by auto
  have "write_loop txt (map WBytes ns) (rw_pos c) [] = Inr (WDone, int (length txt), drop (nat (rw_pos c)) txt)"
    using write_loop_done [of "rw_pos c" "txt" ns "[]"] assms(4,5,10,11) by simp
  then have r: "tgx_connection_handler_write_header env a TGX_EVENT_OUT s = Inr (0, ?s\<lparr>tevent := te\<rparr>)"
    using assms(6-9,12) te(1)
    by (simp add: tgx_connection_handler_write_header_def get_conn_but [OF lb] strncmp_eq_def TGX_EVENT_OUT_def Let_def)
  with handler_write_header_safe [OF assms(1,2), of env TGX_EVENT_OUT] have "life (?s\<lparr>tevent := te\<rparr>)" by simp
  with r te(2) show thesis by (intro that [of "?s\<lparr>tevent := te\<rparr>"]) (auto simp: put_conn_def)
qed

lemma file_loop_done:
  assumes "pos \<le> length txt" and "sum_list ns \<ge> length txt - pos" and "ns \<noteq> []"
  shows "file_loop txt (length txt) (map WBytes ns) pos sent = (WDone, length txt, sent @ drop pos txt)"
  using assms
proof (induction ns arbitrary: pos sent)
  case (Cons n ns)
  define k where "k = min n (length txt - pos)"
  have k: "take k (drop pos txt) @ drop (pos + k) txt = drop pos txt"
    by (metis append_take_drop_id drop_drop add.commute)
  show ?case
  proof (cases "pos + k = length txt")
    case True
    then have "k = length txt - pos" by simp
    with True show ?thesis by (simp add: k_def [symmetric] Let_def)
  next
    case False
    then have k': "k = n" "pos + k \<le> length txt" using Cons.prems by (auto simp: k_def min_def split: if_splits)
    moreover have "ns \<noteq> []" "sum_list ns \<ge> length txt - (pos + k)" using False k' Cons.prems by auto
    ultimately show ?thesis using Cons.IH [of "pos + k" "sent @ take k (drop pos txt)"] False k
      by (simp add: k_def [symmetric] Let_def)
  qed
qed simp

lemma file_loop_sent:
  "file_loop txt clen ws pos sent = (let (r, p, more) = file_loop txt clen ws pos [] in (r, p, sent @ more))"
proof (induction ws arbitrary: pos sent)
  case (Cons w ws)
  show ?case
  proof (cases w)
    case (WBytes n)
    define k where "k = min n (min (clen - pos) (length txt - pos))"
    show ?thesis
      using Cons.IH [of "pos + k" "sent @ take k (drop pos txt)"] Cons.IH [of "pos + k" "take k (drop pos txt)"] WBytes
      by (simp add: k_def [symmetric] Let_def split: prod.split)
  qed simp_all
qed simp

lemma close_result:
  assumes "life_but a c s" and "tbl s (c_fd c) = Some (h, x)"
  obtains s' where "tgx_close_connection env a s = Inr s'" "conns s' a = None" "wire s' = wire s"
proof -
  note P = life_but_parts [OF assms(1)]
  obtain e where e: "tevent s = Some e" "wf_event e" "0 \<le> c_fd c" using P(2,3) by (auto simp: wf_tevent_def)
  have "slot e (c_fd c) \<noteq> None" using assms(2) e(1) by (auto simp: tbl_def)
  with slot_range [OF e(2)] have "nat (c_fd c) < length (sched_array e)" by blast
  from unregister_result [OF e(2,3) this] obtain r e1 where u: "tgx_event_schedule_unregister (tevent s) (c_fd c) = Inr (r, Some e1)"
    unfolding e(1) by blast
  have w: "wire (snd (ctl env op fd ev t)) = wire t" for op fd ev t by (simp add: ctl_def split: prod.split)
  from u P(4) w show thesis
    by (cases "travelling c") (auto simp: tgx_close_connection_def get_conn_def tgx_free_connection_def Let_def intro!: that)
qed

lemma write_file_result:
  assumes "life s" and "tbl s (c_fd c) = Some (Some H_write_file, Some a)" and "conns s a = Some c" and "rw_pos c = 0"
    and "files env (path (c_parser c)) = Some st" and "st_reg st" and "contents env (path (c_parser c)) = Some txt"
    and "st_size st = length txt" and "writes env = map WBytes ns" and "length txt \<le> sum_list ns" and "ns \<noteq> []"
  obtains s' where "tgx_connection_handler_get_method_write_file env a TGX_EVENT_OUT s = Inr (0, s')"
    "conns s' a = None" "wire s' = (wire s)(c_fd c := wire s (c_fd c) @ txt)"
proof -
  from life_handler [OF assms(1,2)] assms(3) have lb: "life_but a c s" and sv: "served s c H_write_file a" by auto
  let ?s = "put_conn a (c\<lparr>rw_pos := int (length txt)\<rparr>) (s\<lparr>wire := (wire s)(c_fd c := wire s (c_fd c) @ txt)\<rparr>)"
  have lb1: "life_but a (c\<lparr>rw_pos := int (length txt)\<rparr>) ?s" using written(1) [OF lb assms(2) sv] by blast
  have "tbl ?s (c_fd (c\<lparr>rw_pos := int (length txt)\<rparr>)) = Some (Some H_write_file, Some a)"
    using assms(2) by (simp add: tbl_def put_conn_def)
  from close_result [OF lb1 this, of env] obtain s' where
    s': "tgx_close_connection env a ?s = Inr s'" "conns s' a = None" "wire s' = wire ?s" by blast
  have "file_loop txt (length txt) (map WBytes ns) 0 [] = (WDone, length txt, txt)"
    using file_loop_done [of 0 "txt" ns "[]"] assms(10,11) by simp
  with assms(4-9) s'(1) have "tgx_connection_handler_get_method_write_file env a TGX_EVENT_OUT s = Inr (0, s')"
    by (simp add: tgx_connection_handler_get_method_write_file_def get_conn_but [OF lb] TGX_EVENT_OUT_def)
  with s'(2,3) show thesis by (intro that) (auto simp: put_conn_def)
qed


definition parsed_request :: http_parser where
  "parsed_request = new_http_parser\<lparr>path := ''./a.html'', http_method := ''GET''\<rparr>"

lemma parsed_request_wf: "wf_http parsed_request"
  using new_http_parser_wf by (simp add: parsed_request_def wf_http_def TGX_MAX_PATH_LENGTH_def)


subsection \<open>A socket that is full\<close>

text \<open>
  \<open>rw_pos\<close> is increased by the result of \<open>write\<close> even when that is \<open>-1\<close>. If the socket takes \<open>k\<close> bytes of
  the header and is then full, the next event sends the \<open>k\<close>-th byte again; if it is full at once, the next
  event passes a pointer before the buffer to \<open>write\<close>.
\<close>

theorem full_socket_steps_back:
  assumes "life s" and "tbl s (c_fd c) = Some (Some H_write_header, Some a)" and "conns s a = Some c" and "rw_pos c = 0"
    and "ts_data (httpRespHeader c) = Some d" and "ts_size (httpRespHeader c) \<noteq> 0" and "cstr d = Inr txt" and "k < length txt"
    and "writes env1 = (if k = 0 then [WAgain] else [WBytes k, WAgain])" and "writes env2 = [WBytes (length txt)]"
    and "http_method (c_parser c) = ''GET''"
  shows "\<exists>s1. tgx_connection_handler_write_header env1 a TGX_EVENT_OUT s = Inr (0, s1) \<and>
    (if k = 0 then tgx_connection_handler_write_header env2 a TGX_EVENT_OUT s1 = Inl OutOfBounds
     else \<exists>s2. tgx_connection_handler_write_header env2 a TGX_EVENT_OUT s1 = Inr (0, s2) \<and>
       wire s2 (c_fd c) = wire s (c_fd c) @ take k txt @ drop (k - 1) txt)"
proof -
  from life_handler [OF assms(1,2)] assms(3) have lb: "life_but a c s" and sv: "served s c H_write_header a" by auto
  let ?c = "c\<lparr>rw_pos := int k - 1\<rparr>"
  let ?s1 = "put_conn a ?c (s\<lparr>wire := (wire s)(c_fd c := wire s (c_fd c) @ take k txt)\<rparr>)"
  have "write_loop txt (writes env1) 0 [] = Inr (WWait, int k - 1, take k txt)"
    using assms(8,9) by (simp add: readable_def Let_def)
  then have r1: "tgx_connection_handler_write_header env1 a TGX_EVENT_OUT s = Inr (0, ?s1)"
    using assms(4-7) by (simp add: tgx_connection_handler_write_header_def get_conn_but [OF lb] TGX_EVENT_OUT_def Let_def)
  have l1: "life ?s1" and lb1: "life_but a ?c ?s1" using written [OF lb assms(2) sv] by auto
  have t1: "tbl ?s1 (c_fd ?c) = Some (Some H_write_header, Some a)" using assms(2) by (simp add: tbl_def put_conn_def)
  show ?thesis
  proof (cases "k = 0")
    case True
    have "tgx_connection_handler_write_header env2 a TGX_EVENT_OUT ?s1 = Inl OutOfBounds"
      using assms(5-7,10) True
      by (simp add: tgx_connection_handler_write_header_def get_conn_def put_conn_def TGX_EVENT_OUT_def readable_def)
    with r1 True show ?thesis by simp
  next
    case False
    obtain s2 where "tgx_connection_handler_write_header env2 a TGX_EVENT_OUT ?s1 = Inr (0, s2)"
        "wire s2 = (wire ?s1)(c_fd c := wire ?s1 (c_fd c) @ drop (nat (int k - 1)) txt)"
      using write_header_result [OF l1 t1, of "txt" d env2 "[length txt]"] life_but_parts(4) [OF lb1] assms(5-8,10,11) False by auto
    moreover have "nat (int k - 1) = k - 1" by simp
    ultimately show ?thesis using r1 False by (auto simp: put_conn_def)
  qed
qed


text \<open>A server whose connection is ready to be written to, with a given header text.\<close>

definition padded :: "string \<Rightarrow> char list" where
  "padded t = t @ replicate (MAX_BUFFER_SIZE - length t) NUL"

definition answering :: "string \<Rightarrow> server" where
  "answering t = (case task_end_travelling calm 0 0 (case conns travelled 0 of None \<Rightarrow> travelled | Some c \<Rightarrow>
      put_conn 0 (c\<lparr>c_parser := parsed_request, httpRespHeader := \<lparr>ts_size = MAX_BUFFER_SIZE,
        ts_data = Some (padded t)\<rparr>\<rparr>) travelled)
    of Inr (r, s) \<Rightarrow> s | Inl _ \<Rightarrow> travelled)"

lemma answering_state:
  assumes "length t < MAX_BUFFER_SIZE"
  obtains c where "life (answering t)" "conns (answering t) 0 = Some c" "tbl (answering t) (c_fd c) = Some (Some H_write_header, Some 0)"
    "rw_pos c = 0" "httpRespHeader c = \<lparr>ts_size = MAX_BUFFER_SIZE, ts_data = Some (padded t)\<rparr>"
    "c_parser c = parsed_request" "wire (answering t) = wire travelled"
proof -
  from travelled_in_hand obtain c0 where c0: "in_hand 0 c0 travelled" by blast
  let ?h = "\<lparr>ts_size = MAX_BUFFER_SIZE, ts_data = Some (padded t)\<rparr>"
  let ?c = "c0\<lparr>c_parser := parsed_request, httpRespHeader := ?h\<rparr>"
  have "in_hand 0 ?c (put_conn 0 ?c travelled)"
    using assms by (intro in_hand_put [OF c0]) (auto simp: wf_buffer_def full_size_def padded_def)
  from end_travelling_result [OF this, of calm] obtain s where
    s: "task_end_travelling calm 0 0 (put_conn 0 ?c travelled) = Inr (0, s)" "conns s 0 = Some (?c\<lparr>rw_pos := 0\<rparr>)"
      "wire s = wire (put_conn 0 ?c travelled)" "tbl s (c_fd ?c) = Some (Some H_write_header, Some 0)" "life s"
    by (auto simp: calm_def)
  have "answering t = s"
    using s(1) life_but_parts(4) [OF in_hand_but [OF c0]] by (simp add: answering_def)
  with s show thesis by (intro that [of "?c\<lparr>rw_pos := 0\<rparr>"]) (auto simp: put_conn_def)
qed

lemma cstr_padded: "plain t \<Longrightarrow> length t < MAX_BUFFER_SIZE \<Longrightarrow> cstr (padded t) = Inr t"
  using cstr_terminated [of t "replicate (MAX_BUFFER_SIZE - length t - 1) NUL"]
  by (cases "MAX_BUFFER_SIZE - length t") (simp_all add: plain_def padded_def)

theorem full_socket_steps_back_witness:
  "\<exists>s1 s2. tgx_connection_handler_write_header (calm\<lparr>writes := [WBytes 2, WAgain]\<rparr>) 0 TGX_EVENT_OUT (answering ''HTTP'') = Inr (0, s1) \<and>
     tgx_connection_handler_write_header (calm\<lparr>writes := [WBytes 4]\<rparr>) 0 TGX_EVENT_OUT s1 = Inr (0, s2) \<and>
     (\<exists>fd. wire s2 fd = wire travelled fd @ ''HTTTP'')"
proof -
  have l: "length ''HTTP'' < MAX_BUFFER_SIZE" by (simp add: MAX_BUFFER_SIZE_def)
  obtain c where c: "life (answering ''HTTP'')" "conns (answering ''HTTP'') 0 = Some c"
    "tbl (answering ''HTTP'') (c_fd c) = Some (Some H_write_header, Some 0)" "rw_pos c = 0"
    "httpRespHeader c = \<lparr>ts_size = MAX_BUFFER_SIZE, ts_data = Some (padded ''HTTP'')\<rparr>"
    "c_parser c = parsed_request" "wire (answering ''HTTP'') = wire travelled"
    using answering_state [OF l] by blast
  have t: "cstr (padded ''HTTP'') = Inr ''HTTP''"
    by (rule cstr_padded) (use l in \<open>auto simp: NUL_def\<close>)
  have p: "http_method parsed_request = ''GET''" by (simp add: parsed_request_def)
  have z: "MAX_BUFFER_SIZE \<noteq> 0" by (simp add: MAX_BUFFER_SIZE_def)
  from full_socket_steps_back [OF c(1,3,2,4), of "padded ''HTTP''" "''HTTP''" 2
      "calm\<lparr>writes := [WBytes 2, WAgain]\<rparr>" "calm\<lparr>writes := [WBytes 4]\<rparr>"] c(5-7) t p z
  show ?thesis by auto
qed

text \<open>A server that has sent its header and is about to send the file.\<close>

lemma sending_state:
  obtains s c where "life s" "conns s 0 = Some c" "tbl s (c_fd c) = Some (Some H_write_file, Some 0)" "rw_pos c = 0" "c_parser c = parsed_request"
proof -
  have l: "length ''HTTP'' < MAX_BUFFER_SIZE" by (simp add: MAX_BUFFER_SIZE_def)
  obtain c where c: "life (answering ''HTTP'')" "conns (answering ''HTTP'') 0 = Some c"
    "tbl (answering ''HTTP'') (c_fd c) = Some (Some H_write_header, Some 0)" "rw_pos c = 0"
    "httpRespHeader c = \<lparr>ts_size = MAX_BUFFER_SIZE, ts_data = Some (padded ''HTTP'')\<rparr>" "c_parser c = parsed_request"
    using answering_state [OF l] by blast
  have t: "cstr (padded ''HTTP'') = Inr ''HTTP''" by (rule cstr_padded) (use l in \<open>auto simp: NUL_def\<close>)
  have p: "http_method parsed_request = ''GET''" by (simp add: parsed_request_def)
  have z: "MAX_BUFFER_SIZE \<noteq> 0" by (simp add: MAX_BUFFER_SIZE_def)
  from write_header_result [OF c(1,3,2), of "''HTTP''" "padded ''HTTP''" "calm\<lparr>writes := [WBytes 4]\<rparr>" "[4]"] c(4-6) t p z
  obtain s where "life s" "conns s 0 = Some (c\<lparr>rw_pos := 0\<rparr>)" "tbl s (c_fd c) = Some (Some H_write_file, Some 0)" by auto
  with c(6) show thesis by (intro that [of s "c\<lparr>rw_pos := 0\<rparr>"]) auto
qed


subsection \<open>Reading a request\<close>

text \<open>What has been read of a request so far is at the start of the buffer, which is allocated by the first read.\<close>

definition has_read :: "conn \<Rightarrow> string \<Rightarrow> bool" where
  "has_read c t \<longleftrightarrow> rw_pos c = int (length t) \<and> length t < MAX_BUFFER_SIZE \<and>
     (holds_text (httpReqBuf c) t \<or> ts_size (httpReqBuf c) = 0 \<and> t = [])"

text \<open>The buffer check of the loop: afterwards the buffer is there.\<close>

lemma check_has_read:
  assumes "has_read c t" and "m_buf env"
  obtains buf where "string_check_boundry (m_buf env) (m_grow env) (httpReqBuf c) (rw_pos c) = (0, buf)" "holds_text buf t"
    "room (c\<lparr>httpReqBuf := buf\<rparr>) = MAX_BUFFER_SIZE - length t" "has_read (c\<lparr>httpReqBuf := buf\<rparr>) t"
proof -
  define buf where "buf = (if ts_size (httpReqBuf c) = 0 then \<lparr>ts_size = MAX_BUFFER_SIZE, ts_data = Some (replicate MAX_BUFFER_SIZE NUL)\<rparr>
    else httpReqBuf c)"
  have h: "holds_text buf t"
    using assms(1) full_size_holds [OF fresh_full_size] by (auto simp: has_read_def buf_def holds_text_def full_size_def)
  have p: "rw_pos c = int (length t)" "length t < MAX_BUFFER_SIZE" using assms(1) by (simp_all add: has_read_def)
  have "string_check_boundry (m_buf env) (m_grow env) (httpReqBuf c) (rw_pos c) = (0, buf)"
  proof (cases "ts_size (httpReqBuf c) = 0")
    case True
    then show ?thesis using p(1) assms(2) check_boundry_fresh [OF True, of "int (length t)" "m_grow env"] by (simp add: buf_def)
  next
    case False
    then have "full_size (httpReqBuf c)" using h by (simp add: buf_def holds_text_def)
    with False p(1) show ?thesis using check_boundry_full [of "httpReqBuf c" "int (length t)"] by (simp add: buf_def)
  qed
  moreover have "room (c\<lparr>httpReqBuf := buf\<rparr>) = MAX_BUFFER_SIZE - length t"
  proof -
    have "ts_size buf = MAX_BUFFER_SIZE" using h by (simp add: holds_text_def full_size_def)
    moreover have "(int MAX_BUFFER_SIZE - int (length t)) mod 2 ^ 64 = int (MAX_BUFFER_SIZE - length t)"
      using p(2) by (simp add: MAX_BUFFER_SIZE_def)
    ultimately show ?thesis using p(1) by (simp add: room_def)
  qed
  ultimately show thesis using h p by (intro that [of buf]) (auto simp: has_read_def)
qed

lemma store_at_holds:
  assumes "holds_text str t" and "length t + length u \<le> MAX_BUFFER_SIZE"
  obtains str' where "store_at str (int (length t)) u = Inr str'" "holds_text str' (t @ u)"
proof -
  from assms(1) obtain r where r: "ts_data str = Some (t @ r)" "length (t @ r) = MAX_BUFFER_SIZE" "ts_size str = MAX_BUFFER_SIZE"
    by (auto simp: holds_text_def full_size_def)
  let ?str = "str\<lparr>ts_data := Some (t @ u @ drop (length u) r)\<rparr>"
  have "store_at str (int (length t)) u = Inr ?str" using r assms(2) by (simp add: store_at_def)
  moreover have "holds_text ?str (t @ u)" using r assms(2) by (auto simp: holds_text_def full_size_def)
  ultimately show thesis by (rule that)
qed

lemma read_loop_collects:
  assumes "has_read c t" and "m_buf env" and "\<forall>d \<in> set ds. d \<noteq> []" and "length (t @ concat ds) < MAX_BUFFER_SIZE"
  shows "\<exists>buf. read_loop env (map RData ds) c = Inr (True, c\<lparr>httpReqBuf := buf, rw_pos := int (length (t @ concat ds))\<rparr>) \<and>
    holds_text buf (t @ concat ds)"
  using assms(1,3,4)
proof (induction ds arbitrary: c t)
  case Nil
  obtain buf where buf: "string_check_boundry (m_buf env) (m_grow env) (httpReqBuf c) (rw_pos c) = (0, buf)" "holds_text buf t"
    "room (c\<lparr>httpReqBuf := buf\<rparr>) = MAX_BUFFER_SIZE - length t" using check_has_read [OF Nil(1) assms(2)] by blast
  have "rw_pos c = int (length t)" using Nil by (simp add: has_read_def)
  with Nil(3) buf show ?case by (subst read_loop.simps) (auto intro!: exI [of _ buf])
next
  case (Cons d ds)
  obtain buf where buf: "string_check_boundry (m_buf env) (m_grow env) (httpReqBuf c) (rw_pos c) = (0, buf)" "holds_text buf t"
    "room (c\<lparr>httpReqBuf := buf\<rparr>) = MAX_BUFFER_SIZE - length t" using check_has_read [OF Cons.prems(1) assms(2)] by blast
  have p: "rw_pos c = int (length t)" using Cons.prems(1) by (simp add: has_read_def)
  have d: "d \<noteq> []" "length d \<le> MAX_BUFFER_SIZE - length t" "length t < MAX_BUFFER_SIZE" using Cons.prems by auto
  obtain buf1 where buf1: "store_at buf (int (length t)) d = Inr buf1" "holds_text buf1 (t @ d)"
    using store_at_holds [OF buf(2), of d] Cons.prems(3) by auto
  let ?c = "c\<lparr>httpReqBuf := buf1, rw_pos := int (length t) + int (length d)\<rparr>"
  have step: "read_loop env (map RData (d # ds)) c = read_loop env (map RData ds) ?c"
    using buf(1,3) buf1(1) p d by (subst read_loop.simps) simp
  have "has_read ?c (t @ d)" using buf1(2) Cons.prems(3) by (simp add: has_read_def)
  from Cons.IH [OF this] Cons.prems(2,3) obtain buf2 where
    "read_loop env (map RData ds) ?c = Inr (True, ?c\<lparr>httpReqBuf := buf2, rw_pos := int (length ((t @ d) @ concat ds))\<rparr>)"
    "holds_text buf2 ((t @ d) @ concat ds)" by auto
  with step show ?case by (intro exI [of _ buf2]) (simp add: add.assoc)
qed

lemma start_travelling_result:
  assumes "life_but a c s" and "tbl s (c_fd c) = Some (Some h0, x)" and "epoll s (c_fd c) \<noteq> None"
  obtains s' where "task_start_travelling env a s = Inr (0, s', None)" "conns s' a = Some (c\<lparr>rw_pos := 0, travelling := True\<rparr>)"
    "posted s' = posted s" "epoll s' (c_fd c) = None"
proof -
  let ?c = "c\<lparr>rw_pos := 0\<rparr>"
  let ?s = "put_conn a ?c s"
  have lb: "life_but a ?c ?s" using assms(1) life_but_parts(5) by (intro life_but_put [of a c]) auto
  have "tbl ?s (c_fd ?c) = Some (Some h0, x)" using assms(2) by (simp add: tbl_def put_conn_def)
  from set_handler_result_ok [OF lb this, of H_noop] obtain te where
    te: "set_handler (c_fd c) H_noop ?s = Inr (0, ?s\<lparr>tevent := te\<rparr>)" "life_but a ?c (?s\<lparr>tevent := te\<rparr>)" by auto
  let ?s1 = "?s\<lparr>tevent := te, epoll := (epoll s)(c_fd c := None)\<rparr>"
  have e: "epoll (?s\<lparr>tevent := te\<rparr>) = epoll s" by (simp add: put_conn_def)
  have "ctl env TGX_EVENT_CTL_DEL (c_fd c) 0 (?s\<lparr>tevent := te\<rparr>) = (0, ?s1)"
    using life_but_parts(2,3) [OF te(2)] assms(3) e by (simp add: ctl_simps)
  then have "task_start_travelling env a s = Inr (0, put_conn a (c\<lparr>rw_pos := 0, travelling := True\<rparr>) ?s1, None)"
    using te(1) by (simp add: task_start_travelling_def get_conn_but [OF assms(1)])
  then show thesis
    by (intro that [of "put_conn a (c\<lparr>rw_pos := 0, travelling := True\<rparr>) ?s1"]) (auto simp: put_conn_def)
qed

lemma verdict_get:
  assumes "NUL \<notin> set t" and "take 3 t = ''GET''"
  shows "request_verdict (t @ NUL # r) pos = Inr (if sublist (CRLF @ CRLF) t then PostParser else KeepReading)"
  using assms strstr_None [of t "CRLF @ CRLF"] unfolding request_verdict_def cstr_terminated [OF assms(1)]
  by (auto simp: strncmp_eq_def split: option.splits)

lemma read_event_collects:
  assumes "life s" and "tbl s fd = Some (Some H_read, Some a)" and "conns s a = Some c" and "has_read c t"
    and "reads env = map RData ds" and "\<forall>d \<in> set ds. d \<noteq> []" and "length (t @ concat ds) < MAX_BUFFER_SIZE"
    and "NUL \<notin> set (t @ concat ds)" and "take 3 (t @ concat ds) = ''GET''"
    and "m_buf env" and "m_wrap env" and "m_task env" and "m_node env"
  shows "\<exists>s' c'. serve_event env nb [] fd TGX_EVENT_IN s = Inr (0, s') \<and> conns s' a = Some c' \<and>
    bind_ub (case ts_data (httpReqBuf c') of None \<Rightarrow> Inl NullDeref | Some d \<Rightarrow> Inr d) cstr = Inr (t @ concat ds) \<and>
    (if sublist (CRLF @ CRLF) (t @ concat ds) then posted s' = posted s @ [(T_http_parser, a, None)] \<and> epoll s' fd = None
     else posted s' = posted s \<and> has_read c' (t @ concat ds) \<and> epoll s' fd = Some EPOLLIN)"
proof -
  let ?t = "t @ concat ds"
  from life_handler [OF assms(1,2)] assms(3) have c: "c_fd c = fd" "served s c H_read a" "life_but a c s" by auto
  obtain buf where rl: "read_loop env (map RData ds) c = Inr (True, c\<lparr>httpReqBuf := buf, rw_pos := int (length ?t)\<rparr>)" and
      "holds_text buf ?t" using read_loop_collects [OF assms(4,10,6,7)] by blast
  from end_string_holds [OF this(2) assms(8,7)] obtain buf1 d where
    b: "end_string buf (int (length ?t)) = Inr buf1" "ts_data buf1 = Some d" "full_size buf1" "cstr d = Inr ?t" by blast
  have d: "\<exists>r. d = ?t @ NUL # r"
    using b(1,2) \<open>holds_text buf ?t\<close> assms(7)
    by (auto simp: end_string_def holds_text_def full_size_def bind_ub_eq_Inr poke_def list_update_append neq_Nil_conv
        split: if_splits intro!: exI [of _ "tl (drop (length ?t) (the (ts_data buf)))"])
  let ?c = "c\<lparr>rw_pos := int (length ?t), httpReqBuf := buf1\<rparr>"
  let ?s = "put_conn a ?c s"
  have lb: "life_but a ?c ?s" using c life_but_parts(5) [OF c(3)] by (intro life_but_put [of a c]) auto
  have ev: "serve_event env nb [] fd TGX_EVENT_IN s = bind_ub (request_verdict d (int (length ?t))) (\<lambda>v. case v of
      KeepReading \<Rightarrow> Inr (0, ?s) | Refuse \<Rightarrow> close_err env a ?s
    | PostParser \<Rightarrow> post_or_close env a task_start_travelling T_http_parser ?s)"
    using serve_event_tbl [OF assms(1,2), of env nb "[]" TGX_EVENT_IN] rl b(1,2) assms(5)
    by (simp add: call_handler_def tgx_connection_handler_read_def get_conn_but [OF c(3)] TGX_EVENT_IN_def Let_def del: length_append)
  show ?thesis
  proof (cases "sublist (CRLF @ CRLF) ?t")
    case False
    have "holds_text buf1 ?t" using b(2,3) d by (auto simp: holds_text_def)
    moreover have "epoll ?s fd = Some EPOLLIN" using c by (simp add: served_def put_conn_def)
    ultimately show ?thesis using ev verdict_get [OF assms(8,9)] d False b(2,4) assms(7)
      by (intro exI [of _ ?s] exI [of _ ?c]) (auto simp: put_conn_def has_read_def)
  next
    case True
    have "tbl ?s (c_fd ?c) = Some (Some H_read, Some a)" "epoll ?s (c_fd ?c) \<noteq> None"
      using assms(2) c by (auto simp: tbl_def put_conn_def served_def)
    from start_travelling_result [OF lb this, of env] obtain s1 where
      s1: "task_start_travelling env a ?s = Inr (0, s1, None)" "conns s1 a = Some (?c\<lparr>rw_pos := 0, travelling := True\<rparr>)"
        "posted s1 = posted s" "epoll s1 fd = None" using c(1) by (auto simp: put_conn_def)
    then have "post_or_close env a task_start_travelling T_http_parser ?s = Inr (0, s1\<lparr>posted := posted s1 @ [(T_http_parser, a, None)]\<rparr>)"
      using assms(11-13) by (simp add: post_or_close_def post_task_def)
    then show ?thesis using ev verdict_get [OF assms(8,9)] d True b(2,4) s1
      by (intro exI [of _ "s1\<lparr>posted := posted s1 @ [(T_http_parser, a, None)]\<rparr>"] exI [of _ "?c\<lparr>rw_pos := 0, travelling := True\<rparr>"]) auto
  qed
qed


lemma accepted_reads: "\<exists>c. conns accepted 0 = Some c \<and> has_read c []"
proof -
  have "case conns accepted 0 of None \<Rightarrow> False | Some c \<Rightarrow> rw_pos c = 0 \<and> ts_size (httpReqBuf c) = 0" by code_simp
  then show ?thesis by (auto simp: has_read_def MAX_BUFFER_SIZE_def split: option.splits)
qed


lemma read_loop_bounds:
  assumes "wf_buffer (httpReqBuf c)" and "0 \<le> rw_pos c" and "rw_pos c \<le> int MAX_BUFFER_SIZE"
  shows "\<exists>more c'. read_loop env rs c = Inr (more, c') \<and>
    (more \<longrightarrow> 0 \<le> rw_pos c' \<and> rw_pos c' < int MAX_BUFFER_SIZE \<and> full_size (httpReqBuf c'))"
  using assms
proof (induction "sum_list (map rd_size rs)" arbitrary: rs c rule: less_induct)
  case less
  obtain r buf where b: "string_check_boundry (m_buf env) (m_grow env) (httpReqBuf c) (rw_pos c) = (r, buf)" by fastforce
  let ?c = "c\<lparr>httpReqBuf := buf\<rparr>"
  show ?case
  proof (cases "r < 0 \<or> room ?c = 0")
    case True
    then show ?thesis using b by (subst read_loop.simps) (auto simp: Let_def)
  next
    case False
    then have f: "full_size buf" using check_boundry_ok [OF less.prems(1) b] by simp
    have rm: "room ?c = nat (int MAX_BUFFER_SIZE - rw_pos c)"
      using f less.prems(2,3) by (simp add: room_def full_size_def MAX_BUFFER_SIZE_def)
    show ?thesis
    proof (cases "\<exists>d rest. rs = RData d # rest \<and> d \<noteq> []")
      case False
      then show ?thesis using b \<open>\<not> (r < 0 \<or> room ?c = 0)\<close> f rm less.prems(2,3)
        by (subst read_loop.simps) (auto simp: Let_def split: list.split rd.split)
    next
      case True
      then obtain d rest where d: "rs = RData d # rest" "d \<noteq> []" by blast
      let ?u = "take (room ?c) d"
      obtain data where data: "ts_data buf = Some data" "length data = MAX_BUFFER_SIZE" "ts_size buf = MAX_BUFFER_SIZE"
        using f by (auto simp: full_size_def)
      have fit: "rw_pos c + int (length ?u) \<le> int MAX_BUFFER_SIZE" using rm less.prems(2,3) by simp
      let ?buf = "buf\<lparr>ts_data := Some (take (nat (rw_pos c)) data @ ?u @ drop (nat (rw_pos c) + length ?u) data)\<rparr>"
      let ?c1 = "?c\<lparr>httpReqBuf := ?buf, rw_pos := rw_pos c + int (length ?u)\<rparr>"
      let ?rs = "if length d \<le> room ?c then rest else RData (drop (room ?c) d) # rest"
      have st: "store_at buf (rw_pos c) ?u = Inr ?buf" using data fit less.prems(2) by (simp add: store_at_def)
      have "read_loop env rs c = read_loop env ?rs ?c1"
        using b False d st by (subst read_loop.simps) (simp add: Let_def)
      moreover have "sum_list (map rd_size ?rs) < sum_list (map rd_size rs)" using d False by (auto simp: rd_size_def)
      moreover have "wf_buffer ?buf" using data fit less.prems(2) by (auto simp: wf_buffer_def full_size_def)
      ultimately show ?thesis using less.hyps [of ?rs ?c1] fit less.prems(2) by simp
    qed
  qed
qed

text \<open>
  C37: Whatever arrives, however much of it and in whatever pieces, the read loop ends without leaving the
  buffer; if it ends with all input read there is still room for the null character that is stored after it.
\<close>

theorem read_stays_in_buffer:
  assumes "wf_buffer (httpReqBuf c)" and "0 \<le> rw_pos c" and "rw_pos c < int MAX_BUFFER_SIZE"
  shows "\<exists>more c'. read_loop env rs c = Inr (more, c') \<and>
    (more \<longrightarrow> 0 \<le> rw_pos c' \<and> rw_pos c' < int MAX_BUFFER_SIZE \<and> (\<exists>buf. end_string (httpReqBuf c') (rw_pos c') = Inr buf))"
proof -
  from read_loop_bounds [OF assms(1,2), of env rs] assms(3) obtain more c' where r: "read_loop env rs c = Inr (more, c')"
      "more \<longrightarrow> 0 \<le> rw_pos c' \<and> rw_pos c' < int MAX_BUFFER_SIZE \<and> full_size (httpReqBuf c')" by auto
  then show ?thesis by (auto simp: end_string_def full_size_def poke_def)
qed

theorem read_stays_in_buffer_witness:
  "\<exists>more c'. read_loop calm [RData ''GET'', REof] (the (conns accepted 0)) = Inr (more, c')"
proof -
  obtain c where c: "conns accepted 0 = Some c" "rw_pos c = 0" using accepted_reads by (auto simp: has_read_def)
  have "case conns accepted 0 of None \<Rightarrow> False | Some c \<Rightarrow> ts_size (httpReqBuf c) = 0" by code_simp
  with c read_stays_in_buffer [of c calm "[RData ''GET'', REof]"] show ?thesis by (auto simp: wf_buffer_def MAX_BUFFER_SIZE_def)
qed

subsection \<open>The length of a POST request\<close>

text \<open>A search passes over characters that differ from the first of the pattern.\<close>

lemma strstr_skip: "c \<notin> set u \<Longrightarrow> strstr (u @ v) (c # n) = strstr v (c # n)"
  by (induction u) auto

lemma strstr_here: "strstr (n @ v) n = Some (n @ v)"
proof (cases "n @ v")
  case (Cons c cs)
  then have "take (length n) (c # cs) = n" by (metis append_eq_conv_conj)
  with Cons show ?thesis by simp
qed simp

definition post_head :: "nat \<Rightarrow> string" where
  "post_head n = ''POST /x.wsn HTTP/1.1'' @ CRLF @ ''Content-Length: '' @ decimal n @ CRLF @ CRLF"

lemma post_head_end: "strstr (post_head n @ body) (CRLF @ CRLF) = Some (CRLF @ CRLF @ body)"
proof -
  have "CHR 0x0D \<notin> set (decimal n)" using decimal_plain by force
  from strstr_skip [OF this, of "CRLF @ CRLF @ body" "[CHR 0x0A, CHR 0x0D, CHR 0x0A]"] strstr_here [of "CRLF @ CRLF" body]
  show ?thesis by (simp add: post_head_def CRLF_def)
qed

lemma post_head_length: "strstr (post_head n @ body) ''Content-Length:'' = Some (''Content-Length: '' @ decimal n @ CRLF @ CRLF @ body)"
  by (simp add: post_head_def CRLF_def)

lemma content_length_decimal:
  assumes "n < 10 ^ 19"
  shows "content_length (CHR '' '' # decimal n @ CHR 0x0D # r) = Inr (int n)"
proof -
  obtain x xs where x: "decimal n = x # xs" using decimal_digits [of n] by (cases "decimal n") auto
  have "x \<noteq> CHR '' ''" using decimal_plain [of x n] x by force
  then have d: "dropWhile (\<lambda>c. c = CHR '' '') (CHR '' '' # decimal n @ CHR 0x0D # r) = decimal n @ CHR 0x0D # r" by (simp add: x)
  have "CHR 0x0D \<notin> set (decimal n)" using decimal_plain by force
  then have "takeWhile (\<lambda>c. c \<noteq> CHR 0x0D) (decimal n @ CHR 0x0D # r) = decimal n"
    by (subst takeWhile_append2) auto
  moreover have "length (decimal n) < 128" using decimal_short [OF assms] by simp
  ultimately show ?thesis unfolding content_length_def d Let_def by (simp add: atoi_decimal)
qed

text \<open>
  The comparison of the length of a POST request with the announced one is the wrong way round, against its
  comment: a request whose body is not yet complete is handed to the parser, and one with more than the
  announced body is kept waiting.
\<close>

theorem post_length_inverted:
  assumes "NUL \<notin> set body" and "n < 10 ^ 19"
  shows "request_verdict (post_head n @ body @ NUL # r) (int (length (post_head n @ body))) =
    Inr (if length body \<le> n then PostParser else KeepReading)"
proof -
  let ?t = "post_head n @ body"
  have p: "NUL \<notin> set ?t" using assms(1) decimal_plain [of NUL n] no_digit(1) by (auto simp: post_head_def CRLF_def NUL_def)
  have c: "cstr (post_head n @ body @ NUL # r) = Inr ?t" using cstr_terminated [OF p, of r] by simp
  have g: "strncmp_eq ?t ''GET'' 3 = False" "strncmp_eq ?t ''POST'' 4 = True" by (simp_all add: strncmp_eq_def post_head_def)
  have dr: "drop (length ?t - length (''Content-Length: '' @ decimal n @ CRLF @ CRLF @ body) + 15) (post_head n @ body @ NUL # r) =
      CHR '' '' # decimal n @ CHR 0x0D # (CHR 0x0A # CRLF @ body @ NUL # r)"
    by (simp add: post_head_def CRLF_def)
  have h: "int (length ?t - length (CRLF @ CRLF @ body)) + 4 = int (length (post_head n))" by (simp add: post_head_def)
  show ?thesis
    unfolding request_verdict_def c bind_ub_simps post_head_end post_head_length option.case g dr content_length_decimal [OF assms(2)] Let_def h
    by simp
qed

theorem post_length_inverted_witness:
  "request_verdict (post_head 10 @ ''abc'' @ [NUL]) (int (length (post_head 10 @ ''abc''))) = Inr PostParser"
  using post_length_inverted [of "''abc''" 10 "[]"] by (simp add: NUL_def)

end
