(* ===== verification/WorkerProcess.thy ===== *)
theory WorkerProcess
  imports ConnServe
begin

section \<open>The life of a worker process\<close>

text \<open>
  The part of \<open>main\<close> (src/src/core/tgx.c) that a worker process runs after the fork. First it sets up
  the event system with the listening socket; the state it reaches is the one from which the
  theorems about connections start. At the end, when a signal has cleared \<open>running\<close>, it goes through all slots
  of the table, closes the listening socket, frees the connections the entries name, and frees the
  table. The threads of the pool are stopped only afterwards.
\<close>

subsection \<open>Definitions\<close>

definition TGX_MAX_CONNECTION :: int where "TGX_MAX_CONNECTION = 1000000"

text \<open>What the calls of the system return while a worker process starts.\<close>

record child_env =
  ce_te :: bool
  ce_array :: bool
  ce_epoll :: int
  ce_events :: bool
  ce_nonblock :: bool
  ce_ctl :: env
  ce_pool :: bool

text \<open>A worker process knows its listening socket and the path of the error page.\<close>

definition forked :: "int \<Rightarrow> string \<Rightarrow> server" where
  "forked lfd page = \<lparr>tevent = None, epoll = (\<lambda>_. None), conns = (\<lambda>_. None), brk_conn = 0, posted = [],
     wire = (\<lambda>_. []), listen_fd = lfd, e_404 = page\<rparr>"

text \<open>\<open>None\<close>: the process ends, because \<open>main\<close> returns or the engine calls \<open>exit\<close>.\<close>

definition child_start :: "child_env \<Rightarrow> int \<Rightarrow> server \<Rightarrow> server option ub" where
  "child_start ce n s = (case tgx_event_init True n (ce_te ce) (ce_array ce) (ce_epoll ce) (ce_events ce) of
      InitNull \<Rightarrow> Inr None
    | InitExit \<Rightarrow> Inr None
    | InitOk te \<Rightarrow>
        let s = s\<lparr>tevent := Some te\<rparr> in
        if \<not> ce_nonblock ce then Inr None
        else
          let (r, s) = ctl (ce_ctl ce) TGX_EVENT_CTL_ADD (listen_fd s) TGX_EVENT_IN s in
          if r < 0 then Inr None
          else bind_ub (tgx_event_schedule_register (m_sched (ce_ctl ce)) (tevent s) (listen_fd s) (Some H_accept) None) (\<lambda>(r, te).
            if r < 0 then Inr None
            else if \<not> ce_pool ce then Inr None
            else Inr (Some (s\<lparr>tevent := te\<rparr>))))"

primrec shutdown_slots :: "(handler, addr) sched option list \<Rightarrow> server \<Rightarrow> server ub" where
  "shutdown_slots [] s = Inr s"
| "shutdown_slots (x # xs) s = (case x of
      None \<Rightarrow> shutdown_slots xs s
    | Some sc \<Rightarrow>
        if sc_fd sc = listen_fd s then shutdown_slots xs (s\<lparr>epoll := (epoll s)(listen_fd s := None)\<rparr>)
        else (case sc_context sc of
          Some a \<Rightarrow> bind_ub (tgx_free_connection a s) (shutdown_slots xs)
        | None \<Rightarrow> shutdown_slots xs s))"

definition main_shutdown :: "server \<Rightarrow> server ub" where
  "main_shutdown s = (case tevent s of
      None \<Rightarrow> Inl NullDeref
    | Some e \<Rightarrow>
        let s = (if engine e then s\<lparr>tevent := tgx_linux_epoll_event_free (tevent s)\<rparr> else s) in
        bind_ub (shutdown_slots (sched_array e) s) (\<lambda>s. Inr (s\<lparr>tevent := None\<rparr>)))"

subsection \<open>A started process\<close>

lemma init_table:
  assumes "0 < n" "n < 2 ^ 31" "tgx_event_init True n a b efd d = InitOk (te :: (handler, addr) event)"
  shows "wf_event te" "engine te" "0 \<le> epoll_fd te" "\<And>fd. slot te fd = None" "length (sched_array te) = nat n" "occupied te = 0"
    "usedfds te = 0" "maxfds te = word_of_int n"
proof -
  have n: "unat (word_of_int n :: u64) = nat n" using assms(1,2) by (simp add: unat_eq_nat_uint uint_word_of_int)
  have te: "te = \<lparr>sched_array = replicate (nat n) None, maxfds = word_of_int n, usedfds = 0, epoll_fd = efd,
      epoll_events = Some (replicate (nat n) \<lparr>ep_events = 0, ep_fd = 0\<rparr>), engine = True\<rparr>" "0 \<le> efd"
    using assms n by (auto simp: tgx_event_init_def tgx_linux_epoll_init_def Let_def split: if_splits)
  show "wf_event te" using assms(1,2) n by (simp add: te wf_event_def in_range_def no_dup_def)
  show "engine te" "0 \<le> epoll_fd te" "length (sched_array te) = nat n" "occupied te = 0" "usedfds te = 0" "maxfds te = word_of_int n"
    using te(2) by (simp_all add: te(1) occupied_def)
  show "slot te fd = None" for fd by (simp add: slot_eq_None te(1))
qed

definition calls_succeed :: "child_env \<Rightarrow> bool" where
  "calls_succeed ce \<longleftrightarrow> ce_te ce \<and> ce_array ce \<and> 0 \<le> ce_epoll ce \<and> ce_events ce \<and> ce_nonblock ce \<and> ce_pool ce \<and>
     k_ok (ce_ctl ce) \<and> m_sched (ce_ctl ce)"

lemma epoll_mask_in: "epoll_mask TGX_EVENT_IN = EPOLLIN"
  by code_simp

lemma child_start_ready:
  assumes "0 \<le> lfd" "1 < n" "n < 2 ^ 31"
  shows "(\<forall>s. child_start ce n (forked lfd page) = Inr (Some s) \<longrightarrow> server_start s \<and> listen_fd s = lfd \<and> epoll s lfd = Some EPOLLIN) \<and>
    (calls_succeed ce \<and> lfd < n \<longrightarrow> (\<exists>s. child_start ce n (forked lfd page) = Inr (Some s)))"
proof (cases "tgx_event_init True n (ce_te ce) (ce_array ce) (ce_epoll ce) (ce_events ce) :: (handler, addr) init_result")
  case (InitOk te)
  have "0 < n" using assms(2) by simp
  note t = init_table [OF this assms(3) InitOk]
  let ?s = "(forked lfd page)\<lparr>tevent := Some te, epoll := [lfd \<mapsto> EPOLLIN]\<rparr>"
  let ?reg = "tgx_event_schedule_register (m_sched (ce_ctl ce)) (Some te) lfd (Some H_accept) None"
  have c: "ctl (ce_ctl ce) TGX_EVENT_CTL_ADD lfd TGX_EVENT_IN ((forked lfd page)\<lparr>tevent := Some te\<rparr>) =
      (if k_ok (ce_ctl ce) then (0, ?s) else (- 1, (forked lfd page)\<lparr>tevent := Some te\<rparr>))"
    using ctl_simps(2) [of "(forked lfd page)\<lparr>tevent := Some te\<rparr>" lfd "ce_ctl ce" TGX_EVENT_IN] assms(1) t(1-3)
    by (simp add: wf_tevent_def forked_def epoll_mask_in)
  have run: "child_start ce n (forked lfd page) = (if ce_nonblock ce \<and> k_ok (ce_ctl ce)
      then bind_ub ?reg (\<lambda>(r, te). if r < 0 \<or> \<not> ce_pool ce then Inr None else Inr (Some (?s\<lparr>tevent := te\<rparr>))) else Inr None)"
    using c by (auto simp: child_start_def InitOk Let_def forked_def intro!: arg_cong [of _ _ "bind_ub _"])
  show ?thesis
  proof (cases "lfd < n")
    case True
    have w: "usedfds te + 1 \<le> maxfds te - 1" "occupied te < length (sched_array te)"
      using assms(2,3) t(5-8) by (simp_all add: word_le_def uint_word_of_int uint_word_ariths)
    have "nat lfd < length (sched_array te)" using True assms(1) t(5) by simp
    from register_result [OF t(1) assms(1) this t(4), of "m_sched (ce_ctl ce)" "Some H_accept" None] obtain r e' where
      r: "?reg = Inr (r, Some e')" "wf_event e'"
      "lookup (Some e') = (if r = 0 then (lookup (Some te))(lfd \<mapsto> (Some H_accept, None)) else lookup (Some te))" "r = 0 \<or> r = - 1"
      "m_sched (ce_ctl ce) \<Longrightarrow> r = 0" using w by (metis option.distinct(1))
    have e': "engine e'" "0 \<le> epoll_fd e'" using event_frames(3) [OF r(1)] t(2,3) by auto
    have "lookup (Some te) = Map.empty" using t(4) by (simp add: fun_eq_iff lookup_def)
    with r(2-4) e' have "r = 0 \<Longrightarrow> server_start (?s\<lparr>tevent := Some e'\<rparr>)"
      by (simp add: server_start_def wf_tevent_def tbl_def [abs_def] forked_def)
    with run r(1,4,5) show ?thesis by (auto simp: calls_succeed_def forked_def split: if_splits)
  next
    case False
    then have "peek (sched_array te) lfd = Inl OutOfBounds" using assms(1) t(5) by (simp add: peek_def)
    then have "?reg = Inl OutOfBounds \<or> (\<exists>te'. ?reg = Inr (- 1, te'))" using assms(1) by (auto simp: tgx_event_schedule_register_def Let_def)
    with run False show ?thesis by (auto split: if_splits)
  qed
qed (auto simp: child_start_def calls_succeed_def tgx_event_init_def tgx_linux_epoll_init_def Let_def split: if_splits)

text \<open>
  C18: A worker process that comes to its event loop is in a state from which the theorems about
  connections start: the table is well formed and holds the listening socket with the accept
  handler only, the kernel watches this socket for input, and there is neither a connection nor a
  task. It comes there whenever the calls of the system succeed, for every limit of descriptors
  above the listening socket and above 1.
\<close>

theorem child_ready:
  assumes "0 \<le> lfd" "1 < n" "n < 2 ^ 31"
  shows "(\<forall>s. child_start ce n (forked lfd page) = Inr (Some s) \<longrightarrow> server_start s \<and> listen_fd s = lfd \<and> epoll s lfd = Some EPOLLIN) \<and>
    (calls_succeed ce \<and> lfd < n \<longrightarrow> (\<exists>s. child_start ce n (forked lfd page) = Inr (Some s)))"
  using assms by (rule child_start_ready)

definition ready_child :: child_env where
  "ready_child = \<lparr>ce_te = True, ce_array = True, ce_epoll = 4, ce_events = True, ce_nonblock = True, ce_ctl = calm, ce_pool = True\<rparr>"

lemma ready_child_ok: "calls_succeed ready_child"
  by (simp add: calls_succeed_def ready_child_def calm_def)

theorem child_ready_witness:
  "\<exists>s. child_start ready_child 8 (forked 3 ''404.html'') = Inr (Some s) \<and> server_start s"
  using child_ready [of 3 8 ready_child "''404.html''"] ready_child_ok by auto

subsection \<open>Every connection is freed once\<close>

definition contexts :: "int \<Rightarrow> (handler, addr) sched option list \<Rightarrow> addr list" where
  "contexts lfd xs = concat (map (\<lambda>x. case x of
      None \<Rightarrow> []
    | Some sc \<Rightarrow> if sc_fd sc = lfd then [] else (case sc_context sc of None \<Rightarrow> [] | Some a \<Rightarrow> [a])) xs)"

lemma contexts_Cons [simp]:
  "contexts lfd (None # xs) = contexts lfd xs"
  "contexts lfd (Some sc # xs) = (if sc_fd sc = lfd then [] else (case sc_context sc of None \<Rightarrow> [] | Some a \<Rightarrow> [a])) @ contexts lfd xs"
  by (simp_all add: contexts_def)

lemma shutdown_slots_frees:
  assumes "distinct (contexts (listen_fd s) xs)" "\<forall>a \<in> set (contexts (listen_fd s) xs). conns s a \<noteq> None"
  shows "\<exists>s'. shutdown_slots xs s = Inr s' \<and> (\<forall>a. conns s' a = (if a \<in> set (contexts (listen_fd s) xs) then None else conns s a)) \<and>
    posted s' = posted s"
  using assms
proof (induction xs arbitrary: s)
  case Nil
  then show ?case by (simp add: contexts_def)
next
  case (Cons x xs)
  show ?case
  proof (cases x)
    case None
    with Cons show ?thesis by auto
  next
    case (Some sc)
    show ?thesis
    proof (cases "sc_fd sc = listen_fd s")
      case True
      let ?s = "s\<lparr>epoll := (epoll s)(listen_fd s := None)\<rparr>"
      have "\<exists>s'. shutdown_slots xs ?s = Inr s' \<and> (\<forall>a. conns s' a = (if a \<in> set (contexts (listen_fd s) xs) then None else conns s a)) \<and>
          posted s' = posted s"
        using Cons.IH [of ?s] Cons.prems Some True by (simp cong: if_cong)
      then show ?thesis using Some True by simp
    next
      case lf: False
      show ?thesis
      proof (cases "sc_context sc")
        case None
        with Cons Some lf show ?thesis by auto
      next
        case (Some a)
        obtain c where c: "conns s a = Some c" using Cons.prems(2) \<open>x = Some sc\<close> lf Some by auto
        let ?s = "s\<lparr>epoll := (if c_fd c > 0 then (epoll s)(c_fd c := None) else epoll s), conns := (conns s)(a := None)\<rparr>"
        have fr: "tgx_free_connection a s = Inr ?s" using c by (simp add: tgx_free_connection_def get_conn_def)
        have nin: "a \<notin> set (contexts (listen_fd s) xs)" using Cons.prems(1) \<open>x = Some sc\<close> lf Some by simp
        have "\<exists>s'. shutdown_slots xs ?s = Inr s' \<and>
            (\<forall>b. conns s' b = (if b \<in> set (contexts (listen_fd s) xs) then None else conns ?s b)) \<and> posted s' = posted s"
        proof -
          have "distinct (contexts (listen_fd ?s) xs)" "\<forall>b \<in> set (contexts (listen_fd ?s) xs). conns ?s b \<noteq> None"
            using Cons.prems \<open>x = Some sc\<close> lf Some nin by auto
          from Cons.IH [OF this] show ?thesis by (simp cong: if_cong)
        qed
        then show ?thesis using fr \<open>x = Some sc\<close> lf Some by auto
      qed
    qed
  qed
qed

lemma contexts_iff:
  "a \<in> set (contexts lfd xs) \<longleftrightarrow> (\<exists>i < length xs. \<exists>sc. xs ! i = Some sc \<and> sc_fd sc \<noteq> lfd \<and> sc_context sc = Some a)"
  by (force simp: contexts_def in_set_conv_nth [of _ xs] split: option.splits if_splits)

lemma contexts_distinct:
  assumes "\<And>i j a b. i < length xs \<Longrightarrow> j < length xs \<Longrightarrow> xs ! i = Some a \<Longrightarrow> xs ! j = Some b \<Longrightarrow>
      sc_context a = sc_context b \<Longrightarrow> sc_context a \<noteq> None \<Longrightarrow> i = j"
  shows "distinct (contexts lfd xs)"
  using assms
proof (induction xs)
  case (Cons x xs)
  have "distinct (contexts lfd xs)"
  proof (rule Cons.IH)
    fix i j a b assume "i < length xs" "j < length xs" "xs ! i = Some a" "xs ! j = Some b"
      "sc_context a = sc_context b" "sc_context a \<noteq> None"
    then show "i = j" using Cons.prems [of "Suc i" "Suc j" a b] by simp
  qed
  moreover have "a \<notin> set (contexts lfd xs)" if "x = Some sc" "sc_context sc = Some a" for sc a
  proof
    assume "a \<in> set (contexts lfd xs)"
    then obtain i sc' where "i < length xs" "xs ! i = Some sc'" "sc_context sc' = Some a" by (auto simp: contexts_iff)
    with Cons.prems [of 0 "Suc i" sc sc'] that show False by simp
  qed
  ultimately show ?case by (cases x) (auto split: option.splits)
qed (simp add: contexts_def)

lemma table_contexts:
  assumes "life s" "tevent s = Some e"
  shows "distinct (contexts (listen_fd s) (sched_array e))"
    and "a \<in> set (contexts (listen_fd s) (sched_array e)) \<longleftrightarrow> (\<exists>fd h. tbl s fd = Some (h, Some a))"
    and "a \<in> set (contexts (listen_fd s) (sched_array e)) \<Longrightarrow> conns s a \<noteq> None"
proof -
  have b: "base s" using assms(1) by (simp add: life_def)
  have wf: "wf_event e" using baseD(1) [OF b] assms(2) by (simp add: wf_tevent_def)
  have t: "tbl s fd = map_option (\<lambda>sc. (sc_handler sc, sc_context sc)) (slot e fd)" for fd
    by (simp add: tbl_def lookup_def assms(2))
  have entry: "tbl s (sc_fd sc) = Some (sc_handler sc, sc_context sc)" if "i < length (sched_array e)" "sched_array e ! i = Some sc" for i sc
    using slot_eq_Some [OF wf, of "sc_fd sc" sc] that t by auto
  show "distinct (contexts (listen_fd s) (sched_array e))"
  proof (rule contexts_distinct)
    fix i j x y assume ij: "i < length (sched_array e)" "j < length (sched_array e)" "sched_array e ! i = Some x" "sched_array e ! j = Some y"
      and c: "sc_context x = sc_context y" "sc_context x \<noteq> None"
    obtain a where a: "sc_context x = Some a" "sc_context y = Some a" using c by auto
    have "sc_fd x = sc_fd y"
      using baseD(4) [OF b, of "sc_fd x" "sc_handler x" a] baseD(4) [OF b, of "sc_fd y" "sc_handler y" a]
        entry [OF ij(1,3)] entry [OF ij(2,4)] a by auto
    with ij wf show "i = j" by (auto simp: wf_event_def no_dup_def)
  qed
  show iff: "a \<in> set (contexts (listen_fd s) (sched_array e)) \<longleftrightarrow> (\<exists>fd h. tbl s fd = Some (h, Some a))"
  proof
    assume "a \<in> set (contexts (listen_fd s) (sched_array e))"
    then show "\<exists>fd h. tbl s fd = Some (h, Some a)" using entry by (fastforce simp: contexts_iff)
  next
    assume "\<exists>fd h. tbl s fd = Some (h, Some a)"
    then obtain fd h where fh: "tbl s fd = Some (h, Some a)" by blast
    then obtain sc where sc: "slot e fd = Some sc" "sc_context sc = Some a" by (auto simp: t)
    obtain c where "conns s a = Some c" "c_fd c = fd" using baseD(4) [OF b fh] by blast
    then have "fd \<noteq> listen_fd s" using baseD(2) [OF b] by blast
    with sc show "a \<in> set (contexts (listen_fd s) (sched_array e))" using slot_eq_Some [OF wf, of fd sc] by (auto simp: contexts_iff)
  qed
  show "conns s a \<noteq> None" if "a \<in> set (contexts (listen_fd s) (sched_array e))"
    using iff that baseD(4) [OF b] by blast
qed

lemma shutdown_result:
  assumes "life s"
  obtains s' where "main_shutdown s = Inr s'" "posted s' = posted s"
    "\<And>a. conns s' a = (if \<exists>fd h. tbl s fd = Some (h, Some a) then None else conns s a)"
proof -
  obtain e where e: "tevent s = Some e" using assms baseD(1) by (auto simp: life_def wf_tevent_def)
  let ?s = "if engine e then s\<lparr>tevent := tgx_linux_epoll_event_free (tevent s)\<rparr> else s"
  have f: "listen_fd ?s = listen_fd s" "conns ?s = conns s" "posted ?s = posted s" by simp_all
  obtain s' where "shutdown_slots (sched_array e) ?s = Inr s'" "posted s' = posted s"
      "\<forall>a. conns s' a = (if a \<in> set (contexts (listen_fd s) (sched_array e)) then None else conns s a)"
    using shutdown_slots_frees [of ?s "sched_array e"] table_contexts [OF assms e] unfolding f by blast
  then show thesis using e table_contexts(2) [OF assms e] that [of "s'\<lparr>tevent := None\<rparr>"] by (simp add: main_shutdown_def Let_def)
qed



text \<open>
  The workers still run at that moment. A task that is still in the queue when the
  connections are freed reads freed memory as soon as a worker takes it.
\<close>

theorem shutdown_under_workers:
  assumes "server_reachable s" "(t, a, m) \<in> set (posted s)" "main_shutdown s = Inr s'"
  shows "run_ctask env (t, a, m) s' = Inl UseAfterFree"
proof -
  have l: "life s" using assms(1) by (rule life_reachable)
  have "a \<in> set (posted_addrs s)" using assms(2) by (force simp: posted_addrs_def)
  then have "\<exists>fd h. tbl s fd = Some (h, Some a)" using baseD(6) l unfolding life_def by blast
  with shutdown_result [OF l] assms(3) have "conns s' a = None" by (metis sum.inject(2))
  then have g: "get_conn s' a = Inl UseAfterFree" by (simp add: get_conn_def)
  show ?thesis
    using g by (cases t) (simp_all add: run_ctask_def task_http_parser_do_def task_http_parser_on_complete_def task_get_prepare_write_do_def
      task_post_prepare_module_do_def task_post_prepare_module_on_complete_def task_post_prepare_write_do_def close_err_def
      tgx_close_connection_def)
qed

text \<open>A run that leaves a task in the queue: a connection is accepted and its request is read.\<close>

lemma posted_reachable: "\<exists>s. server_reachable s \<and> posted s = [(T_http_parser, 0, None)]"
proof -
  let ?env = "calm\<lparr>reads := [RData (''GET '' @ CRLF @ CRLF)]\<rparr>"
  let ?t = "''GET '' @ CRLF @ CRLF"
  have t: "tbl accepted 5 = Some (Some H_read, Some 0)" by code_simp
  obtain c where c: "conns accepted 0 = Some c" "has_read c []" using accepted_reads by blast
  have p: "posted accepted = []" by code_simp
  have "sublist (CRLF @ CRLF) ?t" by (metis append_Nil2 sublist_appendI)
  with read_event_collects [OF life_reachable [OF accepted_reachable] t c, of ?env "[?t]" "\<lambda>_. True"] p
  obtain s' where "serve_event ?env (\<lambda>_. True) [] 5 TGX_EVENT_IN accepted = Inr (0, s')" "posted s' = [(T_http_parser, 0, None)]"
    by (auto simp: calm_def CRLF_def NUL_def MAX_BUFFER_SIZE_def)
  moreover have "fresh_fds accepted []" by (simp add: fresh_fds_def)
  ultimately show ?thesis using event_reachable [OF accepted_reachable] by blast
qed

theorem shutdown_under_workers_witness:
  "\<exists>s s'. server_reachable s \<and> posted s = [(T_http_parser, 0, None)] \<and> main_shutdown s = Inr s' \<and>
     run_ctask calm (T_http_parser, 0, None) s' = Inl UseAfterFree"
proof -
  obtain s where s: "server_reachable s" "posted s = [(T_http_parser, 0, None)]" using posted_reachable by blast
  then have p: "(T_http_parser, 0, None) \<in> set (posted s)" by simp
  obtain s' where s': "main_shutdown s = Inr s'" using shutdown_result [OF life_reachable [OF s(1)]] by metis
  from shutdown_under_workers [OF s(1) p s', of calm] s s' show ?thesis by blast
qed

end
