(* ===== verification/TaskSched.thy ===== *)
theory TaskSched
  imports TaskQueue "HOL-Library.Sublist"
begin

section \<open>The worker pool\<close>

text \<open>
  The scheduler of src/core/tgx_task.c. The first part models the calls as they run in one
  thread: what a posted task goes through and what a worker does with it. The second part is the
  interleaving of any number of workers (\<open>do_pthread\<close>) and posters (\<open>tgx_post_task\<close>), one step per
  access to shared state, with the mutex and the semaphore as the code uses them.
\<close>

subsection \<open>Tasks\<close>

text \<open>
  \<open>struct tgx_task_s\<close>. The callbacks act on a state \<open>'c\<close> that stands for their contexts;
  \<open>task_lock\<close> gives what \<open>pthread_mutex_trylock\<close> will return, if the task has a lock.
\<close>

record 'c task =
  task_lock :: "int option"
  on_post :: "('c \<Rightarrow> int \<times> 'c) option"
  on_task_complete :: "('c \<Rightarrow> int \<Rightarrow> int \<times> 'c) option"
  task_handler :: "'c \<Rightarrow> int \<times> 'c"

definition tgx_post_task ::
  "bool \<Rightarrow> 'c task option \<Rightarrow> 'c \<Rightarrow> 'c task heap \<times> task_queue \<Rightarrow> (int \<times> 'c \<times> 'c task heap \<times> task_queue) ub" where
  "tgx_post_task calloc_ok new_task c s = (case new_task of
      None \<Rightarrow> Inr (- 1, c, s)
    | Some t \<Rightarrow>
        if (case task_lock t of None \<Rightarrow> False | Some ret \<Rightarrow> ret < 0) then Inr (- 1, c, s)
        else
          let (ret, c') = (case on_post t of None \<Rightarrow> (0, c) | Some f \<Rightarrow> f c) in
          if ret < 0 then Inr (- 1, c', s)
          else if \<not> calloc_ok then Inr (- 1, c', s)
          else bind_ub (enqueue (fst s, snd (tgx_task_queue_signal (snd s))) t) (\<lambda>s'. Inr (0, c', s')))"

text \<open>What a worker does with the task it took: the handler, then the completion callback.\<close>

definition run_task :: "'c task \<Rightarrow> 'c \<Rightarrow> 'c" where
  "run_task t c =
     (let (ret, c1) = task_handler t c in
      case on_task_complete t of None \<Rightarrow> c1 | Some f \<Rightarrow> snd (f c1 ret))"

text \<open>
  One turn of the loop of \<open>do_pthread\<close> when no other thread interferes: \<open>None\<close> if \<open>sem_wait\<close>
  blocks. A null task would be dereferenced.
\<close>

definition worker_turn :: "'c \<Rightarrow> 'c task heap \<times> task_queue \<Rightarrow> ('c \<times> 'c task heap \<times> task_queue) ub option" where
  "worker_turn c s = (case tgx_task_queue_wait (snd s) of
      None \<Rightarrow> None
    | Some (_, q) \<Rightarrow> Some (bind_ub (dequeue (fst s, q)) (\<lambda>(t, s').
        case t of None \<Rightarrow> Inl NullDeref | Some task \<Rightarrow> Inr (run_task task c, s'))))"

text \<open>\<open>tgx_task_queue_empty\<close>: pop, take a unit of the semaphore, free, until the queue is empty.\<close>

fun queue_drain :: "nat \<Rightarrow> 't heap \<times> task_queue \<Rightarrow> ('t heap \<times> task_queue) ub" where
  "queue_drain 0 s = Inr s"
| "queue_drain (Suc k) s = bind_ub (dequeue s) (\<lambda>(t, s1). case t of
      None \<Rightarrow> Inr (fst s1, (snd s1)\<lparr>n_task := 0, qhead := None, qtail := None\<rparr>)
    | Some task \<Rightarrow>
        if resource (snd s1) = 0 then Inr s1
        else queue_drain k (fst s1, (snd s1)\<lparr>resource := resource (snd s1) - 1\<rparr>))"

text \<open>One turn more than there are nodes is enough to see the end.\<close>

definition tgx_task_queue_empty :: "'t heap \<times> task_queue \<Rightarrow> ('t heap \<times> task_queue) ub" where
  "tgx_task_queue_empty s = queue_drain (Suc (nat (n_task (snd s)))) s"

subsection \<open>Posting and working in one thread\<close>

lemma items_resource [simp]: "items (h, q\<lparr>resource := k\<rparr>) = items (h, q)"
  by (simp add: items_def)

lemma wf_queue_resource [simp]: "wf_queue (h, q\<lparr>resource := k\<rparr>) = wf_queue (h, q)"
  by (simp add: wf_queue_def spine_def)

lemma enqueue_resource: "wf_queue s \<Longrightarrow> enqueue s t = Inr s' \<Longrightarrow> resource (snd s') = resource (snd s)"
  unfolding wf_queue_def by (metis enqueue_spine sum.inject(2))

lemma dequeue_resource: "wf_queue s \<Longrightarrow> dequeue s = Inr (t, s') \<Longrightarrow> resource (snd s') = resource (snd s)"
  unfolding wf_queue_def by (metis dequeue_spine sum.inject(2) prod.inject)

definition balanced :: "'t heap \<times> task_queue \<Rightarrow> bool" where
  "balanced s \<longleftrightarrow> wf_queue s \<and> resource (snd s) = length (items s)"

lemma signal_enqueue:
  assumes "wf_queue s"
  obtains s' where "enqueue (fst s, snd (tgx_task_queue_signal (snd s))) t = Inr s'" "wf_queue s'"
    "items s' = items s @ [t]" "resource (snd s') = Suc (resource (snd s))"
proof -
  let ?s = "(fst s, (snd s)\<lparr>resource := resource (snd s) + 1\<rparr>)"
  have w: "wf_queue ?s" "items ?s = items s" using assms by simp_all
  from tq.put_ok [OF w(1), of t] w(2) enqueue_resource [OF w(1), of t] that show thesis
    by (auto simp: tgx_task_queue_signal_def)
qed

text \<open>
  \<open>tgx_post_task\<close> either returns \<open>-1\<close> and leaves queue and semaphore alone, or returns 0 with
  the task at the end of the queue and one more unit in the semaphore; it never faults.
\<close>

theorem post_task_outcome:
  assumes "balanced s"
  shows "\<exists>r c' s'. tgx_post_task ok nt c s = Inr (r, c', s') \<and> balanced s' \<and>
    (r = - 1 \<and> s' = s \<or> r = 0 \<and> nt \<noteq> None \<and> items s' = items s @ [the nt])"
proof (cases nt)
  case None
  with assms show ?thesis by (simp add: tgx_post_task_def)
next
  case (Some t)
  obtain ret c' where c: "(case on_post t of None \<Rightarrow> (0, c) | Some f \<Rightarrow> f c) = (ret, c')" by fastforce
  obtain s' where s': "enqueue (fst s, snd (tgx_task_queue_signal (snd s))) t = Inr s'" "wf_queue s'"
      "items s' = items s @ [t]" "resource (snd s') = Suc (resource (snd s))"
    using signal_enqueue [of s t] assms by (auto simp: balanced_def)
  with assms have "balanced s'" by (simp add: balanced_def)
  with assms Some c s' show ?thesis by (auto simp: tgx_post_task_def simp del: split_paired_Ex)
qed

definition noop_task :: "nat task" where
  "noop_task = \<lparr>task_lock = None, on_post = None, on_task_complete = None, task_handler = (\<lambda>c. (0, c + 1))\<rparr>"

lemma init_balanced: "balanced (\<lparr>cells = (\<lambda>_. None), brk = b\<rparr>, tgx_task_queue_init)"
  using init_wf [of "\<lparr>cells = (\<lambda>_. None), brk = b\<rparr>"] by (simp add: balanced_def tgx_task_queue_init_def)

theorem post_task_outcome_witness:
  "\<exists>r c' s'. tgx_post_task True (Some noop_task) 0 (\<lparr>cells = (\<lambda>_. None), brk = 0\<rparr>, tgx_task_queue_init) = Inr (r, c', s') \<and>
     balanced s'"
  using post_task_outcome [OF init_balanced, of True "Some noop_task" 0 0] by blast

text \<open>
  A worker that gets past the semaphore takes the oldest task, runs its handler and then its
  completion callback with the handler's result, and leaves the rest of the queue; it never meets a
  null task.
\<close>

theorem worker_turn_runs_first:
  assumes "balanced s" and "items s = t # ts"
  shows "\<exists>s'. worker_turn c s = Some (Inr (run_task t c, s')) \<and> balanced s' \<and> items s' = ts"
proof -
  let ?s = "(fst s, (snd s)\<lparr>resource := resource (snd s) - 1\<rparr>)"
  have w: "wf_queue ?s" "items ?s = t # ts" using assms by (simp_all add: balanced_def)
  from tq.take_ok [OF w(1)] w(2) obtain s' where
    d: "dequeue ?s = Inr (Some t, s')" "wf_queue s'" "items s' = ts" by auto
  have "tgx_task_queue_wait (snd s) = Some (0, snd ?s)"
    using assms by (simp add: tgx_task_queue_wait_def balanced_def)
  with d dequeue_resource [OF w(1) d(1)] assms show ?thesis
    by (auto simp: worker_turn_def balanced_def)
qed

definition queue_of_one :: "nat task heap \<times> task_queue" where
  "queue_of_one = (\<lparr>cells = [0 \<mapsto> \<lparr>nd_task = noop_task, nd_next = None, nd_prev = None\<rparr>], brk = 1\<rparr>,
     \<lparr>qhead = Some 0, qtail = Some 0, resource = 1, n_task = 1\<rparr>)"

theorem worker_turn_runs_first_witness:
  "\<exists>s'. worker_turn 41 queue_of_one = Some (Inr (42, s')) \<and> balanced s' \<and> items s' = []"
proof -
  have "spine queue_of_one [0]" by (simp add: spine_def queue_of_one_def)
  moreover from spine_items [OF this] have i: "items queue_of_one = [noop_task]" by (simp add: task_of_def queue_of_one_def)
  ultimately have "balanced queue_of_one" by (auto simp: balanced_def wf_queue_def queue_of_one_def)
  from worker_turn_runs_first [OF this i, of 41] show ?thesis by (simp add: run_task_def noop_task_def)
qed

text \<open>
  The lock that is meant to keep a task from being posted a second time has no effect:
  \<open>pthread_mutex_trylock\<close> reports a held lock with the positive number \<open>EBUSY\<close>, the code tests for a
  negative one, and the task is queued again.
\<close>

theorem busy_task_posted_again:
  assumes "balanced s" and "task_lock t = Some 16" and "on_post t = None"
  shows "\<exists>c' s'. tgx_post_task True (Some t) c s = Inr (0, c', s') \<and> items s' = items s @ [t]"
  using signal_enqueue [of s t] assms
  by (fastforce simp: tgx_post_task_def balanced_def)

theorem busy_task_posted_again_witness:
  "\<exists>c' s'. tgx_post_task True (Some (noop_task\<lparr>task_lock := Some 16\<rparr>)) 0
     (\<lparr>cells = (\<lambda>_. None), brk = 0\<rparr>, tgx_task_queue_init) = Inr (0, c', s') \<and>
     items s' = items (\<lparr>cells = (\<lambda>_. None), brk = 0\<rparr>, tgx_task_queue_init) @ [noop_task\<lparr>task_lock := Some 16\<rparr>]"
  by (rule busy_task_posted_again [OF init_balanced]) (simp_all add: noop_task_def)

lemma queue_drain_empties:
  "balanced s \<Longrightarrow> length (items s) < k \<Longrightarrow> \<exists>s'. queue_drain k s = Inr s' \<and> balanced s' \<and> items s' = []"
proof (induction k arbitrary: s)
  case (Suc k)
  have w: "wf_queue s" using Suc.prems by (simp add: balanced_def)
  from tq.take_ok [OF w] obtain s1 where
    d: "dequeue s = Inr (case items s of [] \<Rightarrow> None | t # _ \<Rightarrow> Some t, s1)" "wf_queue s1" "items s1 = tl (items s)" by blast
  note r = dequeue_resource [OF w d(1)]
  show ?case
  proof (cases "items s")
    case Nil
    let ?q = "(snd s1)\<lparr>n_task := 0, qhead := None, qtail := None\<rparr>"
    obtain as where as: "spine s1 as" using d(2) by (auto simp: wf_queue_def)
    with d(3) Nil spine_items [OF as] have "as = []" by simp
    with as have "spine (fst s1, ?q) []" by (simp add: spine_def)
    then have "wf_queue (fst s1, ?q)" "items (fst s1, ?q) = []" by (auto simp: wf_queue_def dest: spine_items)
    with Nil d(1) r Suc.prems show ?thesis by (auto simp: balanced_def)
  next
    case (Cons t ts)
    let ?s2 = "(fst s1, (snd s1)\<lparr>resource := resource (snd s1) - 1\<rparr>)"
    have rs: "resource (snd s1) = Suc (length ts)" using Suc.prems(1) r Cons by (simp add: balanced_def)
    with d Cons have "balanced ?s2" "items ?s2 = ts" by (simp_all add: balanced_def)
    with Suc.IH [of ?s2] Suc.prems(2) Cons d(1) rs show ?thesis by simp
  qed
qed simp

text \<open>
  \<open>tgx_task_queue_empty\<close> ends with an empty queue and the semaphore at zero, having freed every
  node once.
\<close>

theorem queue_empty_empties:
  assumes "balanced s"
  shows "\<exists>s'. tgx_task_queue_empty s = Inr s' \<and> balanced s' \<and> items s' = [] \<and> resource (snd s') = 0"
proof -
  obtain as where as: "spine s as" using assms by (auto simp: balanced_def wf_queue_def)
  from spine_items [OF as] as have "length (items s) = nat (n_task (snd s))" by (simp add: spine_def)
  with queue_drain_empties [OF assms, of "Suc (nat (n_task (snd s)))"] show ?thesis
    by (auto simp: tgx_task_queue_empty_def balanced_def)
qed

theorem queue_empty_empties_witness:
  "\<exists>s'. tgx_task_queue_empty (\<lparr>cells = (\<lambda>_. None), brk = 3\<rparr> :: nat heap, tgx_task_queue_init) = Inr s' \<and>
     balanced s' \<and> items s' = [] \<and> resource (snd s') = 0"
  by (rule queue_empty_empties [OF init_balanced])

subsection \<open>Interleaving\<close>

text \<open>
  The program counter of a worker: at the loop test, before \<open>sem_wait\<close>, at the second test of
  \<open>keep_alive\<close>, before the lock, holding it before the pop, holding it with the task in hand, running
  the task, gone. A poster is before the lock, and holding it before the signal, before the push and
  before the unlock.
\<close>

datatype 't wpc = WTest | WWait | WCheck | WLock | WPop | WUnlock 't | WRun 't | WExit

datatype 't ppc = PIdle | PLock 't | PSignal 't | PPush 't | PUnlock

datatype agent = Worker nat | Poster nat

text \<open>
  \<open>keep_alive\<close> is 0 while \<open>tgx_task_schedule_init\<close> starts the threads, then 1, and 0 again once
  \<open>tgx_task_schedule_destroy\<close> runs. Nothing is posted before \<open>tgx_task_schedule_init\<close> returns.
\<close>

datatype phase = Starting | Running | Stopping

text \<open>\<open>pushed\<close> and \<open>popped\<close> record the history; the code does not have them.\<close>

record 't pool =
  phase :: phase
  sched_lock :: "agent option"
  tqueue :: "'t heap \<times> task_queue"
  workers :: "'t wpc list"
  posters :: "'t ppc list"
  pushed :: "'t list"
  popped :: "'t list"

definition keep_alive :: "'t pool \<Rightarrow> bool" where
  "keep_alive p \<longleftrightarrow> phase p = Running"

definition set_worker :: "'t pool \<Rightarrow> nat \<Rightarrow> 't wpc \<Rightarrow> 't pool" where
  "set_worker p i pc = p\<lparr>workers := (workers p)[i := pc]\<rparr>"

definition set_poster :: "'t pool \<Rightarrow> nat \<Rightarrow> 't ppc \<Rightarrow> 't pool" where
  "set_poster p j pc = p\<lparr>posters := (posters p)[j := pc]\<rparr>"

definition at_worker :: "'t pool \<Rightarrow> nat \<Rightarrow> 't wpc \<Rightarrow> bool" where
  "at_worker p i pc \<longleftrightarrow> i < length (workers p) \<and> workers p ! i = pc"

definition at_poster :: "'t pool \<Rightarrow> nat \<Rightarrow> 't ppc \<Rightarrow> bool" where
  "at_poster p j pc \<longleftrightarrow> j < length (posters p) \<and> posters p ! j = pc"

text \<open>The steps of \<open>do_pthread\<close>.\<close>

inductive worker_step :: "'t pool \<Rightarrow> 't pool \<Rightarrow> bool" where
  test_go: "at_worker p i WTest \<Longrightarrow> keep_alive p \<Longrightarrow> worker_step p (set_worker p i WWait)"
| test_exit: "at_worker p i WTest \<Longrightarrow> \<not> keep_alive p \<Longrightarrow> worker_step p (set_worker p i WExit)"
| wait_go: "at_worker p i WWait \<Longrightarrow> tgx_task_queue_wait (snd (tqueue p)) = Some (r, q) \<Longrightarrow>
    worker_step p (set_worker (p\<lparr>tqueue := (fst (tqueue p), q)\<rparr>) i WCheck)"
| wait_error: "at_worker p i WWait \<Longrightarrow> worker_step p (set_worker p i WExit)"
| check_go: "at_worker p i WCheck \<Longrightarrow> keep_alive p \<Longrightarrow> worker_step p (set_worker p i WLock)"
| check_exit: "at_worker p i WCheck \<Longrightarrow> \<not> keep_alive p \<Longrightarrow> worker_step p (set_worker p i WExit)"
| worker_lock: "at_worker p i WLock \<Longrightarrow> sched_lock p = None \<Longrightarrow>
    worker_step p (set_worker (p\<lparr>sched_lock := Some (Worker i)\<rparr>) i WPop)"
| worker_pop: "at_worker p i WPop \<Longrightarrow> dequeue (tqueue p) = Inr (Some t, s) \<Longrightarrow>
    worker_step p (set_worker (p\<lparr>tqueue := s, popped := popped p @ [t]\<rparr>) i (WUnlock t))"
| worker_unlock: "at_worker p i (WUnlock t) \<Longrightarrow>
    worker_step p (set_worker (p\<lparr>sched_lock := None\<rparr>) i (WRun t))"
| worker_run: "at_worker p i (WRun t) \<Longrightarrow> worker_step p (set_worker p i WTest)"

text \<open>The steps of \<open>tgx_post_task\<close>.\<close>

inductive poster_step :: "'t pool \<Rightarrow> 't pool \<Rightarrow> bool" where
  post_begin: "at_poster p j PIdle \<Longrightarrow> phase p \<noteq> Starting \<Longrightarrow> poster_step p (set_poster p j (PLock t))"
| post_lock: "at_poster p j (PLock t) \<Longrightarrow> sched_lock p = None \<Longrightarrow>
    poster_step p (set_poster (p\<lparr>sched_lock := Some (Poster j)\<rparr>) j (PSignal t))"
| post_signal: "at_poster p j (PSignal t) \<Longrightarrow>
    poster_step p (set_poster (p\<lparr>tqueue := (fst (tqueue p), snd (tgx_task_queue_signal (snd (tqueue p))))\<rparr>) j (PPush t))"
| post_push: "at_poster p j (PPush t) \<Longrightarrow> enqueue (tqueue p) t = Inr s \<Longrightarrow>
    poster_step p (set_poster (p\<lparr>tqueue := s, pushed := pushed p @ [t]\<rparr>) j PUnlock)"
| post_unlock: "at_poster p j PUnlock \<Longrightarrow> poster_step p (set_poster (p\<lparr>sched_lock := None\<rparr>) j PIdle)"

inductive pool_step :: "'t pool \<Rightarrow> 't pool \<Rightarrow> bool" where
  start: "phase p = Starting \<Longrightarrow> pool_step p (p\<lparr>phase := Running\<rparr>)"
| worker: "worker_step p p' \<Longrightarrow> pool_step p p'"
| poster: "poster_step p p' \<Longrightarrow> pool_step p p'"
| destroy: "phase p = Running \<Longrightarrow> pool_step p (p\<lparr>phase := Stopping\<rparr>)"
| destroy_signal: "phase p = Stopping \<Longrightarrow>
    pool_step p (p\<lparr>tqueue := (fst (tqueue p), snd (tgx_task_queue_signal (snd (tqueue p))))\<rparr>)"

definition pool_init :: "nat \<Rightarrow> nat \<Rightarrow> 't pool" where
  "pool_init nw np = \<lparr>phase = Starting, sched_lock = None,
     tqueue = (\<lparr>cells = (\<lambda>_. None), brk = 0\<rparr>, tgx_task_queue_init),
     workers = replicate nw WTest, posters = replicate np PIdle, pushed = [], popped = []\<rparr>"

inductive reachable :: "nat \<Rightarrow> nat \<Rightarrow> 't pool \<Rightarrow> bool" for nw np where
  init: "reachable nw np (pool_init nw np)"
| step: "reachable nw np p \<Longrightarrow> pool_step p p' \<Longrightarrow> reachable nw np p'"

subsection \<open>The invariant of the pool\<close>

definition cnt :: "('a \<Rightarrow> bool) \<Rightarrow> 'a list \<Rightarrow> nat" where
  "cnt P xs = length (filter P xs)"

lemma cnt_update:
  assumes "i < length xs"
  shows "cnt P (xs[i := x]) + of_bool (P (xs ! i)) = cnt P xs + of_bool (P x)"
  using assms
proof (induction xs arbitrary: i)
  case (Cons y ys)
  then show ?case by (cases i) (auto simp: cnt_def)
qed simp

lemma cnt_pos: "i < length xs \<Longrightarrow> P (xs ! i) \<Longrightarrow> 0 < cnt P xs"
  by (auto simp: cnt_def filter_empty_conv)

lemma cnt_zero: "cnt P xs = 0 \<longleftrightarrow> (\<forall>i < length xs. \<not> P (xs ! i))"
  by (simp add: cnt_def filter_empty_conv all_set_conv_all_nth)

fun woken :: "'t wpc \<Rightarrow> bool" where
  "woken WCheck = True"
| "woken WLock = True"
| "woken WPop = True"
| "woken _ = False"

fun will_pop :: "'t wpc \<Rightarrow> bool" where
  "will_pop WLock = True"
| "will_pop WPop = True"
| "will_pop _ = False"

fun worker_holds :: "'t wpc \<Rightarrow> bool" where
  "worker_holds WPop = True"
| "worker_holds (WUnlock _) = True"
| "worker_holds _ = False"

fun poster_holds :: "'t ppc \<Rightarrow> bool" where
  "poster_holds (PSignal _) = True"
| "poster_holds (PPush _) = True"
| "poster_holds PUnlock = True"
| "poster_holds _ = False"

fun signalled :: "'t ppc \<Rightarrow> bool" where
  "signalled (PPush _) = True"
| "signalled _ = False"

definition lock_inv :: "'t pool \<Rightarrow> bool" where
  "lock_inv p \<longleftrightarrow>
     (\<forall>i < length (workers p). worker_holds (workers p ! i) \<longleftrightarrow> sched_lock p = Some (Worker i)) \<and>
     (\<forall>j < length (posters p). poster_holds (posters p ! j) \<longleftrightarrow> sched_lock p = Some (Poster j))"

definition count_inv :: "'t pool \<Rightarrow> bool" where
  "count_inv p \<longleftrightarrow> (case phase p of
       Starting \<Rightarrow> resource (snd (tqueue p)) = 0 \<and> items (tqueue p) = [] \<and> cnt woken (workers p) = 0 \<and>
         (\<forall>j < length (posters p). posters p ! j = PIdle)
     | Running \<Rightarrow> resource (snd (tqueue p)) + cnt woken (workers p) =
         length (items (tqueue p)) + cnt signalled (posters p)
     | Stopping \<Rightarrow> cnt will_pop (workers p) \<le> length (items (tqueue p)) + cnt signalled (posters p))"

definition pool_inv :: "'t pool \<Rightarrow> bool" where
  "pool_inv p \<longleftrightarrow> wf_queue (tqueue p) \<and> pushed p = popped p @ items (tqueue p) \<and> lock_inv p \<and> count_inv p"

lemma lock_inv_worker:
  assumes "lock_inv p" and "i < length (workers p)"
    and "worker_holds pc \<longleftrightarrow> worker_holds (workers p ! i)"
  shows "lock_inv (set_worker p i pc)"
  using assms by (auto simp: lock_inv_def set_worker_def nth_list_update)

lemma lock_inv_poster:
  assumes "lock_inv p" and "j < length (posters p)"
    and "poster_holds pc \<longleftrightarrow> poster_holds (posters p ! j)"
  shows "lock_inv (set_poster p j pc)"
  using assms by (auto simp: lock_inv_def set_poster_def nth_list_update)

lemma lock_inv_same:
  "workers p' = workers p \<Longrightarrow> posters p' = posters p \<Longrightarrow> sched_lock p' = sched_lock p \<Longrightarrow> lock_inv p' = lock_inv p"
  by (simp add: lock_inv_def)

lemma lock_inv_acquire:
  assumes "lock_inv p" and "sched_lock p = None"
  shows "worker_holds pc \<Longrightarrow> i < length (workers p) \<Longrightarrow> lock_inv (set_worker (p\<lparr>sched_lock := Some (Worker i)\<rparr>) i pc)"
    and "poster_holds pc' \<Longrightarrow> j < length (posters p) \<Longrightarrow> lock_inv (set_poster (p\<lparr>sched_lock := Some (Poster j)\<rparr>) j pc')"
  using assms by (auto simp: lock_inv_def set_worker_def set_poster_def nth_list_update)

lemma lock_inv_release:
  assumes "lock_inv p"
  shows "i < length (workers p) \<Longrightarrow> worker_holds (workers p ! i) \<Longrightarrow> \<not> worker_holds pc \<Longrightarrow>
      lock_inv (set_worker (p\<lparr>sched_lock := None\<rparr>) i pc)"
    and "j < length (posters p) \<Longrightarrow> poster_holds (posters p ! j) \<Longrightarrow> \<not> poster_holds pc' \<Longrightarrow>
      lock_inv (set_poster (p\<lparr>sched_lock := None\<rparr>) j pc')"
  using assms by (auto simp: lock_inv_def set_worker_def set_poster_def nth_list_update)

text \<open>A worker that holds the lock excludes posters between signal and push.\<close>

lemma no_poster_signalled:
  assumes "lock_inv p" and "i < length (workers p)" and "worker_holds (workers p ! i)"
  shows "cnt signalled (posters p) = 0"
proof -
  have "sched_lock p = Some (Worker i)" using assms by (auto simp: lock_inv_def)
  then have "\<not> poster_holds (posters p ! j)" if "j < length (posters p)" for j
    using assms(1) that by (auto simp: lock_inv_def)
  moreover have "signalled pc \<Longrightarrow> poster_holds pc" for pc :: "'a ppc" by (cases pc) auto
  ultimately show ?thesis by (auto simp: cnt_zero)
qed

text \<open>A worker at its pop finds a task.\<close>

lemma pop_finds_task:
  assumes "pool_inv p" and "at_worker p i WPop"
  shows "items (tqueue p) \<noteq> []"
proof -
  have i: "i < length (workers p)" "workers p ! i = WPop" using assms(2) by (auto simp: at_worker_def)
  have s: "cnt signalled (posters p) = 0"
    using no_poster_signalled [of p i] assms(1) i by (auto simp: pool_inv_def)
  have c: "0 < cnt woken (workers p)" "0 < cnt will_pop (workers p)" using i by (auto intro: cnt_pos)
  show ?thesis using assms(1) s c by (cases "phase p") (auto simp: pool_inv_def count_inv_def)
qed

lemma will_pop_woken: "cnt will_pop ws \<le> cnt woken ws"
proof -
  have "will_pop w \<Longrightarrow> woken w" for w :: "'a wpc" by (cases w) auto
  then show ?thesis unfolding cnt_def by (induction ws) (auto simp: le_SucI)
qed

lemmas step_defs = pool_inv_def count_inv_def set_worker_def set_poster_def at_worker_def at_poster_def keep_alive_def

lemma pool_inv_quiet_worker:
  assumes "pool_inv p" and "i < length (workers p)"
    and "worker_holds pc \<longleftrightarrow> worker_holds (workers p ! i)"
    and "phase p = Running \<Longrightarrow> woken pc \<longleftrightarrow> woken (workers p ! i)"
    and "phase p = Starting \<Longrightarrow> \<not> woken pc"
    and "phase p = Stopping \<Longrightarrow> will_pop pc \<Longrightarrow> will_pop (workers p ! i)"
  shows "pool_inv (set_worker p i pc)"
proof -
  have "lock_inv (set_worker p i pc)" using assms by (intro lock_inv_worker) (simp_all add: pool_inv_def)
  moreover have "count_inv (set_worker p i pc)"
    using assms cnt_update [OF assms(2), of woken pc] cnt_update [OF assms(2), of will_pop pc]
    by (cases "phase p") (auto simp: step_defs of_bool_def split: if_splits)
  ultimately show ?thesis using assms(1) by (simp add: pool_inv_def set_worker_def)
qed

lemma pool_inv_wait:
  assumes "pool_inv p" and "at_worker p i WWait" and "tgx_task_queue_wait (snd (tqueue p)) = Some (r, q)"
  shows "pool_inv (set_worker (p\<lparr>tqueue := (fst (tqueue p), q)\<rparr>) i WCheck)"
proof -
  let ?p = "p\<lparr>tqueue := (fst (tqueue p), q)\<rparr>"
  have i: "i < length (workers p)" "workers p ! i = WWait" using assms(2) by (auto simp: at_worker_def)
  have q: "0 < resource (snd (tqueue p))" "q = (snd (tqueue p))\<lparr>resource := resource (snd (tqueue p)) - 1\<rparr>"
    using assms(3) by (auto simp: tgx_task_queue_wait_def split: if_splits)
  have it: "items (fst (tqueue p), q) = items (tqueue p)" "wf_queue (fst (tqueue p), q) = wf_queue (tqueue p)"
    unfolding q(2) by (simp_all)
  have "lock_inv ?p" using assms(1) lock_inv_same [of ?p p] by (simp add: pool_inv_def)
  then have "lock_inv (set_worker ?p i WCheck)" using i by (intro lock_inv_worker) simp_all
  moreover have "count_inv (set_worker ?p i WCheck)"
    using assms(1) q i it cnt_update [OF i(1), of woken WCheck] cnt_update [OF i(1), of will_pop WCheck]
    by (cases "phase p") (auto simp: step_defs)
  ultimately show ?thesis using assms(1) it by (simp add: pool_inv_def set_worker_def)
qed

lemma pool_inv_pop:
  assumes "pool_inv p" and "at_worker p i WPop" and "dequeue (tqueue p) = Inr (Some t, s)"
  shows "pool_inv (set_worker (p\<lparr>tqueue := s, popped := popped p @ [t]\<rparr>) i (WUnlock t))"
proof -
  let ?p = "p\<lparr>tqueue := s, popped := popped p @ [t]\<rparr>"
  have i: "i < length (workers p)" "workers p ! i = WPop" using assms(2) by (auto simp: at_worker_def)
  have w: "wf_queue (tqueue p)" using assms(1) by (simp add: pool_inv_def)
  from tq.take_ok [OF w] assms(3) pop_finds_task [OF assms(1,2)] obtain ts where
    it: "items (tqueue p) = t # ts" "items s = ts" "wf_queue s" by (cases "items (tqueue p)") auto
  note r = dequeue_resource [OF w assms(3)]
  have "lock_inv ?p" using assms(1) lock_inv_same [of ?p p] by (simp add: pool_inv_def)
  then have "lock_inv (set_worker ?p i (WUnlock t))" using i by (intro lock_inv_worker) simp_all
  moreover have "count_inv (set_worker ?p i (WUnlock t))"
    using assms(1) it r i cnt_update [OF i(1), of woken "WUnlock t"] cnt_update [OF i(1), of will_pop "WUnlock t"]
    by (cases "phase p") (auto simp: step_defs)
  ultimately show ?thesis using assms(1) it by (simp add: pool_inv_def set_worker_def)
qed

lemma pool_inv_acquire_worker:
  assumes "pool_inv p" and "at_worker p i WLock" and "sched_lock p = None"
  shows "pool_inv (set_worker (p\<lparr>sched_lock := Some (Worker i)\<rparr>) i WPop)"
proof -
  have i: "i < length (workers p)" "workers p ! i = WLock" using assms(2) by (auto simp: at_worker_def)
  have "lock_inv (set_worker (p\<lparr>sched_lock := Some (Worker i)\<rparr>) i WPop)"
    using assms i by (intro lock_inv_acquire) (simp_all add: pool_inv_def)
  with assms(1) i cnt_update [OF i(1), of woken WPop] cnt_update [OF i(1), of will_pop WPop] show ?thesis
    by (cases "phase p") (auto simp: step_defs)
qed

lemma pool_inv_release_worker:
  assumes "pool_inv p" and "at_worker p i (WUnlock t)"
  shows "pool_inv (set_worker (p\<lparr>sched_lock := None\<rparr>) i (WRun t))"
proof -
  have i: "i < length (workers p)" "workers p ! i = WUnlock t" using assms(2) by (auto simp: at_worker_def)
  have "lock_inv (set_worker (p\<lparr>sched_lock := None\<rparr>) i (WRun t))"
    using assms i by (intro lock_inv_release) (simp_all add: pool_inv_def)
  with assms(1) i cnt_update [OF i(1), of woken "WRun t"] cnt_update [OF i(1), of will_pop "WRun t"] show ?thesis
    by (cases "phase p") (auto simp: step_defs)
qed

lemma pool_inv_poster:
  assumes "pool_inv p" and "at_poster p j pc" and "phase p \<noteq> Starting" and "lock_inv (set_poster p' j pc')"
    and "p' = p\<lparr>sched_lock := l\<rparr>" and "signalled pc' = signalled pc"
  shows "pool_inv (set_poster p' j pc')"
  using assms cnt_update [of j "posters p" signalled pc']
  by (cases "phase p") (auto simp: step_defs)

lemma poster_not_starting: "pool_inv p \<Longrightarrow> at_poster p j pc \<Longrightarrow> pc \<noteq> PIdle \<Longrightarrow> phase p \<noteq> Starting"
  by (auto simp: step_defs)

lemma pool_inv_signal:
  assumes "pool_inv p" and "at_poster p j (PSignal t)"
  shows "pool_inv (set_poster (p\<lparr>tqueue := (fst (tqueue p), snd (tgx_task_queue_signal (snd (tqueue p))))\<rparr>) j (PPush t))"
proof -
  let ?p = "p\<lparr>tqueue := (fst (tqueue p), snd (tgx_task_queue_signal (snd (tqueue p))))\<rparr>"
  have j: "j < length (posters p)" "posters p ! j = PSignal t" using assms(2) by (auto simp: at_poster_def)
  have "lock_inv ?p" using assms(1) lock_inv_same [of ?p p] by (simp add: pool_inv_def)
  then have "lock_inv (set_poster ?p j (PPush t))" using j by (intro lock_inv_poster) simp_all
  with assms(1) j poster_not_starting [OF assms] cnt_update [OF j(1), of signalled "PPush t"] show ?thesis
    by (cases "phase p") (auto simp: step_defs tgx_task_queue_signal_def)
qed

lemma pool_inv_push:
  assumes "pool_inv p" and "at_poster p j (PPush t)" and "enqueue (tqueue p) t = Inr s"
  shows "pool_inv (set_poster (p\<lparr>tqueue := s, pushed := pushed p @ [t]\<rparr>) j PUnlock)"
proof -
  let ?p = "p\<lparr>tqueue := s, pushed := pushed p @ [t]\<rparr>"
  have j: "j < length (posters p)" "posters p ! j = PPush t" using assms(2) by (auto simp: at_poster_def)
  have w: "wf_queue (tqueue p)" using assms(1) by (simp add: pool_inv_def)
  from tq.put_ok [OF w, of t] assms(3) have it: "items s = items (tqueue p) @ [t]" "wf_queue s" by auto
  note r = enqueue_resource [OF w assms(3)]
  have "lock_inv ?p" using assms(1) lock_inv_same [of ?p p] by (simp add: pool_inv_def)
  then have "lock_inv (set_poster ?p j PUnlock)" using j by (intro lock_inv_poster) simp_all
  with assms(1) j it r poster_not_starting [OF assms(1,2)] cnt_update [OF j(1), of signalled PUnlock] show ?thesis
    by (cases "phase p") (auto simp: step_defs)
qed

lemma worker_step_inv: "worker_step p p' \<Longrightarrow> pool_inv p \<Longrightarrow> pool_inv p'"
  by (induction rule: worker_step.induct)
    (auto intro: pool_inv_wait pool_inv_pop pool_inv_acquire_worker pool_inv_release_worker pool_inv_quiet_worker
      simp: at_worker_def keep_alive_def)

lemma poster_step_inv: "poster_step p p' \<Longrightarrow> pool_inv p \<Longrightarrow> pool_inv p'"
proof (induction rule: poster_step.induct)
  case (post_begin p j t)
  have "lock_inv (set_poster p j (PLock t))"
    using post_begin by (intro lock_inv_poster) (auto simp: pool_inv_def at_poster_def)
  with post_begin show ?case by (intro pool_inv_poster [where l = "sched_lock p"]) auto
next
  case (post_lock p j t)
  have "lock_inv (set_poster (p\<lparr>sched_lock := Some (Poster j)\<rparr>) j (PSignal t))"
    using post_lock by (intro lock_inv_acquire(2)) (auto simp: pool_inv_def at_poster_def)
  with post_lock poster_not_starting [of p j "PLock t"] show ?case by (intro pool_inv_poster) auto
next
  case (post_unlock p j)
  have "lock_inv (set_poster (p\<lparr>sched_lock := None\<rparr>) j PIdle)"
    using post_unlock by (intro lock_inv_release(2)) (auto simp: pool_inv_def at_poster_def)
  with post_unlock poster_not_starting [of p j PUnlock] show ?case by (intro pool_inv_poster) auto
qed (auto intro: pool_inv_signal pool_inv_push)

lemma pool_inv_step: "pool_step p p' \<Longrightarrow> pool_inv p \<Longrightarrow> pool_inv p'"
proof (induction rule: pool_step.induct)
  case (start p)
  have "cnt signalled (posters p) = 0" using start by (auto simp: cnt_zero step_defs)
  with start lock_inv_same [of "p\<lparr>phase := Running\<rparr>" p] show ?case by (simp add: step_defs)
next
  case (destroy p)
  with will_pop_woken [of "workers p"] lock_inv_same [of "p\<lparr>phase := Stopping\<rparr>" p] show ?case
    by (simp add: step_defs)
next
  case (destroy_signal p)
  let ?p = "p\<lparr>tqueue := (fst (tqueue p), snd (tgx_task_queue_signal (snd (tqueue p))))\<rparr>"
  from destroy_signal lock_inv_same [of ?p p] show ?case by (simp add: step_defs tgx_task_queue_signal_def)
qed (auto intro: worker_step_inv poster_step_inv)

lemma pool_inv_init: "pool_inv (pool_init nw np :: 't pool)"
proof -
  have "wf_queue (tqueue (pool_init nw np :: 't pool)) \<and> items (tqueue (pool_init nw np :: 't pool)) = []"
    using init_wf [of "\<lparr>cells = (\<lambda>_. None), brk = 0\<rparr> :: 't heap"] by (simp add: pool_init_def)
  then show ?thesis
    by (simp add: pool_inv_def pool_init_def lock_inv_def count_inv_def cnt_def tgx_task_queue_init_def)
qed

lemma reachable_inv: "reachable nw np p \<Longrightarrow> pool_inv p"
  by (induction rule: reachable.induct) (auto intro: pool_inv_init pool_inv_step)

subsection \<open>Properties of the pool\<close>

text \<open>
  C31: However the threads interleave, also during shutdown, a worker that reaches
  \<open>tgx_task_queue_pop_front\<close> gets a task: the pointer it then dereferences is not null, and the queue
  code follows no null or dangling pointer.
\<close>

theorem worker_finds_task:
  assumes "reachable nw np p" and "at_worker p i WPop"
  shows "\<exists>t s. dequeue (tqueue p) = Inr (Some t, s)"
proof -
  have inv: "pool_inv p" using reachable_inv [OF assms(1)] .
  then have "wf_queue (tqueue p)" by (simp add: pool_inv_def)
  from tq.take_ok [OF this] pop_finds_task [OF inv assms(2)] show ?thesis
    by (cases "items (tqueue p)") auto
qed

text \<open>
  C4: Tasks are taken in the order in which they were posted, each at most once, and none is lost:
  at every moment what was posted is what was taken followed by what waits in the queue.
\<close>

theorem tasks_run_in_order:
  assumes "reachable nw np p"
  shows "pushed p = popped p @ items (tqueue p) \<and> prefix (popped p) (pushed p)"
  using reachable_inv [OF assms] by (auto simp: pool_inv_def)

text \<open>
  At most one thread is between lock and unlock of the scheduler lock, be it a worker or a
  poster, so the queue is only ever changed by one thread at a time.
\<close>

theorem pool_mutual_exclusion:
  assumes "reachable nw np p" and "i < length (workers p)" and "worker_holds (workers p ! i)"
  shows "(\<forall>k < length (workers p). worker_holds (workers p ! k) \<longrightarrow> k = i) \<and>
    (\<forall>j < length (posters p). \<not> poster_holds (posters p ! j))"
  using reachable_inv [OF assms(1)] assms(2,3) by (auto simp: pool_inv_def lock_inv_def)

text \<open>
  C7: While the pool runs no wake-up is lost: if a task waits in the queue, then the semaphore is
  positive or a worker has already been woken for it. More exactly, units of the semaphore and woken
  workers together match the tasks in the queue and the posts that have signalled but not yet pushed.
\<close>

theorem no_lost_wakeup:
  assumes "reachable nw np p" and "phase p = Running"
  shows "resource (snd (tqueue p)) + cnt woken (workers p) = length (items (tqueue p)) + cnt signalled (posters p) \<and>
    (items (tqueue p) \<noteq> [] \<longrightarrow> 0 < resource (snd (tqueue p)) \<or> (\<exists>i < length (workers p). woken (workers p ! i)))"
proof -
  have c: "resource (snd (tqueue p)) + cnt woken (workers p) = length (items (tqueue p)) + cnt signalled (posters p)"
    using reachable_inv [OF assms(1)] assms(2) by (simp add: pool_inv_def count_inv_def)
  have "\<exists>i < length (workers p). woken (workers p ! i)"
    if "items (tqueue p) \<noteq> []" "\<not> 0 < resource (snd (tqueue p))"
  proof -
    have "cnt woken (workers p) \<noteq> 0" using c that by auto
    then show ?thesis by (auto simp: cnt_zero)
  qed
  with c show ?thesis by auto
qed

lemma exit_all_workers:
  "k \<le> nw \<Longrightarrow> \<exists>p :: 't pool. reachable nw np p \<and> phase p = Starting \<and> popped p = [] \<and>
     workers p = replicate k WExit @ replicate (nw - k) WTest"
proof (induction k)
  case 0
  then show ?case by (auto intro!: exI [of _ "pool_init nw np"] reachable.init simp: pool_init_def)
next
  case (Suc k)
  then obtain p :: "'t pool" where p: "reachable nw np p" "phase p = Starting" "popped p = []"
      "workers p = replicate k WExit @ replicate (nw - k) WTest" by auto
  have "replicate (nw - k) (WTest :: 't wpc) = WTest # replicate (nw - Suc k) WTest"
    using Suc.prems by (simp flip: replicate_Suc)
  with p(4) have w: "workers p = replicate k WExit @ WTest # replicate (nw - Suc k) WTest" by simp
  then have "at_worker p k WTest" by (simp add: at_worker_def nth_append)
  then have "pool_step p (set_worker p k WExit)" using p(2) by (auto intro!: pool_step.worker worker_step.test_exit simp: keep_alive_def)
  with p(1) have "reachable nw np (set_worker p k WExit)" by (rule reachable.step)
  moreover have "workers (set_worker p k WExit) = replicate (Suc k) WExit @ replicate (nw - Suc k) WTest"
    using w by (simp add: set_worker_def list_update_append replicate_app_Cons_same)
  ultimately show ?case using p by (intro exI [of _ "set_worker p k WExit"]) (simp add: set_worker_def)
qed

lemma exited_stay:
  assumes "pool_step p p'" "list_all (\<lambda>w. w = WExit) (workers p)"
  shows "workers p' = workers p \<and> popped p' = popped p"
proof -
  have "workers p' = workers p \<and> popped p' = popped p" if "worker_step p p'"
    using that assms(2) by (induction rule: worker_step.induct) (auto simp: at_worker_def list_all_length)
  moreover have "workers p' = workers p \<and> popped p' = popped p" if "poster_step p p'"
    using that by (induction rule: poster_step.induct) (auto simp: set_poster_def)
  ultimately show ?thesis using assms(1) by (auto elim: pool_step.cases)
qed

text \<open>
  \<open>tgx_task_schedule_init\<close> sets \<open>keep_alive\<close> only after it has started the threads, and a thread
  that tests it before leaves for good. For every number of workers there is a run in which the pool
  is up, accepts tasks, and no task is ever taken.
\<close>

theorem pool_may_start_dead:
  "\<exists>p :: 't pool. reachable nw np p \<and> phase p = Running \<and> (\<forall>p'. pool_step\<^sup>*\<^sup>* p p' \<longrightarrow> popped p' = [])"
proof -
  obtain p :: "'t pool" where p: "reachable nw np p" "phase p = Starting" "popped p = []" "workers p = replicate nw WExit"
    using exit_all_workers [of nw nw np] by auto
  let ?p = "p\<lparr>phase := Running\<rparr>"
  have "reachable nw np ?p" using p(1,2) by (auto intro: reachable.step pool_step.start)
  moreover have "popped p' = [] \<and> list_all (\<lambda>w. w = WExit) (workers p')" if "pool_step\<^sup>*\<^sup>* ?p p'" for p'
    using that
  proof (induction rule: rtranclp_induct)
    case base
    then show ?case using p(3,4) by (simp add: list_all_iff)
  next
    case (step y z)
    with exited_stay [OF step.hyps(2)] show ?case by simp
  qed
  ultimately show ?thesis by (intro exI [of _ ?p]) auto
qed

theorem pool_may_start_dead_witness:
  "\<exists>p :: nat pool. reachable 3 1 p \<and> phase p = Running \<and> popped p = []"
  using pool_may_start_dead [of 3 1] by blast

text \<open>A run of one worker and one poster, for the examples.\<close>

lemma example_run:
  "\<exists>p :: nat pool. reachable 1 1 p \<and> phase p = Running \<and> workers p = [WPop] \<and> pushed p = [7] \<and> posters p = [PIdle]"
proof -
  define s0 :: "nat heap \<times> task_queue" where "s0 = (\<lparr>cells = (\<lambda>_. None), brk = 0\<rparr>, tgx_task_queue_init)"
  define s1 where "s1 = (fst s0, snd (tgx_task_queue_signal (snd s0)))"
  have "balanced s0" unfolding s0_def by (rule init_balanced)
  then have bal: "wf_queue s0" by (simp add: balanced_def)
  from signal_enqueue [OF bal, of 7] obtain s2
    where s2': "enqueue (fst s0, snd (tgx_task_queue_signal (snd s0))) 7 = Inr s2" "resource (snd s2) = Suc (resource (snd s0))"
    by metis
  then have s2: "enqueue s1 7 = Inr s2" "resource (snd s2) = Suc 0"
    by (simp_all add: s1_def s0_def tgx_task_queue_init_def)
  define q3 where "q3 = (snd s2)\<lparr>resource := 0\<rparr>"
  have w: "tgx_task_queue_wait (snd s2) = Some (0, q3)" using s2(2) by (simp add: tgx_task_queue_wait_def q3_def)
  define P where "P ph l s w ps pu = \<lparr>phase = ph, sched_lock = l, tqueue = s, workers = [w], posters = [ps], pushed = pu, popped = []\<rparr>"
    for ph l s w ps and pu :: "nat list"
  note defs = P_def set_worker_def set_poster_def at_worker_def at_poster_def keep_alive_def
  have "reachable 1 1 (P Starting None s0 WTest PIdle [])"
    using reachable.init [of 1 1] by (simp add: pool_init_def P_def s0_def)
  then have "reachable 1 1 (P Running None s0 WTest PIdle [])"
    using pool_step.start [of "P Starting None s0 WTest PIdle []"] by (auto simp: defs intro: reachable.step)
  then have "reachable 1 1 (P Running None s0 WWait PIdle [])"
    using pool_step.worker [OF worker_step.test_go [of "P Running None s0 WTest PIdle []" 0]] by (auto simp: defs intro: reachable.step)
  then have "reachable 1 1 (P Running None s0 WWait (PLock 7) [])"
    using pool_step.poster [OF poster_step.post_begin [of "P Running None s0 WWait PIdle []" 0 7]] by (auto simp: defs intro: reachable.step)
  then have "reachable 1 1 (P Running (Some (Poster 0)) s0 WWait (PSignal 7) [])"
    using pool_step.poster [OF poster_step.post_lock [of "P Running None s0 WWait (PLock 7) []" 0 7]] by (auto simp: defs intro: reachable.step)
  then have "reachable 1 1 (P Running (Some (Poster 0)) s1 WWait (PPush 7) [])"
    using pool_step.poster [OF poster_step.post_signal [of "P Running (Some (Poster 0)) s0 WWait (PSignal 7) []" 0 7]]
    by (auto simp: defs s1_def intro: reachable.step)
  then have "reachable 1 1 (P Running (Some (Poster 0)) s2 WWait PUnlock [7])"
    using pool_step.poster [OF poster_step.post_push [of "P Running (Some (Poster 0)) s1 WWait (PPush 7) []" 0 7 s2]] s2(1)
    by (auto simp: defs intro: reachable.step)
  then have "reachable 1 1 (P Running None s2 WWait PIdle [7])"
    using pool_step.poster [OF poster_step.post_unlock [of "P Running (Some (Poster 0)) s2 WWait PUnlock [7]" 0]]
    by (auto simp: defs intro: reachable.step)
  then have "reachable 1 1 (P Running None (fst s2, q3) WCheck PIdle [7])"
    using pool_step.worker [OF worker_step.wait_go [of "P Running None s2 WWait PIdle [7]" 0 0 q3]] w by (auto simp: defs intro: reachable.step)
  then have "reachable 1 1 (P Running None (fst s2, q3) WLock PIdle [7])"
    using pool_step.worker [OF worker_step.check_go [of "P Running None (fst s2, q3) WCheck PIdle [7]" 0]] by (auto simp: defs intro: reachable.step)
  then have "reachable 1 1 (P Running (Some (Worker 0)) (fst s2, q3) WPop PIdle [7])"
    using pool_step.worker [OF worker_step.worker_lock [of "P Running None (fst s2, q3) WLock PIdle [7]" 0]] by (auto simp: defs intro: reachable.step)
  then show ?thesis by (auto simp: P_def)
qed

theorem worker_finds_task_witness:
  "\<exists>p :: nat pool. workers p = [WPop] \<and> (\<exists>t s. dequeue (tqueue p) = Inr (Some t, s))"
proof -
  obtain p :: "nat pool" where p: "reachable 1 1 p" "workers p = [WPop]" using example_run by blast
  then have "at_worker p 0 WPop" by (simp add: at_worker_def)
  from worker_finds_task [OF p(1) this] p(2) show ?thesis by blast
qed

theorem tasks_run_in_order_witness:
  "\<exists>p :: nat pool. pushed p = [7] \<and> prefix (popped p) [7]"
proof -
  obtain p :: "nat pool" where p: "reachable 1 1 p" "pushed p = [7]" using example_run by blast
  with tasks_run_in_order [OF p(1)] show ?thesis by auto
qed

theorem pool_mutual_exclusion_witness:
  "\<exists>p :: nat pool. workers p = [WPop] \<and> (\<forall>j < length (posters p). \<not> poster_holds (posters p ! j))"
proof -
  obtain p :: "nat pool" where p: "reachable 1 1 p" "workers p = [WPop]" using example_run by blast
  from pool_mutual_exclusion [OF p(1), of 0] p(2) show ?thesis by auto
qed

theorem no_lost_wakeup_witness:
  "\<exists>p :: nat pool. workers p = [WPop] \<and>
     resource (snd (tqueue p)) + cnt woken (workers p) = length (items (tqueue p)) + cnt signalled (posters p)"
proof -
  obtain p :: "nat pool" where p: "reachable 1 1 p" "workers p = [WPop]" "phase p = Running" using example_run by blast
  from no_lost_wakeup [OF p(1,3)] p(2) show ?thesis by blast
qed

end
