(* ===== verification/PoolStop.thy ===== *)
theory PoolStop
  imports TaskSched
begin

section \<open>Starting and stopping the worker pool\<close>

text \<open>
  \<open>tgx_task_schedule_init\<close> and \<open>tgx_task_schedule_destroy\<close> of src/src/core/tgx_task.c. Destroying is a thread of its own:
  it clears \<open>keep_alive\<close>, signals the semaphore once for every worker, joins the workers one by one
  and then frees the queue, while the workers and the posts that have begun go on.
\<close>

subsection \<open>Definitions\<close>

text \<open>What \<open>calloc\<close>, \<open>pthread_mutex_init\<close>, \<open>sem_init\<close> and \<open>pthread_create\<close> return.\<close>

record sched_env =
  se_sched :: bool
  se_lock :: bool
  se_mutex :: int
  se_queue :: bool
  se_sem :: bool
  se_sem_init :: int
  se_tids :: bool
  se_create :: "nat \<Rightarrow> int"

text \<open>The threads that run afterwards; only a negative result counts as an error.\<close>

primrec start_threads :: "(nat \<Rightarrow> int) \<Rightarrow> nat \<Rightarrow> nat \<Rightarrow> bool list option" where
  "start_threads create i 0 = Some []"
| "start_threads create i (Suc m) =
     (if create i < 0 then None else map_option (\<lambda>bs. (create i = 0) # bs) (start_threads create (Suc i) m))"

text \<open>The entries of \<open>tids\<close> that name a thread, and the pool the threads run in.\<close>

definition tgx_task_schedule_init :: "sched_env \<Rightarrow> int \<Rightarrow> nat \<Rightarrow> (bool list \<times> 't pool) option" where
  "tgx_task_schedule_init env n_threads np =
     (let n = (if n_threads < 1 then 1 else n_threads) in
      if \<not> se_sched env then None
      else if \<not> se_lock env then None
      else if se_mutex env < 0 then None
      else if \<not> se_queue env \<or> \<not> se_sem env \<or> se_sem_init env < 0 then None
      else if \<not> se_tids env then None
      else map_option (\<lambda>bs. (bs, pool_init (length (filter id bs)) np)) (start_threads (se_create env) 0 (nat n)))"

text \<open>Where \<open>tgx_task_schedule_destroy\<close> is: before the signal or the join with that number, before the queue is freed, done.\<close>

datatype dpc = DSignal nat | DJoin nat | DFree | DGone

text \<open>
  One step of the destroying thread, of a worker or of a post. No new post begins: the event loop,
  which posts, has ended. Posts that had begun in a worker, as the completion of a task, are over when
  the workers are joined.
\<close>

inductive stop_step :: "nat \<Rightarrow> 't pool \<times> dpc \<Rightarrow> 't pool \<times> dpc \<Rightarrow> bool" for n where
  work: "worker_step p p' \<Longrightarrow> stop_step n (p, d) (p', d)"
| post: "poster_step p p' \<Longrightarrow> d \<notin> {DFree, DGone} \<Longrightarrow> (\<forall>j. at_poster p j PIdle \<longrightarrow> at_poster p' j PIdle) \<Longrightarrow> stop_step n (p, d) (p', d)"
| signal: "k < n \<Longrightarrow>
    stop_step n (p, DSignal k) (p\<lparr>tqueue := (fst (tqueue p), snd (tgx_task_queue_signal (snd (tqueue p))))\<rparr>, DSignal (Suc k))"
| signals_done: "stop_step n (p, DSignal n) (p, DJoin 0)"
| join: "k < n \<Longrightarrow> at_worker p k WExit \<Longrightarrow> stop_step n (p, DJoin k) (p, DJoin (Suc k))"
| joins_done: "stop_step n (p, DJoin n) (p, DFree)"
| free: "tgx_task_queue_empty (tqueue p) = Inr s \<Longrightarrow> stop_step n (p, DFree) (p\<lparr>tqueue := s\<rparr>, DGone)"

definition stop_begin :: "'t pool \<Rightarrow> 't pool \<times> dpc" where
  "stop_begin p = (p\<lparr>phase := Stopping\<rparr>, DSignal 0)"

subsection \<open>The lock has an owner\<close>

definition owner_ok :: "'t pool \<Rightarrow> bool" where
  "owner_ok p \<longleftrightarrow> (case sched_lock p of None \<Rightarrow> True | Some (Worker i) \<Rightarrow> i < length (workers p) | Some (Poster j) \<Rightarrow> j < length (posters p))"

lemma owner_worker: "worker_step p p' \<Longrightarrow> owner_ok p \<Longrightarrow> owner_ok p'"
  by (induction rule: worker_step.induct)
    (auto simp: owner_ok_def set_worker_def at_worker_def split: option.splits agent.splits)

lemma owner_poster: "poster_step p p' \<Longrightarrow> owner_ok p \<Longrightarrow> owner_ok p'"
  by (induction rule: poster_step.induct)
    (auto simp: owner_ok_def set_poster_def at_poster_def split: option.splits agent.splits)

lemma owner_reachable: "reachable nw np p \<Longrightarrow> owner_ok p"
proof (induction rule: reachable.induct)
  case (step p p')
  from step.hyps(2) show ?case
  proof (cases rule: pool_step.cases)
    case worker
    then show ?thesis using step.IH by (rule owner_worker)
  next
    case poster
    then show ?thesis using step.IH by (rule owner_poster)
  qed (use step.IH in \<open>simp_all add: owner_ok_def split: option.splits agent.splits\<close>)
qed (simp add: owner_ok_def pool_init_def)

subsection \<open>The invariant of the shutdown\<close>

fun signals :: "nat \<Rightarrow> dpc \<Rightarrow> nat" where
  "signals n (DSignal k) = k"
| "signals n _ = n"

definition waiting :: "'t wpc \<Rightarrow> bool" where "waiting w \<longleftrightarrow> w = WWait"
definition exited :: "'t wpc \<Rightarrow> bool" where "exited w \<longleftrightarrow> w = WExit"

lemma pc_tests [simp]:
  "waiting WWait" "\<not> waiting WTest" "\<not> waiting WCheck" "\<not> waiting WLock" "\<not> waiting WPop" "\<not> waiting (WUnlock t)" "\<not> waiting (WRun t)" "\<not> waiting WExit"
  "exited WExit" "\<not> exited WTest" "\<not> exited WCheck" "\<not> exited WLock" "\<not> exited WPop" "\<not> exited (WUnlock t)" "\<not> exited (WRun t)" "\<not> exited WWait"
  by (simp_all add: waiting_def exited_def)

text \<open>
  Units of the semaphore never fall short: those there and those still to be signalled are enough for
  every waiting worker, and what workers took without taking a task is made up by the signals.
\<close>

definition units_ok :: "nat \<Rightarrow> 't pool \<Rightarrow> dpc \<Rightarrow> bool" where
  "units_ok n p d \<longleftrightarrow>
     cnt waiting (workers p) \<le> resource (snd (tqueue p)) + (n - signals n d) \<and>
     length (items (tqueue p)) + cnt signalled (posters p) + signals n d \<le>
       resource (snd (tqueue p)) + cnt woken (workers p) + cnt exited (workers p)"

fun joined :: "nat \<Rightarrow> dpc \<Rightarrow> nat" where
  "joined n (DSignal k) = 0"
| "joined n (DJoin k) = k"
| "joined n _ = n"

definition stop_inv :: "nat \<Rightarrow> 't pool \<times> dpc \<Rightarrow> bool" where
  "stop_inv n x \<longleftrightarrow> (case x of (p, d) \<Rightarrow>
     phase p = Stopping \<and> length (workers p) = n \<and>
     signals n d \<le> n \<and> joined n d \<le> n \<and> (\<forall>i < joined n d. workers p ! i = WExit) \<and>
     (if d = DGone then items (tqueue p) = [] \<and> wf_queue (tqueue p) else pool_inv p \<and> owner_ok p \<and> units_ok n p d))"

lemma worker_frame:
  "worker_step p p' \<Longrightarrow> phase p' = phase p \<and> length (workers p') = length (workers p) \<and> posters p' = posters p \<and>
    (\<forall>i < length (workers p). workers p ! i = WExit \<longrightarrow> workers p' ! i = WExit)"
  by (induction rule: worker_step.induct) (auto simp: set_worker_def at_worker_def nth_list_update)

lemma poster_frame:
  "poster_step p p' \<Longrightarrow> phase p' = phase p \<and> workers p' = workers p \<and> length (posters p') = length (posters p)"
  by (induction rule: poster_step.induct) (auto simp: set_poster_def)

lemma units_quiet:
  assumes "units_ok n p d" "tqueue p' = tqueue p"
  shows "i < length (workers p) \<Longrightarrow> workers p' = (workers p)[i := pc] \<Longrightarrow> posters p' = posters p \<Longrightarrow> \<not> waiting pc \<Longrightarrow>
      of_bool (woken (workers p ! i)) + of_bool (exited (workers p ! i)) \<le> (of_bool (woken pc) + of_bool (exited pc) :: nat) \<Longrightarrow> units_ok n p' d"
    and "j < length (posters p) \<Longrightarrow> posters p' = (posters p)[j := pc'] \<Longrightarrow> workers p' = workers p \<Longrightarrow>
      signalled pc' = signalled (posters p ! j) \<Longrightarrow> units_ok n p' d"
proof -
  show "units_ok n p' d" if u: "i < length (workers p)" "workers p' = (workers p)[i := pc]" "posters p' = posters p" "\<not> waiting pc"
    "of_bool (woken (workers p ! i)) + of_bool (exited (workers p ! i)) \<le> (of_bool (woken pc) + of_bool (exited pc) :: nat)"
    using assms u(2-5) cnt_update [OF u(1), of waiting pc] cnt_update [OF u(1), of woken pc] cnt_update [OF u(1), of exited pc]
    by (auto simp: units_ok_def)
  show "units_ok n p' d" if u: "j < length (posters p)" "posters p' = (posters p)[j := pc']" "workers p' = workers p"
    "signalled pc' = signalled (posters p ! j)"
    using assms u(2-4) cnt_update [OF u(1), of signalled pc'] by (auto simp: units_ok_def)
qed

lemma units_worker:
  assumes "units_ok n p d" "pool_inv p" "phase p = Stopping" "worker_step p p'"
  shows "units_ok n p' d"
  using assms(4)
proof (cases rule: worker_step.cases)
  case (wait_go i r q)
  have q: "0 < resource (snd (tqueue p))" "q = (snd (tqueue p))\<lparr>resource := resource (snd (tqueue p)) - 1\<rparr>"
    using wait_go by (auto simp: tgx_task_queue_wait_def split: if_splits)
  have i: "i < length (workers p)" "workers p ! i = WWait" using wait_go by (auto simp: at_worker_def)
  have it: "items (fst (tqueue p), q) = items (tqueue p)" unfolding q(2) by simp
  from assms(1) q it i wait_go(1) cnt_update [OF i(1), of waiting WCheck] cnt_update [OF i(1), of woken WCheck] cnt_update [OF i(1), of exited WCheck]
  show ?thesis by (auto simp: units_ok_def set_worker_def)
next
  case (worker_pop i t s)
  have i: "i < length (workers p)" "workers p ! i = WPop" using worker_pop by (auto simp: at_worker_def)
  have w: "wf_queue (tqueue p)" using assms(2) by (simp add: pool_inv_def)
  from tq.take_ok [OF w] worker_pop(3) pop_finds_task [OF assms(2) worker_pop(2)] have
    it: "length (items (tqueue p)) = Suc (length (items s))" by (cases "items (tqueue p)") auto
  note r = dequeue_resource [OF w worker_pop(3)]
  from assms(1) it r i worker_pop(1) cnt_update [OF i(1), of waiting "WUnlock t"] cnt_update [OF i(1), of woken "WUnlock t"]
    cnt_update [OF i(1), of exited "WUnlock t"]
  show ?thesis by (auto simp: units_ok_def set_worker_def)
qed (use assms(3) in \<open>auto intro!: units_quiet(1) [OF assms(1)] simp: set_worker_def at_worker_def keep_alive_def\<close>)

lemma units_poster:
  assumes "units_ok n p d" "pool_inv p" "poster_step p p'"
  shows "units_ok n p' d"
  using assms(3)
proof (cases rule: poster_step.cases)
  case (post_push j t s)
  have w: "wf_queue (tqueue p)" using assms(2) by (simp add: pool_inv_def)
  from tq.put_ok [OF w, of t] post_push(3) have it: "items s = items (tqueue p) @ [t]" by auto
  have j: "j < length (posters p)" "posters p ! j = PPush t" using post_push by (auto simp: at_poster_def)
  from assms(1) it j enqueue_resource [OF w post_push(3)] post_push(1) cnt_update [OF j(1), of signalled PUnlock]
  show ?thesis by (auto simp: units_ok_def set_poster_def)
next
  case (post_signal j t)
  have j: "j < length (posters p)" "posters p ! j = PSignal t" using post_signal by (auto simp: at_poster_def)
  from assms(1) j post_signal(1) cnt_update [OF j(1), of signalled "PPush t"]
  show ?thesis by (auto simp: units_ok_def set_poster_def tgx_task_queue_signal_def)
qed (auto intro!: units_quiet(2) [OF assms(1)] simp: set_poster_def at_poster_def)

lemma queue_drain_clears:
  "wf_queue s \<Longrightarrow> length (items s) \<le> resource (snd s) \<Longrightarrow> length (items s) < k \<Longrightarrow>
    \<exists>s'. queue_drain k s = Inr s' \<and> wf_queue s' \<and> items s' = []"
proof (induction k arbitrary: s)
  case (Suc k)
  from tq.take_ok [OF Suc.prems(1)] obtain s1 where
    d: "dequeue s = Inr (case items s of [] \<Rightarrow> None | t # _ \<Rightarrow> Some t, s1)" "wf_queue s1" "items s1 = tl (items s)" by blast
  note r = dequeue_resource [OF Suc.prems(1) d(1)]
  show ?case
  proof (cases "items s")
    case Nil
    let ?q = "(snd s1)\<lparr>n_task := 0, qhead := None, qtail := None\<rparr>"
    obtain as where as: "spine s1 as" using d(2) by (auto simp: wf_queue_def)
    with d(3) Nil spine_items [OF as] have "as = []" by simp
    with as have "spine (fst s1, ?q) []" by (simp add: spine_def)
    then have "wf_queue (fst s1, ?q)" "items (fst s1, ?q) = []" by (auto simp: wf_queue_def dest: spine_items)
    with Nil d(1) show ?thesis by auto
  next
    case (Cons t ts)
    let ?s2 = "(fst s1, (snd s1)\<lparr>resource := resource (snd s1) - 1\<rparr>)"
    have "wf_queue ?s2" "items ?s2 = ts" "length ts \<le> resource (snd ?s2)" "0 < resource (snd s1)"
      using d Cons Suc.prems(2) r by simp_all
    with Suc.IH [of ?s2] Suc.prems(3) Cons d(1) show ?thesis by simp
  qed
qed simp

lemma queue_empty_clears:
  assumes "wf_queue s" "length (items s) \<le> resource (snd s)"
  shows "\<exists>s'. tgx_task_queue_empty s = Inr s' \<and> wf_queue s' \<and> items s' = []"
proof -
  obtain as where as: "spine s as" using assms by (auto simp: wf_queue_def)
  from spine_items [OF as] as have "length (items s) = nat (n_task (snd s))" by (simp add: spine_def)
  with queue_drain_clears [OF assms, of "Suc (nat (n_task (snd s)))"] show ?thesis by (auto simp: tgx_task_queue_empty_def)
qed

lemma all_exited:
  assumes "\<forall>i < length ws. ws ! i = WExit"
  shows "cnt woken ws = 0" "cnt exited ws = length ws" "cnt waiting ws = 0" "cnt will_pop ws = 0"
proof -
  have "ws = replicate (length ws) WExit" using assms by (simp add: list_eq_iff_nth_eq)
  then have e: "\<exists>n. ws = replicate n WExit" by blast
  then show "cnt woken ws = 0" "cnt exited ws = length ws" "cnt waiting ws = 0" "cnt will_pop ws = 0"
    by (auto simp: cnt_def)
qed

lemma exited_queue:
  assumes "stop_inv n (p, d)" "joined n d = n" "d \<noteq> DGone" "signals n d = n"
  shows "length (items (tqueue p)) \<le> resource (snd (tqueue p))" "wf_queue (tqueue p)"
  using assms all_exited [of "workers p"] by (auto simp: stop_inv_def units_ok_def pool_inv_def)

lemma exited_no_worker_step:
  assumes "\<forall>i < length (workers p). workers p ! i = WExit"
  shows "\<not> worker_step p p'"
  using assms by (auto simp: at_worker_def elim!: worker_step.cases)

lemma pool_inv_tqueue:
  assumes "pool_inv p" "phase p = Stopping" "wf_queue s" "items s = items (tqueue p)"
  shows "pool_inv (p\<lparr>tqueue := s\<rparr>)"
  using assms lock_inv_same [of "p\<lparr>tqueue := s\<rparr>" p] by (simp add: pool_inv_def count_inv_def)

lemma owner_same: "owner_ok (p\<lparr>tqueue := s\<rparr>) = owner_ok p" "owner_ok (p\<lparr>phase := ph\<rparr>) = owner_ok p"
  by (auto simp: owner_ok_def split: option.splits agent.splits)

lemma stop_inv_step:
  assumes "stop_step n x x'" "stop_inv n x"
  shows "stop_inv n x'"
  using assms
proof (induction rule: stop_step.induct)
  case (work p p' d)
  note f = worker_frame [OF work.hyps]
  show ?case
  proof (cases "d = DGone")
    case True
    then have "\<forall>i < length (workers p). workers p ! i = WExit" using work.prems by (simp add: stop_inv_def)
    with exited_no_worker_step work.hyps show ?thesis by blast
  next
    case False
    then have inv: "pool_inv p" "owner_ok p" "phase p = Stopping" "units_ok n p d" using work.prems by (simp_all add: stop_inv_def)
    from units_worker [OF inv(4,1,3) work.hyps] worker_step_inv [OF work.hyps inv(1)] owner_worker [OF work.hyps inv(2)]
    show ?thesis using f work.prems False by (auto simp: stop_inv_def)
  qed
next
  case (post p p' d)
  have inv: "pool_inv p" "owner_ok p" "units_ok n p d" using post.prems post.hyps(2) by (auto simp: stop_inv_def)
  from units_poster [OF inv(3,1) post.hyps(1)] poster_step_inv [OF post.hyps(1) inv(1)] owner_poster [OF post.hyps(1) inv(2)]
    poster_frame [OF post.hyps(1)] show ?case using post.prems post.hyps(2) by (auto simp: stop_inv_def)
next
  case (signal k p)
  let ?s = "(fst (tqueue p), snd (tgx_task_queue_signal (snd (tqueue p))))"
  have s: "wf_queue ?s = wf_queue (tqueue p)" "items ?s = items (tqueue p)" "resource (snd ?s) = Suc (resource (snd (tqueue p)))"
    by (simp_all add: tgx_task_queue_signal_def)
  have inv: "pool_inv p" "phase p = Stopping" "units_ok n p (DSignal k)" using signal.prems by (simp_all add: stop_inv_def)
  then have "wf_queue ?s" using s(1) by (simp add: pool_inv_def)
  from pool_inv_tqueue [OF inv(1,2) this s(2)] have "pool_inv (p\<lparr>tqueue := ?s\<rparr>)" .
  moreover have "units_ok n (p\<lparr>tqueue := ?s\<rparr>) (DSignal (Suc k))" using inv(3) s(2,3) signal.hyps by (auto simp: units_ok_def)
  ultimately show ?case using signal by (simp add: stop_inv_def owner_same)
next
  case (free p s)
  have q: "length (items (tqueue p)) \<le> resource (snd (tqueue p))" "wf_queue (tqueue p)" using exited_queue [OF free.prems] by simp_all
  from queue_empty_clears [OF q(2,1)] free.hyps have s: "wf_queue s" "items s = []" by auto
  show ?case using free.prems s by (simp add: stop_inv_def)
qed (auto simp: stop_inv_def units_ok_def at_worker_def less_Suc_eq)

lemma stop_inv_begin:
  assumes "reachable nw np p" "phase p = Running" "length (workers p) = nw"
  shows "stop_inv nw (stop_begin p)"
proof -
  have inv: "pool_inv p" "owner_ok p" using reachable_inv [OF assms(1)] owner_reachable [OF assms(1)] .
  have st: "pool_step p (p\<lparr>phase := Stopping\<rparr>)" using assms(2) by (rule pool_step.destroy)
  have "cnt waiting (workers p) \<le> length (workers p)" by (simp add: cnt_def)
  moreover have "resource (snd (tqueue p)) + cnt woken (workers p) = length (items (tqueue p)) + cnt signalled (posters p)"
    using inv(1) assms(2) by (simp add: pool_inv_def count_inv_def)
  ultimately have "units_ok nw (p\<lparr>phase := Stopping\<rparr>) (DSignal 0)" using assms(3) by (simp add: units_ok_def)
  then show ?thesis using pool_inv_step [OF st inv(1)] inv(2) assms(3) by (simp add: stop_inv_def stop_begin_def owner_same)
qed

lemma reachable_length: "reachable nw np p \<Longrightarrow> length (workers p) = nw \<and> length (posters p) = np"
proof (induction rule: reachable.induct)
  case (step p p')
  from step.hyps(2) show ?case
  proof (cases rule: pool_step.cases)
    case worker
    with worker_frame [OF worker] step.IH show ?thesis by simp
  next
    case poster
    with poster_frame [OF poster] step.IH show ?thesis by simp
  qed (use step.IH in simp_all)
qed (simp add: pool_init_def)

subsection \<open>Every run of the shutdown ends\<close>

fun wrank :: "'t wpc \<Rightarrow> nat" where
  "wrank WExit = 0"
| "wrank WTest = 1"
| "wrank WCheck = 1"
| "wrank WWait = 2"
| "wrank (WRun t) = 2"
| "wrank (WUnlock t) = 3"
| "wrank WPop = 4"
| "wrank WLock = 5"

fun prank :: "'t ppc \<Rightarrow> nat" where
  "prank PIdle = 0"
| "prank PUnlock = 1"
| "prank (PPush t) = 2"
| "prank (PSignal t) = 3"
| "prank (PLock t) = 4"

fun drank :: "nat \<Rightarrow> dpc \<Rightarrow> nat" where
  "drank n (DSignal k) = (n - k) + n + 3"
| "drank n (DJoin k) = (n - k) + 2"
| "drank n DFree = 1"
| "drank n DGone = 0"

definition stop_measure :: "nat \<Rightarrow> 't pool \<times> dpc \<Rightarrow> nat" where
  "stop_measure n x = sum_list (map wrank (workers (fst x))) + sum_list (map prank (posters (fst x))) + drank n (snd x)"

lemma sum_rank_update:
  assumes "i < length xs"
  shows "sum_list (map f (xs[i := x])) + f (xs ! i) = sum_list (map f xs) + (f x :: nat)"
  using assms
proof (induction xs arbitrary: i)
  case (Cons y ys)
  then show ?case by (cases i) auto
qed simp

lemma worker_step_rank:
  assumes "worker_step p p'" "phase p = Stopping"
  shows "sum_list (map wrank (workers p')) < sum_list (map wrank (workers p)) \<and> posters p' = posters p"
proof -
  have "sum_list (map wrank ((workers p)[i := pc])) < sum_list (map wrank (workers p))"
    if "i < length (workers p)" "wrank pc < wrank (workers p ! i)" for i pc
    using sum_rank_update [OF that(1), of wrank pc] that(2) by simp
  with assms show ?thesis by (induction rule: worker_step.induct) (auto simp: set_worker_def at_worker_def keep_alive_def)
qed

lemma poster_step_rank:
  assumes "poster_step p p'" "\<forall>j. at_poster p j PIdle \<longrightarrow> at_poster p' j PIdle"
  shows "sum_list (map prank (posters p')) < sum_list (map prank (posters p)) \<and> workers p' = workers p"
proof -
  have "sum_list (map prank ((posters p)[i := pc])) < sum_list (map prank (posters p))"
    if "i < length (posters p)" "prank pc < prank (posters p ! i)" for i pc
    using sum_rank_update [OF that(1), of prank pc] that(2) by simp
  with assms show ?thesis by (induction rule: poster_step.induct) (auto simp: set_poster_def at_poster_def)
qed

lemma stop_step_measure:
  assumes "stop_step n x x'" "phase (fst x) = Stopping"
  shows "stop_measure n x' < stop_measure n x"
  using assms
proof (induction rule: stop_step.induct)
  case (work p p' d)
  with worker_step_rank [OF work.hyps] show ?case by (simp add: stop_measure_def)
next
  case (post p p' d)
  with poster_step_rank [OF post.hyps(1,3)] show ?case by (simp add: stop_measure_def)
qed (auto simp: stop_measure_def)

subsection \<open>The shutdown is never stuck\<close>

text \<open>Whoever holds the lock can go on.\<close>

lemma holder_moves:
  assumes "pool_inv p" "owner_ok p" "sched_lock p \<noteq> None"
  shows "(\<exists>p'. worker_step p p') \<or> (\<exists>p'. poster_step p p' \<and> (\<forall>j. at_poster p j PIdle \<longrightarrow> at_poster p' j PIdle))"
proof -
  have w: "wf_queue (tqueue p)" and l: "lock_inv p" using assms(1) by (simp_all add: pool_inv_def)
  obtain a where a: "sched_lock p = Some a" using assms(3) by blast
  show ?thesis
  proof (cases a)
    case (Worker i)
    then have i: "i < length (workers p)" "worker_holds (workers p ! i)" using assms(2) a l by (auto simp: owner_ok_def lock_inv_def)
    show ?thesis
    proof (cases "workers p ! i")
      case WPop
      then have at: "at_worker p i WPop" using i(1) by (simp add: at_worker_def)
      from tq.take_ok [OF w] pop_finds_task [OF assms(1) at] obtain t s where "dequeue (tqueue p) = Inr (Some t, s)"
        by (cases "items (tqueue p)") auto
      with worker_step.worker_pop [OF at] show ?thesis by blast
    next
      case (WUnlock t)
      then have "at_worker p i (WUnlock t)" using i(1) by (simp add: at_worker_def)
      from worker_step.worker_unlock [OF this] show ?thesis by blast
    qed (use i(2) in simp_all)
  next
    case (Poster j)
    then have j: "j < length (posters p)" "poster_holds (posters p ! j)" using assms(2) a l by (auto simp: owner_ok_def lock_inv_def)
    have keep: "\<forall>k. at_poster p k PIdle \<longrightarrow> at_poster (set_poster p1 j pc) k PIdle"
      if "posters p1 = posters p" "posters p ! j \<noteq> PIdle" for p1 pc
      using that j(1) by (auto simp: at_poster_def set_poster_def nth_list_update)
    show ?thesis
    proof (cases "posters p ! j")
      case (PSignal t)
      then have "at_poster p j (PSignal t)" using j(1) by (simp add: at_poster_def)
      from poster_step.post_signal [OF this] keep PSignal show ?thesis by fastforce
    next
      case (PPush t)
      then have at: "at_poster p j (PPush t)" using j(1) by (simp add: at_poster_def)
      from tq.put_ok [OF w, of t] obtain s where "enqueue (tqueue p) t = Inr s" by blast
      from poster_step.post_push [OF at this] keep PPush show ?thesis by fastforce
    next
      case PUnlock
      then have "at_poster p j PUnlock" using j(1) by (simp add: at_poster_def)
      from poster_step.post_unlock [OF this] keep PUnlock show ?thesis by fastforce
    qed (use j(2) in simp_all)
  qed
qed

lemma waiting_has_unit:
  assumes "units_ok n p (DJoin k)" "at_worker p i WWait"
  shows "0 < resource (snd (tqueue p))"
proof -
  have "0 < cnt waiting (workers p)" using assms(2) by (auto simp: at_worker_def intro: cnt_pos)
  then show ?thesis using assms(1) by (simp add: units_ok_def)
qed

text \<open>While a worker has not ended, some thread can move that does not begin a new post.\<close>

definition moves :: "'t pool \<Rightarrow> bool" where
  "moves p \<longleftrightarrow> (\<exists>p'. worker_step p p') \<or> (\<exists>p'. poster_step p p' \<and> (\<forall>j. at_poster p j PIdle \<longrightarrow> at_poster p' j PIdle))"

lemma moves_stop:
  assumes "moves p" "d \<notin> {DFree, DGone}"
  shows "\<exists>x. stop_step n (p, d) x"
  using assms unfolding moves_def by (elim disjE exE conjE) (blast intro: stop_step.work stop_step.post)+

lemma worker_moves:
  assumes "k < length (workers p)" "workers p ! k \<noteq> WExit" "\<not> keep_alive p" "pool_inv p" "owner_ok p"
    and "workers p ! k = WWait \<Longrightarrow> 0 < resource (snd (tqueue p))"
  shows "moves p"
proof (cases "workers p ! k")
  case WTest
  then show ?thesis using assms(1,3) worker_step.test_exit [of p k] by (auto simp: at_worker_def moves_def)
next
  case WWait
  then have at: "at_worker p k WWait" using assms(1) by (simp add: at_worker_def)
  have "\<exists>q. tgx_task_queue_wait (snd (tqueue p)) = Some (0, q)"
    using assms(6) [OF WWait] by (simp add: tgx_task_queue_wait_def)
  then show ?thesis using worker_step.wait_go [OF at] by (auto simp: moves_def)
next
  case WCheck
  then show ?thesis using assms(1,3) worker_step.check_exit [of p k] by (auto simp: at_worker_def moves_def)
next
  case WLock
  then show ?thesis using assms(1) worker_step.worker_lock [of p k] holder_moves [OF assms(4,5)]
    by (cases "sched_lock p") (auto simp: at_worker_def moves_def)
next
  case WPop
  then have "sched_lock p \<noteq> None" using assms(1,4) by (auto simp: pool_inv_def lock_inv_def)
  then show ?thesis using holder_moves [OF assms(4,5)] by (auto simp: moves_def)
next
  case (WUnlock t)
  then show ?thesis using assms(1) worker_step.worker_unlock [of p k t] by (auto simp: at_worker_def moves_def)
next
  case (WRun t)
  then show ?thesis using assms(1) worker_step.worker_run [of p k t] by (auto simp: at_worker_def moves_def)
qed (use assms(2) in simp)

lemma stop_progress:
  assumes "stop_inv n (p, d)" "d \<noteq> DGone"
  shows "\<exists>x. stop_step n (p, d) x"
proof (cases d)
  case (DSignal k)
  then have "k \<le> n" using assms(1) by (simp add: stop_inv_def)
  then show ?thesis using DSignal stop_step.signal [of k n p] stop_step.signals_done [of n p] by (cases "k = n") (auto intro: exI)
next
  case DFree
  have "length (items (tqueue p)) \<le> resource (snd (tqueue p))" "wf_queue (tqueue p)"
    using exited_queue [OF assms(1)] DFree by simp_all
  from queue_empty_clears [OF this(2,1)] show ?thesis using DFree stop_step.free by blast
next
  case (DJoin k)
  have inv: "k \<le> n" "length (workers p) = n" "phase p = Stopping" "pool_inv p" "owner_ok p" "units_ok n p (DJoin k)"
    using assms(1) DJoin by (simp_all add: stop_inv_def)
  consider (all) "k = n" | (gone) "k < n" "workers p ! k = WExit" | (here) "k < n" "workers p ! k \<noteq> WExit" using inv(1) by linarith
  then show ?thesis
  proof cases
    case all
    then show ?thesis using DJoin stop_step.joins_done by blast
  next
    case gone
    then show ?thesis using DJoin inv(2) stop_step.join [of k n p] by (auto simp: at_worker_def intro: exI)
  next
    case here
    have "0 < resource (snd (tqueue p))" if "workers p ! k = WWait"
      using waiting_has_unit [OF inv(6)] that here inv(2) by (simp add: at_worker_def)
    then have "moves p" using here inv by (intro worker_moves [of k p]) (simp_all add: keep_alive_def)
    then show ?thesis using DJoin by (intro moves_stop) simp_all
  qed
qed (use assms in simp)

lemma stop_inv_run: "(stop_step n)\<^sup>*\<^sup>* x x' \<Longrightarrow> stop_inv n x \<Longrightarrow> stop_inv n x'"
  by (induction rule: rtranclp_induct) (auto intro: stop_inv_step)

lemma no_infinite_run:
  assumes "stop_inv n (f 0)" "\<forall>i. stop_step n (f i) (f (Suc i))"
  shows False
proof -
  have s: "stop_inv n (f i)" for i using assms by (induction i) (auto intro: stop_inv_step)
  have "phase (fst (f i)) = Stopping" for i using s [of i] by (cases "f i") (simp add: stop_inv_def)
  then have dec: "stop_measure n (f (Suc i)) < stop_measure n (f i)" for i using assms(2) stop_step_measure by blast
  have "stop_measure n (f i) + i \<le> stop_measure n (f 0)" for i
  proof (induction i)
    case (Suc i)
    then show ?case using dec [of i] by simp
  qed simp
  from this [of "Suc (stop_measure n (f 0))"] show False by simp
qed



subsection \<open>Starting the threads\<close>

lemma start_threads_all: "(\<forall>k. create k = 0) \<Longrightarrow> start_threads create i m = Some (replicate m True)"
  by (induction m arbitrary: i) auto

text \<open>
  When every call succeeds, the pool starts with as many workers as were asked for, and with at least one.
\<close>

lemma schedule_init_starts:
  assumes "se_sched env" "se_lock env" "se_mutex env = 0" "se_queue env" "se_sem env" "se_sem_init env = 0" "se_tids env"
    and "\<forall>k. se_create env k = 0"
  shows "tgx_task_schedule_init env n np = Some (replicate (nat (max 1 n)) True, pool_init (nat (max 1 n)) np)"
  using assms start_threads_all [of "se_create env"] by (simp add: tgx_task_schedule_init_def Let_def max_def)

text \<open>
  \<open>pthread_create\<close> reports an error with a positive number, which the code does not test for: when no
  thread can be started the function still returns a pool, and no task is ever taken from it.
\<close>

theorem thread_failure_unnoticed:
  assumes "se_sched env" "se_lock env" "se_mutex env = 0" "se_queue env" "se_sem env" "se_sem_init env = 0" "se_tids env"
    and "\<forall>k. 0 < se_create env k"
  shows "\<exists>bs. tgx_task_schedule_init env n np = Some (bs, pool_init 0 np :: 't pool) \<and> True \<notin> set bs \<and>
    (\<forall>p. pool_step\<^sup>*\<^sup>* (pool_init 0 np :: 't pool) p \<longrightarrow> popped p = [])"
proof -
  have "start_threads (se_create env) i m = Some (replicate m False)" for i m
    using assms(8) by (induction m arbitrary: i) (auto simp: not_less order_less_imp_le, metis less_irrefl)
  then have "tgx_task_schedule_init env n np = Some (replicate (nat (max 1 n)) False, pool_init 0 np :: 't pool)"
    using assms(1-7) by (simp add: tgx_task_schedule_init_def Let_def max_def)
  moreover have "popped p = [] \<and> workers p = []" if "pool_step\<^sup>*\<^sup>* (pool_init 0 np :: 't pool) p" for p
    using that
  proof (induction rule: rtranclp_induct)
    case (step y z)
    with exited_stay [OF step.hyps(2)] show ?case by simp
  qed (simp add: pool_init_def)
  ultimately show ?thesis by auto
qed

theorem thread_failure_unnoticed_witness:
  "\<exists>bs. tgx_task_schedule_init \<lparr>se_sched = True, se_lock = True, se_mutex = 0, se_queue = True, se_sem = True, se_sem_init = 0, se_tids = True,
      se_create = (\<lambda>_. 11)\<rparr> 30 1 = Some (bs, pool_init 0 1 :: nat pool) \<and> True \<notin> set bs"
  using thread_failure_unnoticed [of "\<lparr>se_sched = True, se_lock = True, se_mutex = 0, se_queue = True, se_sem = True, se_sem_init = 0,
      se_tids = True, se_create = (\<lambda>_. 11)\<rparr>" 30 1] by fastforce

end
