(* ===== verification/Config.thy ===== *)
theory Config
  imports CString
begin

section \<open>The configuration file\<close>

text \<open>
  The scanner of the configuration file (src/src/core/tgx.c): the file is read one character at a
  time into a line buffer; a finished line is copied into the arrays of the key and the value, the
  blanks around both are cut off in place, and the pair is handed to the analysis, which writes the
  setting into the cycle. The arrays are lists of characters of their declared size, so that every
  index is checked. The environment answers for the operating system: what \<open>tmpnam\<close> returns at
  its n-th call and whether a file can be opened for writing. Every \<open>read\<close> of one character is an
  event; the end of the list is the end of the file.
\<close>

subsection \<open>Data\<close>

record tgx_cycle =
  port :: int
  srv_root :: string
  lock_file :: string
  log_file :: string
  e_404 :: string

record cfg_env =
  tmpnam :: "nat \<Rightarrow> string option"
  can_write :: "string \<Rightarrow> bool"

record cfg =
  cycle :: tgx_cycle
  tmps :: nat
  disk :: "string \<Rightarrow> string option"

datatype rd_char = RChar char | RIntr | RFail

definition TGX_PORT :: int where "TGX_PORT = 9000"
definition TGX_ROOT :: string where "TGX_ROOT = ''./www''"
definition TGX_LOCK_FILE :: string where "TGX_LOCK_FILE = ''./tgx.pid''"
definition TGX_LOG_FILE :: string where "TGX_LOG_FILE = ''./tgx.log''"

definition TGX_PAGE_404_ERR :: string where
  "TGX_PAGE_404_ERR = ''<!DOCTYPE HTML PUBLIC '' @ [CHR 0x22] @ ''-//IETF//DTD HTML 2.0//EN'' @ [CHR 0x22] @
     ''><html><head><title>404 Not Found</title></head><body><h1>Not Found</h1><p>The requested URL /smms was not found on this server.</p><hr><address>tinyos-graphics/0.0.1 server</address></body></html>''"

definition TGX_SCAN_CONFIG_FILE_MAX_LENGTH :: nat where "TGX_SCAN_CONFIG_FILE_MAX_LENGTH = 1024"
definition TGX_SCAN_CONFIG_FILE_MAX_WLENGTH :: nat where "TGX_SCAN_CONFIG_FILE_MAX_WLENGTH = 512"

lemmas cfg_sizes = TGX_SCAN_CONFIG_FILE_MAX_LENGTH_def TGX_SCAN_CONFIG_FILE_MAX_WLENGTH_def

definition newline :: char where "newline = CHR 0x0A"

definition isblank :: "char \<Rightarrow> bool" where
  "isblank c \<longleftrightarrow> c = CHR '' '' \<or> c = CHR 0x09"

definition cycle_init :: tgx_cycle where
  "cycle_init = \<lparr>port = TGX_PORT, srv_root = TGX_ROOT, lock_file = TGX_LOCK_FILE, log_file = TGX_LOG_FILE, e_404 = []\<rparr>"

subsection \<open>One setting\<close>

definition set_port :: "string \<Rightarrow> cfg \<Rightarrow> (bool \<times> cfg) ub" where
  "set_port v s =
     (if \<not> list_all is_digit v then Inr (False, s)
      else bind_ub (atoi_ub v) (\<lambda>p. Inr (\<not> p > 65535, s\<lparr>cycle := (cycle s)\<lparr>port := p\<rparr>\<rparr>)))"

text \<open>The page every other key writes: \<open>tmpnam\<close>'s file with the default text.\<close>

definition default_page :: "cfg_env \<Rightarrow> cfg \<Rightarrow> cfg ub" where
  "default_page env s = (case tmpnam env (tmps s) of
      None \<Rightarrow> Inl NullDeref
    | Some t \<Rightarrow> bind_ub (put_str 256 t) (\<lambda>t.
        let s = s\<lparr>cycle := (cycle s)\<lparr>e_404 := t\<rparr>, tmps := Suc (tmps s)\<rparr> in
        if can_write env t then Inr (s\<lparr>disk := (disk s)(t \<mapsto> TGX_PAGE_404_ERR)\<rparr>) else Inl NullDeref))"

definition tgx_analyze_configfile :: "cfg_env \<Rightarrow> string \<Rightarrow> string \<Rightarrow> cfg \<Rightarrow> (int \<times> cfg) ub" where
  "tgx_analyze_configfile env key value s =
     bind_ub (if strncmp_eq key ''port'' (length ''port'') then set_port value s else Inr (True, s)) (\<lambda>(ok, s).
     if \<not> ok then Inr (- 1, s)
     else
       bind_ub (if strncmp_eq key ''root'' (length ''root'')
                then bind_ub (put_str 1024 value) (\<lambda>v. Inr (s\<lparr>cycle := (cycle s)\<lparr>srv_root := v\<rparr>\<rparr>)) else Inr s) (\<lambda>s.
       bind_ub (if strncmp_eq key ''lock'' (length ''lock'')
                then bind_ub (put_str 1024 value) (\<lambda>v. Inr (s\<lparr>cycle := (cycle s)\<lparr>lock_file := v\<rparr>\<rparr>)) else Inr s) (\<lambda>s.
       bind_ub (if strncmp_eq key ''log'' (length ''log'')
                then bind_ub (put_str 1024 value) (\<lambda>v. Inr (s\<lparr>cycle := (cycle s)\<lparr>log_file := v\<rparr>\<rparr>)) else Inr s) (\<lambda>s.
       bind_ub (if strncmp_eq key ''err_page 404'' (length ''err_page 404'')
                then bind_ub (put_str 256 value) (\<lambda>v. Inr (s\<lparr>cycle := (cycle s)\<lparr>e_404 := v\<rparr>\<rparr>))
                else default_page env s) (\<lambda>s.
         Inr (0, s))))))"

subsection \<open>Cutting off blanks\<close>

text \<open>
  \<open>tgx_trim\<close> as its two callers use it: \<open>str\<close> points into the array that \<open>answer\<close> is the start
  of. Neither of the two loops over blanks tests for the end of the text.
\<close>

function skip_blanks :: "char list \<Rightarrow> int \<Rightarrow> int ub" where
  "skip_blanks arr p = bind_ub (peek arr p) (\<lambda>c. if isblank c then skip_blanks arr (p + 1) else Inr p)"
  by pat_completeness auto
termination
  by (relation "measure (\<lambda>(arr, p). nat (int (length arr) - p))") (auto simp: peek_def split: if_splits)

function skip_blanks_back :: "char list \<Rightarrow> int \<Rightarrow> int ub" where
  "skip_blanks_back arr p = bind_ub (peek arr p) (\<lambda>c. if isblank c then skip_blanks_back arr (p - 1) else Inr p)"
  by pat_completeness auto
termination
  by (relation "measure (\<lambda>(arr, p). nat (p + 1))") (auto simp: peek_def split: if_splits)

function copy_down :: "char list \<Rightarrow> int \<Rightarrow> int \<Rightarrow> int \<Rightarrow> char list ub" where
  "copy_down arr p_start p_end i =
     (if p_start \<le> p_end
      then bind_ub (peek arr p_start) (\<lambda>c. bind_ub (poke arr i c) (\<lambda>arr. copy_down arr (p_start + 1) p_end (i + 1)))
      else poke arr i NUL)"
  by pat_completeness auto
termination
  by (relation "measure (\<lambda>(arr, p, e, i). nat (e + 1 - p))") auto

declare skip_blanks.simps [simp del] skip_blanks_back.simps [simp del] copy_down.simps [simp del]

definition tgx_trim :: "char list \<Rightarrow> int option \<Rightarrow> int \<Rightarrow> (int \<times> char list) ub" where
  "tgx_trim arr str len = (case str of
      None \<Rightarrow> Inr (- 1, arr)
    | Some str \<Rightarrow>
        if len \<le> 1 then Inr (- 1, arr)
        else bind_ub (skip_blanks arr str) (\<lambda>p_start.
             bind_ub (skip_blanks_back arr (str + len - 1)) (\<lambda>p_end.
             bind_ub (copy_down arr p_start p_end 0) (\<lambda>arr. Inr (0, arr)))))"

subsection \<open>Lines\<close>

record scan =
  buf :: "char list"
  key_arr :: "char list"
  value_arr :: "char list"
  read_pos :: nat
  conf :: cfg

definition memcpy_str :: "char list \<Rightarrow> string \<Rightarrow> char list ub" where
  "memcpy_str arr t = (if length t \<le> length arr then Inr (t @ drop (length t) arr) else Inl OutOfBounds)"

text \<open>Where \<open>strstr\<close> finds a text, as an offset into the array.\<close>

definition strstr_at :: "char list \<Rightarrow> string \<Rightarrow> int option ub" where
  "strstr_at arr n = bind_ub (cstr arr) (\<lambda>s. Inr (map_option (\<lambda>t. int (length s - length t)) (strstr s n)))"

function blank_line :: "char list \<Rightarrow> int \<Rightarrow> bool ub" where
  "blank_line b i = bind_ub (peek b i) (\<lambda>c.
     if c \<noteq> newline then if isblank c then blank_line b (i + 1) else Inr False else Inr True)"
  by pat_completeness auto
termination
  by (relation "measure (\<lambda>(b, i). nat (int (length b) - i))") (auto simp: peek_def split: if_splits)

declare blank_line.simps [simp del]

definition zeros :: "nat \<Rightarrow> char list" where
  "zeros n = replicate n NUL"

text \<open>
  What the loop does with a finished line: \<open>False\<close> is the jump to \<open>err\<close>. The state carries what
  the settings have changed up to then.
\<close>

definition scan_line :: "cfg_env \<Rightarrow> scan \<Rightarrow> (bool \<times> scan) ub" where
  "scan_line env s =
     bind_ub (cstr (buf s)) (\<lambda>line.
     bind_ub (memcpy_str (value_arr s) line) (\<lambda>value.
     bind_ub (memcpy_str (key_arr s) line) (\<lambda>key.
     let s = s\<lparr>value_arr := value, key_arr := key\<rparr> in
     bind_ub (strstr_at key ''='') (\<lambda>e. case e of
       None \<Rightarrow> bind_ub (blank_line (buf s) 0) (\<lambda>blank.
         if blank then Inr (True, s\<lparr>buf := zeros TGX_SCAN_CONFIG_FILE_MAX_LENGTH, read_pos := 0\<rparr>) else Inr (False, s))
     | Some e \<Rightarrow>
         bind_ub (tgx_trim key (Some 0) e) (\<lambda>(r, key).
         if r < 0 then Inr (False, s\<lparr>key_arr := key\<rparr>)
         else
           bind_ub (strstr_at value ''='') (\<lambda>v. bind_ub (strstr_at value [newline]) (\<lambda>n. case (v, n) of
             (Some v, Some n) \<Rightarrow>
               bind_ub (tgx_trim value (Some (v + 1)) (n - (v + 1))) (\<lambda>(r, value).
               if r < 0 then Inr (False, s\<lparr>key_arr := key, value_arr := value\<rparr>)
               else
                 bind_ub (cstr key) (\<lambda>k. bind_ub (cstr value) (\<lambda>v.
                 bind_ub (tgx_analyze_configfile env k v (conf s)) (\<lambda>(r, c).
                 if r < 0 then Inr (False, s\<lparr>key_arr := key, value_arr := value, conf := c\<rparr>)
                 else Inr (True, \<lparr>buf = zeros TGX_SCAN_CONFIG_FILE_MAX_LENGTH,
                                key_arr = zeros TGX_SCAN_CONFIG_FILE_MAX_WLENGTH,
                                value_arr = zeros TGX_SCAN_CONFIG_FILE_MAX_WLENGTH, read_pos = 0, conf = c\<rparr>)))))
           | _ \<Rightarrow> Inl NullDeref)))))))"

primrec scan_loop :: "cfg_env \<Rightarrow> rd_char list \<Rightarrow> scan \<Rightarrow> (int \<times> scan) ub" where
  "scan_loop env [] s = Inr (0, s)"
| "scan_loop env (e # es) s = (case e of
      RIntr \<Rightarrow> scan_loop env es s
    | RFail \<Rightarrow> Inr (- 1, s)
    | RChar c \<Rightarrow>
        bind_ub (poke (buf s) (int (read_pos s)) c) (\<lambda>b.
        let s = s\<lparr>buf := b, read_pos := read_pos s + 1\<rparr> in
        bind_ub (strstr_at b [newline]) (\<lambda>n.
        if n \<noteq> None then bind_ub (scan_line env s) (\<lambda>(ok, s). if ok then scan_loop env es s else Inr (- 1, s))
        else scan_loop env es s)))"

definition scan_init :: "cfg \<Rightarrow> scan" where
  "scan_init c = \<lparr>buf = zeros TGX_SCAN_CONFIG_FILE_MAX_LENGTH, key_arr = zeros TGX_SCAN_CONFIG_FILE_MAX_WLENGTH,
     value_arr = zeros TGX_SCAN_CONFIG_FILE_MAX_WLENGTH, read_pos = 0, conf = c\<rparr>"

text \<open>The whole function; \<open>None\<close> as the file means that \<open>open\<close> fails.\<close>

definition tgx_scan_config_file :: "cfg_env \<Rightarrow> rd_char list option \<Rightarrow> cfg \<Rightarrow> (int \<times> cfg) ub" where
  "tgx_scan_config_file env file c = (case file of
      None \<Rightarrow> Inr (- 1, c)
    | Some es \<Rightarrow> bind_ub (scan_loop env es (scan_init c)) (\<lambda>(r, s). Inr (r, conf s)))"


subsection \<open>Trimming\<close>

lemma skip_blanks_run:
  assumes "list_all isblank b" and "\<not> isblank x"
  shows "skip_blanks (a @ b @ x # r) (int (length a)) = Inr (int (length a + length b))"
  using assms(1)
proof (induction b arbitrary: a)
  case Nil
  then show ?case using assms(2) by (subst skip_blanks.simps) (simp add: nth_append)
next
  case (Cons c b)
  then have "skip_blanks ((a @ [c]) @ b @ x # r) (int (length (a @ [c]))) = Inr (int (length (a @ [c]) + length b))"
    by (intro Cons.IH) simp
  with Cons.prems show ?case by (subst skip_blanks.simps) (simp add: nth_append algebra_simps)
qed

lemma skip_blanks_back_run:
  assumes "list_all isblank b" and "\<not> isblank x"
  shows "skip_blanks_back (a @ x # b @ r) (int (length a + length b)) = Inr (int (length a))"
  using assms(1)
proof (induction b arbitrary: r rule: rev_induct)
  case Nil
  then show ?case using assms(2) by (subst skip_blanks_back.simps) (simp add: nth_append)
next
  case (snoc c b)
  then have "skip_blanks_back (a @ x # b @ (c # r)) (int (length a + length b)) = Inr (int (length a))"
    by (intro snoc.IH) simp
  moreover have "(a @ x # (b @ [c]) @ r) ! (Suc (length a + length b)) = c" by (simp add: nth_append)
  ultimately show ?case using snoc.prems
    by (subst skip_blanks_back.simps) (simp add: peek_def nat_add_distrib)
qed

text \<open>The copy moves a piece of the array down to its place, over text that was read before.\<close>

lemma copy_down_moves:
  assumes "length d \<le> length a" and "length d + length w < length (a @ w @ r)"
  shows "\<exists>r'. copy_down (d @ drop (length d) (a @ w @ r)) (int (length a)) (int (length a + length w) - 1) (int (length d))
           = Inr (d @ w @ NUL # r') \<and> length (d @ w @ NUL # r') = length (a @ w @ r)"
  using assms
proof (induction w arbitrary: a d)
  case Nil
  define m where "m = d @ drop (length d) (a @ r)"
  have l: "length m = length (a @ r)" using Nil.prems by (simp add: m_def)
  have "copy_down m (int (length a)) (int (length a) - 1) (int (length d)) = Inr (m[length d := NUL])"
    using Nil.prems l by (subst copy_down.simps) simp
  moreover have "m[length d := NUL] = d @ NUL # drop (Suc (length d)) (a @ r)"
    using Nil.prems by (simp add: m_def list_update_append Cons_nth_drop_Suc [symmetric] del: drop_append)
  ultimately show ?case using Nil.prems by (intro exI [of _ "drop (Suc (length d)) (a @ r)"]) (simp add: m_def)
next
  case (Cons c w)
  define m where "m = d @ drop (length d) (a @ (c # w) @ r)"
  have lm: "length m = length (a @ (c # w) @ r)" using Cons.prems by (simp add: m_def)
  have at: "m ! length a = c" using Cons.prems(1) by (simp add: m_def nth_append)
  have up: "m[length d := c] = (d @ [c]) @ drop (length (d @ [c])) ((a @ [c]) @ w @ r)"
    using Cons.prems by (simp add: m_def list_update_append Cons_nth_drop_Suc [symmetric] del: drop_append)
  have step: "copy_down m (int (length a)) (int (length a + length (c # w)) - 1) (int (length d)) =
      copy_down (m[length d := c]) (int (length (a @ [c]))) (int (length (a @ [c]) + length w) - 1) (int (length (d @ [c])))"
    using Cons.prems lm at by (subst copy_down.simps) (simp add: algebra_simps)
  have "\<exists>r'. copy_down ((d @ [c]) @ drop (length (d @ [c])) ((a @ [c]) @ w @ r)) (int (length (a @ [c])))
        (int (length (a @ [c]) + length w) - 1) (int (length (d @ [c]))) = Inr ((d @ [c]) @ w @ NUL # r') \<and>
      length ((d @ [c]) @ w @ NUL # r') = length ((a @ [c]) @ w @ r)"
    using Cons.prems by (intro Cons.IH) simp_all
  then show ?case unfolding m_def [symmetric] step up by simp
qed

text \<open>
  A word between blanks is left alone at the start of the array; blanks only, between two characters
  that are none, leave the empty string.
\<close>

lemma tgx_trim_word:
  assumes "list_all isblank b1" "list_all isblank b2" "w \<noteq> []" "\<not> isblank (hd w)" "\<not> isblank (last w)"
    and "2 \<le> length (b1 @ w @ b2)"
  shows "\<exists>r'. tgx_trim (a @ b1 @ w @ b2 @ x # r) (Some (int (length a))) (int (length (b1 @ w @ b2))) = Inr (0, w @ NUL # r')
           \<and> length (w @ NUL # r') = length (a @ b1 @ w @ b2 @ x # r)"
proof -
  let ?arr = "a @ b1 @ w @ b2 @ x # r"
  obtain h t where ht: "w = h # t" using assms(3) by (cases w) auto
  obtain f l where fl: "w = f @ [l]" using assms(3) by (cases w rule: rev_cases) auto
  have s: "skip_blanks ?arr (int (length a)) = Inr (int (length (a @ b1)))"
    using skip_blanks_run [of b1 h a "t @ b2 @ x # r"] assms(1,4) ht by simp
  have e: "skip_blanks_back ?arr (int (length a) + int (length (b1 @ w @ b2)) - 1) = Inr (int (length (a @ b1) + length w) - 1)"
    using skip_blanks_back_run [of b2 l "a @ b1 @ f" "x # r"] assms(2,5) fl by (simp add: algebra_simps)
  obtain r' where c: "copy_down ?arr (int (length (a @ b1))) (int (length (a @ b1) + length w) - 1) 0 = Inr (w @ NUL # r')"
    "length (w @ NUL # r') = length ?arr"
    using copy_down_moves [of "[]" "a @ b1" w "b2 @ x # r"] by auto
  show ?thesis using assms(6) s e c by (intro exI [of _ r']) (simp add: tgx_trim_def)
qed

lemma tgx_trim_blanks:
  assumes "list_all isblank b" "\<not> isblank y" "\<not> isblank x" "2 \<le> length b"
  shows "\<exists>r'. tgx_trim (a @ y # b @ x # r) (Some (int (length a) + 1)) (int (length b)) = Inr (0, NUL # r')
           \<and> length (NUL # r') = length (a @ y # b @ x # r)"
proof -
  let ?arr = "a @ y # b @ x # r"
  have s: "skip_blanks ?arr (int (length a) + 1) = Inr (int (length a) + 1 + int (length b))"
    using skip_blanks_run [OF assms(1,3), of "a @ [y]" r] by (simp add: algebra_simps)
  have e: "skip_blanks_back ?arr (int (length a) + int (length b)) = Inr (int (length a))"
    using skip_blanks_back_run [OF assms(1,2), of a "x # r"] by simp
  have c: "copy_down ?arr (int (length a) + 1 + int (length b)) (int (length a)) 0 = Inr (NUL # tl ?arr)"
    by (subst copy_down.simps) (cases a; simp add: poke_def)
  show ?thesis using assms(4) s e c by (intro exI [of _ "tl ?arr"]) (simp add: tgx_trim_def algebra_simps)
qed


subsection \<open>Finding the parts of a line\<close>

lemma strstr_char: "strstr s [c] = (if c \<in> set s then Some (dropWhile (\<lambda>x. x \<noteq> c) s) else None)"
  by (induction s) auto

lemma strstr_at_found:
  assumes "NUL \<notin> set t" "c \<notin> set t" "c \<noteq> NUL" "NUL \<in> set r"
  shows "strstr_at (t @ c # r) [c] = Inr (Some (int (length t)))"
proof -
  have "cstr (t @ c # r) = Inr (t @ c # takeWhile (\<lambda>x. x \<noteq> NUL) r)"
    using assms by (simp add: cstr_def takeWhile_append)
  moreover have "dropWhile (\<lambda>x. x \<noteq> c) (t @ c # takeWhile (\<lambda>x. x \<noteq> NUL) r) = c # takeWhile (\<lambda>x. x \<noteq> NUL) r"
    using assms(2) by (simp add: dropWhile_append)
  ultimately show ?thesis by (simp add: strstr_at_def strstr_char)
qed

lemma strstr_at_absent:
  assumes "NUL \<in> set arr" "c \<notin> set arr"
  shows "strstr_at arr [c] = Inr None"
  using assms by (auto simp: strstr_at_def cstr_def strstr_char dest: set_takeWhileD)

lemma blank_line_run:
  assumes "list_all isblank b" and "x = newline \<or> \<not> isblank x"
  shows "blank_line (a @ b @ x # r) (int (length a)) = Inr (x = newline)"
  using assms(1)
proof (induction b arbitrary: a)
  case Nil
  then show ?case using assms(2) by (subst blank_line.simps) (auto simp: nth_append)
next
  case (Cons c b)
  then have "blank_line ((a @ [c]) @ b @ x # r) (int (length (a @ [c]))) = Inr (x = newline)"
    by (intro Cons.IH) simp
  moreover have "c \<noteq> newline" using Cons.prems by (auto simp: isblank_def newline_def)
  ultimately show ?case using Cons.prems by (subst blank_line.simps) (simp add: nth_append algebra_simps)
qed

subsection \<open>Well-formed files\<close>

text \<open>
  The format of the file: empty lines, and settings with any blanks around the key and the value.
  The limits are those of the code: a line with its newline fits into the arrays of the key and the
  value together with a terminator, and the text on each side of the equals sign has at least two
  characters, because \<open>tgx_trim\<close> refuses shorter ones.
\<close>

datatype cfg_line = Blank string | Setting string string string string string string

fun print_line :: "cfg_line \<Rightarrow> string" where
  "print_line (Blank b) = b @ [newline]"
| "print_line (Setting b1 k b2 b3 v b4) = b1 @ k @ b2 @ CHR ''='' # b3 @ v @ b4 @ [newline]"

definition plain :: "string \<Rightarrow> bool" where
  "plain s \<longleftrightarrow> NUL \<notin> set s \<and> newline \<notin> set s"

definition no_blank_ends :: "string \<Rightarrow> bool" where
  "no_blank_ends w \<longleftrightarrow> w \<noteq> [] \<and> \<not> isblank (hd w) \<and> \<not> isblank (last w)"

fun wf_line :: "cfg_line \<Rightarrow> bool" where
  "wf_line (Blank b) \<longleftrightarrow> list_all isblank b \<and> length b < 511"
| "wf_line (Setting b1 k b2 b3 v b4) \<longleftrightarrow>
     list_all isblank b1 \<and> list_all isblank b2 \<and> list_all isblank b3 \<and> list_all isblank b4 \<and>
     no_blank_ends k \<and> plain k \<and> CHR ''='' \<notin> set k \<and> (v = [] \<or> no_blank_ends v) \<and> plain v \<and>
     2 \<le> length (b1 @ k @ b2) \<and> 2 \<le> length (b3 @ v @ b4) \<and> length (b1 @ k @ b2 @ b3 @ v @ b4) < 510"

fun setting_of :: "cfg_line \<Rightarrow> (string \<times> string) list" where
  "setting_of (Blank b) = []"
| "setting_of (Setting b1 k b2 b3 v b4) = [(k, v)]"

definition settings :: "cfg_line list \<Rightarrow> (string \<times> string) list" where
  "settings ls = concat (map setting_of ls)"

primrec analyze_all :: "cfg_env \<Rightarrow> (string \<times> string) list \<Rightarrow> cfg \<Rightarrow> (int \<times> cfg) ub" where
  "analyze_all env [] c = Inr (0, c)"
| "analyze_all env (kv # kvs) c =
     bind_ub (tgx_analyze_configfile env (fst kv) (snd kv) c) (\<lambda>(r, c).
       if r < 0 then Inr (- 1, c) else analyze_all env kvs c)"

lemma blanks_plain: "list_all isblank b \<Longrightarrow> plain b \<and> CHR ''='' \<notin> set b"
  by (induction b) (simp_all add: plain_def, auto simp: isblank_def newline_def NUL_def)

lemma plain_append [simp]: "plain (a @ b) \<longleftrightarrow> plain a \<and> plain b"
  and plain_Cons [simp]: "plain (c # b) \<longleftrightarrow> c \<noteq> NUL \<and> c \<noteq> newline \<and> plain b"
  and plain_Nil [simp]: "plain []"
  by (auto simp: plain_def)

lemma special_chars [simp]:
  "CHR ''='' \<noteq> NUL" "NUL \<noteq> CHR ''=''" "CHR ''='' \<noteq> newline" "newline \<noteq> CHR ''=''"
  "newline \<noteq> NUL" "NUL \<noteq> newline" "\<not> isblank newline" "\<not> isblank (CHR ''='')"
  by (simp_all add: NUL_def newline_def isblank_def)

lemma print_line_split:
  assumes "wf_line l"
  obtains t where "print_line l = t @ [newline]" "plain t" "length t < 511"
proof (cases l)
  case (Setting b1 k b2 b3 v b4)
  with assms blanks_plain show ?thesis by (intro that [of "b1 @ k @ b2 @ CHR ''='' # b3 @ v @ b4"]) auto
qed (use assms blanks_plain that in auto)

text \<open>What a blank line may leave behind in the arrays of the key and the value.\<close>

definition stale :: "char list \<Rightarrow> bool" where
  "stale arr \<longleftrightarrow> length arr = TGX_SCAN_CONFIG_FILE_MAX_WLENGTH \<and> last arr = NUL \<and> CHR ''='' \<notin> set arr"

lemma zeros_length [simp]: "length (zeros n) = n"
  by (simp add: zeros_def)

lemma stale_zeros: "stale (zeros TGX_SCAN_CONFIG_FILE_MAX_WLENGTH)"
  by (simp add: stale_def zeros_def cfg_sizes)

lemma stale_memcpy:
  assumes "stale arr" "length t < TGX_SCAN_CONFIG_FILE_MAX_WLENGTH"
  obtains r where "memcpy_str arr t = Inr (t @ r)" "NUL \<in> set r" "CHR ''='' \<notin> set r"
    "length (t @ r) = TGX_SCAN_CONFIG_FILE_MAX_WLENGTH" "last (t @ r) = NUL"
proof (rule that [of "drop (length t) arr"])
  have l: "last (drop (length t) arr) = NUL" "drop (length t) arr \<noteq> []" using assms by (auto simp: stale_def)
  then show "NUL \<in> set (drop (length t) arr)" using last_in_set by metis
  show "last (t @ drop (length t) arr) = NUL" using l by simp
qed (use assms in \<open>auto simp: stale_def memcpy_str_def dest: in_set_dropD\<close>)


lemma cstr_zeros: "plain t \<Longrightarrow> 0 < n \<Longrightarrow> cstr (t @ zeros n) = Inr t"
  using cstr_terminated [of t "zeros (n - 1)"] by (cases n) (simp_all add: zeros_def plain_def)

lemma cstr_line_zeros: "plain t \<Longrightarrow> 0 < n \<Longrightarrow> cstr (t @ newline # zeros n) = Inr (t @ [newline])"
  using cstr_terminated [of "t @ [newline]" "zeros (n - 1)"] by (cases n) (simp_all add: zeros_def plain_def)

lemma trimmed_value:
  assumes "list_all isblank b3" "list_all isblank b4" "v = [] \<or> no_blank_ends v" "plain v" "2 \<le> length (b3 @ v @ b4)"
  shows "\<exists>arr'. tgx_trim (t @ CHR ''='' # b3 @ v @ b4 @ newline # r) (Some (int (length t) + 1)) (int (length (b3 @ v @ b4)))
           = Inr (0, arr') \<and> cstr arr' = Inr v"
proof (cases "v = []")
  case True
  then show ?thesis
    using tgx_trim_blanks [of "b3 @ b4" "CHR ''=''" newline t r] assms cstr_terminated [of "[]"] by fastforce
next
  case False
  with assms(3) have "no_blank_ends v" by simp
  then obtain r' where "tgx_trim ((t @ [CHR ''='']) @ b3 @ v @ b4 @ newline # r) (Some (int (length (t @ [CHR ''='']))))
      (int (length (b3 @ v @ b4))) = Inr (0, v @ NUL # r')"
    using tgx_trim_word [of b3 b4 v "t @ [CHR ''='']" newline r] assms by (auto simp: no_blank_ends_def)
  with assms(4) cstr_terminated [of v r'] show ?thesis
    by (intro exI [of _ "v @ NUL # r'"]) (simp add: plain_def add.commute)
qed

text \<open>A finished line that holds a setting hands exactly this setting to the analysis.\<close>

lemma scan_line_setting:
  assumes wf: "wf_line (Setting b1 k b2 b3 v b4)"
    and bf: "buf s = print_line (Setting b1 k b2 b3 v b4) @ zeros n" and n: "0 < n"
    and st: "stale (key_arr s)" "stale (value_arr s)"
  shows "\<exists>f. (\<forall>c. conf (f c) = c) \<and> scan_line env s = bind_ub (tgx_analyze_configfile env k v (conf s)) (\<lambda>(r, c).
           if r < 0 then Inr (False, f c) else Inr (True, scan_init c))"
proof -
  let ?L = "b1 @ k @ b2" and ?R = "b3 @ v @ b4"
  let ?line = "?L @ CHR ''='' # ?R @ [newline]"
  have pl: "plain ?L" "CHR ''='' \<notin> set ?L" "plain ?R" using wf blanks_plain by auto
  have line: "cstr (buf s) = Inr ?line"
    using cstr_line_zeros [of "?L @ CHR ''='' # ?R" n] pl n bf by simp
  have len: "length ?line < TGX_SCAN_CONFIG_FILE_MAX_WLENGTH" using wf by (simp add: cfg_sizes)
  obtain rv where rv: "memcpy_str (value_arr s) ?line = Inr (?line @ rv)" "NUL \<in> set rv"
    using stale_memcpy [OF st(2) len] by metis
  obtain rk where rk: "memcpy_str (key_arr s) ?line = Inr (?line @ rk)" "NUL \<in> set rk"
    using stale_memcpy [OF st(1) len] by metis
  have eqk: "strstr_at (?line @ rk) ''='' = Inr (Some (int (length ?L)))"
    using strstr_at_found [of ?L "CHR ''=''" "?R @ newline # rk"] pl rk(2) by (simp add: plain_def)
  have eqv: "strstr_at (?line @ rv) ''='' = Inr (Some (int (length ?L)))"
    using strstr_at_found [of ?L "CHR ''=''" "?R @ newline # rv"] pl rv(2) by (simp add: plain_def)
  have nlv: "strstr_at (?line @ rv) [newline] = Inr (Some (int (length ?L) + 1 + int (length ?R)))"
    using strstr_at_found [of "?L @ CHR ''='' # ?R" newline rv] pl rv(2) by (simp add: plain_def algebra_simps)
  obtain r1 where tk: "tgx_trim (?line @ rk) (Some 0) (int (length ?L)) = Inr (0, k @ NUL # r1)"
    using tgx_trim_word [of b1 b2 k "[]" "CHR ''=''" "?R @ newline # rk"] wf by (auto simp: no_blank_ends_def)
  have ck: "cstr (k @ NUL # r1) = Inr k" using wf by (intro cstr_terminated) (simp add: plain_def)
  obtain V where tv: "tgx_trim (?line @ rv) (Some (int (length ?L) + 1)) (int (length ?R)) = Inr (0, V)" and cv: "cstr V = Inr v"
    using trimmed_value [of b3 b4 v ?L rv] wf by auto
  have ln: "int (length ?L) + 1 + int (length ?R) - (int (length ?L) + 1) = int (length ?R)" by simp
  show ?thesis
    by (rule exI [of _ "\<lambda>c. s\<lparr>value_arr := ?line @ rv, key_arr := ?line @ rk, key_arr := k @ NUL # r1, value_arr := V, conf := c\<rparr>"])
      (simp only: scan_line_def line rv(1) rk(1) eqk eqv nlv tk tv ck cv ln bind_ub_simps Let_def prod.case option.case
         scan.simps simp_thms less_irrefl if_False scan_init_def, simp)
qed

lemma scan_line_blank:
  assumes "list_all isblank b" "length b < 511" "buf s = b @ newline # zeros n" "0 < n"
    and st: "stale (key_arr s)" "stale (value_arr s)"
  shows "\<exists>K V. scan_line env s = Inr (True, \<lparr>buf = zeros TGX_SCAN_CONFIG_FILE_MAX_LENGTH, key_arr = K, value_arr = V,
           read_pos = 0, conf = conf s\<rparr>) \<and> stale K \<and> stale V"
proof -
  have pl: "plain b" "CHR ''='' \<notin> set b" using blanks_plain [OF assms(1)] by auto
  have line: "cstr (buf s) = Inr (b @ [newline])" using cstr_line_zeros [OF pl(1) assms(4)] assms(3) by simp
  have len: "length (b @ [newline]) < TGX_SCAN_CONFIG_FILE_MAX_WLENGTH" using assms(2) by (simp add: cfg_sizes)
  obtain rv where rv: "memcpy_str (value_arr s) (b @ [newline]) = Inr ((b @ [newline]) @ rv)" "stale ((b @ [newline]) @ rv)"
    using stale_memcpy [OF st(2) len] pl by (auto simp: stale_def)
  obtain rk where rk: "memcpy_str (key_arr s) (b @ [newline]) = Inr ((b @ [newline]) @ rk)" "stale ((b @ [newline]) @ rk)"
      "NUL \<in> set rk"
    using stale_memcpy [OF st(1) len] pl by (auto simp: stale_def)
  have eqk: "strstr_at ((b @ [newline]) @ rk) ''='' = Inr None"
    using rk by (intro strstr_at_absent) (auto simp: stale_def)
  have bl: "blank_line (buf s) 0 = Inr True"
    using blank_line_run [OF assms(1), of newline "[]" "zeros n"] assms(3) by simp
  show ?thesis
    using rv(2) rk(2) bl
    by (rule_tac exI [of _ "(b @ [newline]) @ rk"], rule_tac exI [of _ "(b @ [newline]) @ rv"])
      (simp add: scan_line_def line rv(1) [simplified] rk(1) [simplified] eqk [simplified])
qed


subsection \<open>Reading the file\<close>

fun chars :: "rd_char list \<Rightarrow> string" where
  "chars [] = []"
| "chars (RChar c # es) = c # chars es"
| "chars (e # es) = chars es"

lemma scan_loop_intr: "RFail \<notin> set es \<Longrightarrow> scan_loop env es s = scan_loop env (map RChar (chars es)) s"
proof (induction es arbitrary: s rule: chars.induct)
  case (2 c es)
  then show ?case by (auto simp: bind_ub_def Let_def split: sum.splits prod.splits)
qed auto

definition at_line :: "string \<Rightarrow> scan \<Rightarrow> bool" where
  "at_line t s \<longleftrightarrow> buf s = t @ zeros (TGX_SCAN_CONFIG_FILE_MAX_LENGTH - length t) \<and> read_pos s = length t"

lemma poke_zeros:
  assumes "buf s = t @ zeros (TGX_SCAN_CONFIG_FILE_MAX_LENGTH - length t)" "length t < TGX_SCAN_CONFIG_FILE_MAX_LENGTH"
  shows "poke (buf s) (int (length t)) c = Inr ((t @ [c]) @ zeros (TGX_SCAN_CONFIG_FILE_MAX_LENGTH - length (t @ [c])))"
proof -
  obtain m where m: "TGX_SCAN_CONFIG_FILE_MAX_LENGTH - length t = Suc m" using assms(2) by (metis Suc_diff_Suc)
  then have "TGX_SCAN_CONFIG_FILE_MAX_LENGTH - length (t @ [c]) = m" by simp
  then show ?thesis using assms m by (simp add: zeros_def list_update_append)
qed

text \<open>Up to the newline the characters only gather in the buffer.\<close>

lemma scan_loop_gathers:
  assumes "at_line t s" "plain (t @ cs)" "length (t @ cs) < TGX_SCAN_CONFIG_FILE_MAX_LENGTH"
  shows "\<exists>s'. at_line (t @ cs) s' \<and> key_arr s' = key_arr s \<and> value_arr s' = value_arr s \<and> conf s' = conf s \<and>
           scan_loop env (map RChar (cs @ ds)) s = scan_loop env (map RChar ds) s'"
  using assms
proof (induction cs arbitrary: t s)
  case (Cons c cs)
  let ?b = "(t @ [c]) @ zeros (TGX_SCAN_CONFIG_FILE_MAX_LENGTH - length (t @ [c]))"
  let ?s = "s\<lparr>buf := ?b, read_pos := read_pos s + 1\<rparr>"
  have p: "poke (buf s) (int (read_pos s)) c = Inr ?b"
    using poke_zeros [of s t c] Cons.prems by (simp add: at_line_def del: append_assoc)
  have "newline \<notin> set ?b" using Cons.prems(2) by (simp add: plain_def zeros_def)
  moreover have "NUL \<in> set ?b" using Cons.prems(3) by (simp add: zeros_def)
  ultimately have n: "strstr_at ?b [newline] = Inr None" by (intro strstr_at_absent)
  have "scan_loop env (map RChar ((c # cs) @ ds)) s = scan_loop env (map RChar (cs @ ds)) ?s"
    using p n by (simp only: scan_loop.simps append_Cons list.map rd_char.case bind_ub_simps Let_def simp_thms if_False)
  moreover have "at_line (t @ [c]) ?s" using Cons.prems(1) by (simp add: at_line_def)
  ultimately show ?case using Cons.IH [of "t @ [c]" ?s] Cons.prems by auto
qed auto

lemma scan_loop_newline:
  assumes "at_line t s" "plain t" "length t + 1 < TGX_SCAN_CONFIG_FILE_MAX_LENGTH"
  shows "\<exists>s'. buf s' = t @ newline # zeros (TGX_SCAN_CONFIG_FILE_MAX_LENGTH - Suc (length t)) \<and>
           key_arr s' = key_arr s \<and> value_arr s' = value_arr s \<and> conf s' = conf s \<and>
           scan_loop env (map RChar (newline # ds)) s =
             bind_ub (scan_line env s') (\<lambda>(ok, s). if ok then scan_loop env (map RChar ds) s else Inr (- 1, s))"
proof -
  let ?b = "(t @ [newline]) @ zeros (TGX_SCAN_CONFIG_FILE_MAX_LENGTH - length (t @ [newline]))"
  let ?s = "s\<lparr>buf := ?b, read_pos := read_pos s + 1\<rparr>"
  have p: "poke (buf s) (int (read_pos s)) newline = Inr ?b"
    using poke_zeros [of s t newline] assms by (simp add: at_line_def del: append_assoc)
  have n: "strstr_at ?b [newline] = Inr (Some (int (length t)))"
    using strstr_at_found [of t newline "zeros (TGX_SCAN_CONFIG_FILE_MAX_LENGTH - Suc (length t))"] assms(2,3)
    by (simp add: plain_def zeros_def)
  have "scan_loop env (map RChar (newline # ds)) s =
      bind_ub (scan_line env ?s) (\<lambda>(ok, s). if ok then scan_loop env (map RChar ds) s else Inr (- 1, s))"
    using p n by (simp only: scan_loop.simps list.map rd_char.case bind_ub_simps Let_def option.distinct not_False_eq_True if_True)
  then show ?thesis by (intro exI [of _ ?s]) simp
qed


text \<open>Reading a printed line leads to the call of \<open>scan_line\<close> with the line in the buffer.\<close>

lemma scan_printed_line:
  assumes "wf_line l" "at_line [] s" "stale (key_arr s)" "stale (value_arr s)"
  obtains t s2 where "print_line l = t @ [newline]" "0 < TGX_SCAN_CONFIG_FILE_MAX_LENGTH - Suc (length t)"
    "buf s2 = t @ newline # zeros (TGX_SCAN_CONFIG_FILE_MAX_LENGTH - Suc (length t))" "stale (key_arr s2)" "stale (value_arr s2)" "conf s2 = conf s"
    "scan_loop env (map RChar (print_line l @ ds)) s =
       bind_ub (scan_line env s2) (\<lambda>(ok, s). if ok then scan_loop env (map RChar ds) s else Inr (- 1, s))"
proof -
  obtain t where t: "print_line l = t @ [newline]" "plain t" "length t < 511" using print_line_split [OF assms(1)] .
  obtain s1 where s1: "at_line t s1" "key_arr s1 = key_arr s" "value_arr s1 = value_arr s" "conf s1 = conf s"
      "scan_loop env (map RChar (t @ newline # ds)) s = scan_loop env (map RChar (newline # ds)) s1"
    using scan_loop_gathers [of "[]" s t env "newline # ds"] assms(2) t(2,3) by (auto simp: cfg_sizes)
  obtain s2 where s2: "buf s2 = t @ newline # zeros (TGX_SCAN_CONFIG_FILE_MAX_LENGTH - Suc (length t))"
      "key_arr s2 = key_arr s1" "value_arr s2 = value_arr s1" "conf s2 = conf s1"
      "scan_loop env (map RChar (newline # ds)) s1 =
         bind_ub (scan_line env s2) (\<lambda>(ok, s). if ok then scan_loop env (map RChar ds) s else Inr (- 1, s))"
    using scan_loop_newline [of t s1 env ds] s1(1) t(2,3) by (auto simp: cfg_sizes)
  have n: "0 < TGX_SCAN_CONFIG_FILE_MAX_LENGTH - Suc (length t)" using t(3) by (simp add: cfg_sizes)
  show thesis by (rule that [OF t(1) n s2(1)]) (use s1 s2 t(1) assms(3,4) in simp_all)
qed

lemma scan_lines:
  assumes "\<forall>l \<in> set ls. wf_line l" "plain rest" "length rest < TGX_SCAN_CONFIG_FILE_MAX_LENGTH"
    and "at_line [] s" "stale (key_arr s)" "stale (value_arr s)"
  shows "bind_ub (scan_loop env (map RChar (concat (map print_line ls) @ rest)) s) (\<lambda>(r, s). Inr (r, conf s)) =
           analyze_all env (settings ls) (conf s)"
  using assms(1,4-6)
proof (induction ls arbitrary: s)
  case Nil
  with scan_loop_gathers [of "[]" s rest env "[]"] assms(2,3) show ?case by (auto simp: settings_def)
next
  case (Cons l ls)
  from Cons.prems(1) have wf: "wf_line l" and wfs: "\<forall>l \<in> set ls. wf_line l" by simp_all
  let ?ds = "concat (map print_line ls) @ rest"
  obtain t s2 where t: "print_line l = t @ [newline]" and n: "0 < TGX_SCAN_CONFIG_FILE_MAX_LENGTH - Suc (length t)"
    and bf2: "buf s2 = t @ newline # zeros (TGX_SCAN_CONFIG_FILE_MAX_LENGTH - Suc (length t))"
    and st: "stale (key_arr s2)" "stale (value_arr s2)" and cs: "conf s2 = conf s"
    and run0: "scan_loop env (map RChar (print_line l @ ?ds)) s =
      bind_ub (scan_line env s2) (\<lambda>(ok, s). if ok then scan_loop env (map RChar ?ds) s else Inr (- 1, s))"
    using scan_printed_line [OF wf Cons.prems(2-4)] .
  have run: "scan_loop env (map RChar (concat (map print_line (l # ls)) @ rest)) s =
      bind_ub (scan_line env s2) (\<lambda>(ok, s). if ok then scan_loop env (map RChar ?ds) s else Inr (- 1, s))"
    using run0 by simp
  show ?case
  proof (cases l)
    case (Blank b)
    with t wf have "b = t" "list_all isblank b" "length b < 511" by simp_all
    then obtain K V where sl: "scan_line env s2 = Inr (True, \<lparr>buf = zeros TGX_SCAN_CONFIG_FILE_MAX_LENGTH, key_arr = K,
        value_arr = V, read_pos = 0, conf = conf s2\<rparr>)" "stale K" "stale V"
      using scan_line_blank [of b s2 _ env] bf2 n st by blast
    let ?s = "\<lparr>buf = zeros TGX_SCAN_CONFIG_FILE_MAX_LENGTH, key_arr = K, value_arr = V, read_pos = 0, conf = conf s2\<rparr>"
    have "bind_ub (scan_loop env (map RChar ?ds) ?s) (\<lambda>(r, s). Inr (r, conf s)) = analyze_all env (settings ls) (conf ?s)"
      by (rule Cons.IH [OF wfs]) (simp_all add: at_line_def sl)
    then show ?thesis using run sl(1) cs Blank by (simp add: settings_def)
  next
    case (Setting b1 k b2 b3 v b4)
    have bf: "buf s2 = print_line (Setting b1 k b2 b3 v b4) @ zeros (TGX_SCAN_CONFIG_FILE_MAX_LENGTH - Suc (length t))"
      using bf2 t Setting by simp
    obtain f where f: "\<forall>c. conf (f c) = c" "scan_line env s2 = bind_ub (tgx_analyze_configfile env k v (conf s2)) (\<lambda>(r, c).
        if r < 0 then Inr (False, f c) else Inr (True, scan_init c))"
      using scan_line_setting [OF wf [unfolded Setting] bf n st, of env] by blast
    have ih: "bind_ub (scan_loop env (map RChar ?ds) (scan_init c)) (\<lambda>(r, s). Inr (r, conf s)) = analyze_all env (settings ls) c" for c
      using Cons.IH [OF wfs, of "scan_init c"] stale_zeros by (simp add: at_line_def scan_init_def)
    have se: "settings (l # ls) = (k, v) # settings ls" using Setting by (simp add: settings_def)
    show ?thesis
    proof (cases "tgx_analyze_configfile env k v (conf s)")
      case (Inr rc)
      obtain r c where rc: "rc = (r, c)" by (cases rc)
      show ?thesis
      proof (cases "r < 0")
        case True
        then show ?thesis using f run Inr rc cs se by simp
      next
        case False
        then show ?thesis using f(2) run Inr rc cs se ih [of c] by simp
      qed
    qed (use f(2) run cs se in simp)
  qed
qed

lemma scan_file:
  assumes "\<forall>l \<in> set ls. wf_line l" "plain rest" "length rest < TGX_SCAN_CONFIG_FILE_MAX_LENGTH"
    and "RFail \<notin> set es" "chars es = concat (map print_line ls) @ rest"
  shows "tgx_scan_config_file env (Some es) c = analyze_all env (settings ls) c"
  using scan_lines [OF assms(1-3), of "scan_init c" env] stale_zeros scan_loop_intr [OF assms(4), of env "scan_init c"] assms(5)
  by (simp add: tgx_scan_config_file_def at_line_def scan_init_def)

subsection \<open>What the settings do\<close>

definition key_is :: "string \<Rightarrow> string \<Rightarrow> bool" where
  "key_is p k \<longleftrightarrow> prefix p k"

lemma strncmp_key: "strncmp_eq k p (length p) \<longleftrightarrow> key_is p k"
  by (simp add: strncmp_eq_def key_is_def take_length_prefix)

text \<open>The last value given to a key; a key is compared up to the length of its name only.\<close>

primrec assigned :: "string \<Rightarrow> (string \<times> string) list \<Rightarrow> string option" where
  "assigned p [] = None"
| "assigned p (kv # kvs) = (case assigned p kvs of
      Some v \<Rightarrow> Some v
    | None \<Rightarrow> if key_is p (fst kv) then Some (snd kv) else None)"

definition or_else :: "'a option \<Rightarrow> 'a \<Rightarrow> 'a" where
  "or_else v d = (case v of None \<Rightarrow> d | Some x \<Rightarrow> x)"

fun assigned_page :: "cfg_env \<Rightarrow> nat \<Rightarrow> string \<Rightarrow> (string \<times> string) list \<Rightarrow> string" where
  "assigned_page env n p [] = p"
| "assigned_page env n p ((k, v) # kvs) =
     (if key_is ''err_page 404'' k then assigned_page env n v kvs else assigned_page env (Suc n) (the (tmpnam env n)) kvs)"

definition valid_setting :: "string \<times> string \<Rightarrow> bool" where
  "valid_setting kv \<longleftrightarrow> (case kv of (k, v) \<Rightarrow> length v < 1024 \<and>
     (key_is ''port'' k \<longrightarrow> list_all is_digit v \<and> atoi v \<le> 65535) \<and> (key_is ''err_page 404'' k \<longrightarrow> length v < 256))"

definition tmp_ok :: "cfg_env \<Rightarrow> bool" where
  "tmp_ok env \<longleftrightarrow> (\<forall>n. case tmpnam env n of None \<Rightarrow> False | Some t \<Rightarrow> length t < 256 \<and> can_write env t)"

lemma atoi_digits_nonneg: "0 \<le> atoi_digits s"
proof -
  have d: "0 \<le> digit_val c" if "is_digit c" for c using that by (simp add: digit_val_def is_digit_def)
  have f: "0 \<le> foldl (\<lambda>n c. 10 * n + digit_val c) m t" if "list_all is_digit t" "0 \<le> m" for m t
    using that
  proof (induction t arbitrary: m)
    case (Cons c t)
    then have "0 \<le> 10 * m + digit_val c" using d [of c] by simp
    with Cons.IH [of "10 * m + digit_val c"] Cons.prems(1) show ?case by simp
  qed simp
  have "list_all is_digit (takeWhile is_digit s)" by (induction s) auto
  then show ?thesis unfolding atoi_digits_def by (rule f) simp
qed

lemma atoi_nonneg:
  assumes "list_all is_digit v"
  shows "0 \<le> atoi v"
proof (cases v)
  case (Cons c cs)
  with assms have "is_digit c" by simp
  then have "\<not> is_space c" "c \<noteq> CHR ''-''" by (auto simp: is_digit_def is_space_def)
  with Cons show ?thesis using atoi_digits_nonneg [of v] atoi_digits_nonneg [of cs] by (simp add: atoi_def)
qed (simp add: atoi_def)


lemma analyze_valid:
  assumes "valid_setting (k, v)" "tmp_ok env"
  shows "\<exists>c'. tgx_analyze_configfile env k v c = Inr (0, c') \<and>
    port (cycle c') = (if key_is ''port'' k then atoi v else port (cycle c)) \<and>
    srv_root (cycle c') = (if key_is ''root'' k then v else srv_root (cycle c)) \<and>
    lock_file (cycle c') = (if key_is ''lock'' k then v else lock_file (cycle c)) \<and>
    log_file (cycle c') = (if key_is ''log'' k then v else log_file (cycle c)) \<and>
    e_404 (cycle c') = (if key_is ''err_page 404'' k then v else the (tmpnam env (tmps c))) \<and>
    tmps c' = (if key_is ''err_page 404'' k then tmps c else Suc (tmps c))"
proof -
  obtain t where t: "tmpnam env (tmps c) = Some t" "length t < 256" "can_write env t"
    using assms(2) by (auto simp: tmp_ok_def split: option.splits)
  have v: "length v < 1024" "key_is ''err_page 404'' k \<Longrightarrow> length v < 256"
    and p: "key_is ''port'' k \<Longrightarrow> list_all is_digit v \<and> atoi v \<le> 65535"
    using assms(1) by (auto simp: valid_setting_def)
  have sp: "set_port v c = Inr (True, c\<lparr>cycle := (cycle c)\<lparr>port := atoi v\<rparr>\<rparr>)" if "key_is ''port'' k"
    using p [OF that] atoi_nonneg [of v] by (simp add: set_port_def atoi_ub_def int_ub_def)
  show ?thesis
    using v t sp
    by (cases "key_is ''port'' k"; cases "key_is ''root'' k"; cases "key_is ''lock'' k"; cases "key_is ''log'' k";
        cases "key_is ''err_page 404'' k")
      (simp_all add: tgx_analyze_configfile_def strncmp_key [of _ "''port''", simplified] strncmp_key [of _ "''root''", simplified]
        strncmp_key [of _ "''lock''", simplified] strncmp_key [of _ "''log''", simplified]
        strncmp_key [of _ "''err_page 404''", simplified] default_page_def Let_def)
qed

lemma analyze_all_valid:
  assumes "\<forall>kv \<in> set kvs. valid_setting kv" "tmp_ok env"
  shows "\<exists>c'. analyze_all env kvs c = Inr (0, c') \<and>
    port (cycle c') = or_else (map_option atoi (assigned ''port'' kvs)) (port (cycle c)) \<and>
    srv_root (cycle c') = or_else (assigned ''root'' kvs) (srv_root (cycle c)) \<and>
    lock_file (cycle c') = or_else (assigned ''lock'' kvs) (lock_file (cycle c)) \<and>
    log_file (cycle c') = or_else (assigned ''log'' kvs) (log_file (cycle c)) \<and>
    e_404 (cycle c') = assigned_page env (tmps c) (e_404 (cycle c)) kvs"
  using assms(1)
proof (induction kvs arbitrary: c)
  case (Cons kv kvs)
  obtain k v where kv: "kv = (k, v)" by (cases kv)
  obtain c1 where c1: "tgx_analyze_configfile env k v c = Inr (0, c1)"
    "port (cycle c1) = (if key_is ''port'' k then atoi v else port (cycle c))"
    "srv_root (cycle c1) = (if key_is ''root'' k then v else srv_root (cycle c))"
    "lock_file (cycle c1) = (if key_is ''lock'' k then v else lock_file (cycle c))"
    "log_file (cycle c1) = (if key_is ''log'' k then v else log_file (cycle c))"
    "e_404 (cycle c1) = (if key_is ''err_page 404'' k then v else the (tmpnam env (tmps c)))"
    "tmps c1 = (if key_is ''err_page 404'' k then tmps c else Suc (tmps c))"
    using analyze_valid [of k v env c] Cons.prems assms(2) kv by auto
  obtain c' where c': "analyze_all env kvs c1 = Inr (0, c')"
    "port (cycle c') = or_else (map_option atoi (assigned ''port'' kvs)) (port (cycle c1))"
    "srv_root (cycle c') = or_else (assigned ''root'' kvs) (srv_root (cycle c1))"
    "lock_file (cycle c') = or_else (assigned ''lock'' kvs) (lock_file (cycle c1))"
    "log_file (cycle c') = or_else (assigned ''log'' kvs) (log_file (cycle c1))"
    "e_404 (cycle c') = assigned_page env (tmps c1) (e_404 (cycle c1)) kvs"
    using Cons.IH [of c1] Cons.prems by auto
  have "analyze_all env (kv # kvs) c = Inr (0, c')" using c1(1) c'(1) kv by simp
  then show ?case using c1(2-) c'(2-) kv
    by (intro exI [of _ c']) (simp add: or_else_def split: option.splits)
qed (simp add: or_else_def)

subsection \<open>Properties\<close>

text \<open>
  C21: Reading a well-formed configuration file succeeds and takes over its settings: the
  file may have empty lines, blanks around keys and values, reads interrupted by signals, and a last
  line without a newline, which is ignored. Afterwards the port, the server root, the lock file and
  the log file are the last values the file gives them, or what they were.
\<close>

theorem config_file_read:
  assumes "\<forall>l \<in> set ls. wf_line l" "\<forall>kv \<in> set (settings ls). valid_setting kv" "tmp_ok env"
    and "plain rest" "length rest < TGX_SCAN_CONFIG_FILE_MAX_LENGTH"
    and "RFail \<notin> set es" "chars es = concat (map print_line ls) @ rest"
  shows "\<exists>c'. tgx_scan_config_file env (Some es) c = Inr (0, c') \<and>
    port (cycle c') = or_else (map_option atoi (assigned ''port'' (settings ls))) (port (cycle c)) \<and>
    srv_root (cycle c') = or_else (assigned ''root'' (settings ls)) (srv_root (cycle c)) \<and>
    lock_file (cycle c') = or_else (assigned ''lock'' (settings ls)) (lock_file (cycle c)) \<and>
    log_file (cycle c') = or_else (assigned ''log'' (settings ls)) (log_file (cycle c)) \<and>
    e_404 (cycle c') = assigned_page env (tmps c) (e_404 (cycle c)) (settings ls)"
  using analyze_all_valid [OF assms(2,3), of c] scan_file [OF assms(1,4-7), of env c] by simp

text \<open>The configuration file of the repository, src/bin/tgx.conf.\<close>

definition tgx_conf :: "cfg_line list" where
  "tgx_conf = [Setting [] ''root'' [] [] ''../www'' [], Setting [] ''port'' [] [] ''9090'' [],
     Setting [] ''err_page 404'' '' '' '' '' ''404.htm'' []]"

definition linux :: cfg_env where
  "linux = \<lparr>tmpnam = (\<lambda>n. Some (''/tmp/file'' @ replicate (n mod 100) (CHR ''a''))), can_write = (\<lambda>_. True)\<rparr>"

lemma tgx_conf_parts:
  "list_all wf_line tgx_conf"
  "settings tgx_conf = [(''root'', ''../www''), (''port'', ''9090''), (''err_page 404'', ''404.htm'')]"
  by code_simp+

lemma tgx_conf_assigned:
  "assigned ''port'' (settings tgx_conf) = Some ''9090''" "assigned ''root'' (settings tgx_conf) = Some ''../www''"
  "assigned ''lock'' (settings tgx_conf) = None" "atoi ''9090'' = 9090"
  "assigned_page linux 0 [] (settings tgx_conf) = ''404.htm''"
  "list_all valid_setting (settings tgx_conf)"
  by code_simp+

lemma linux_tmp_ok: "tmp_ok linux"
proof -
  have "n mod 100 < 247" for n :: nat using mod_less_divisor [of 100 n] by linarith
  then show ?thesis by (simp add: tmp_ok_def linux_def)
qed

theorem config_file_read_witness:
  "\<exists>c'. tgx_scan_config_file linux (Some (map RChar (concat (map print_line tgx_conf) @ ''lo''))) \<lparr>cycle = cycle_init, tmps = 0, disk = Map.empty\<rparr> = Inr (0, c') \<and>
     port (cycle c') = 9090 \<and> srv_root (cycle c') = ''../www'' \<and> lock_file (cycle c') = ''./tgx.pid'' \<and> e_404 (cycle c') = ''404.htm''"
proof -
  let ?es = "map RChar (concat (map print_line tgx_conf) @ ''lo'')"
  have "chars (map RChar t) = t" for t by (induction t) auto
  then have ch: "chars ?es = concat (map print_line tgx_conf) @ ''lo''" .
  have rf: "RFail \<notin> set ?es" by auto
  have wf: "\<forall>l \<in> set tgx_conf. wf_line l" "\<forall>kv \<in> set (settings tgx_conf). valid_setting kv"
    using tgx_conf_parts(1) tgx_conf_assigned(6) by (simp_all add: list_all_iff)
  have "plain ''lo''" "length ''lo'' < TGX_SCAN_CONFIG_FILE_MAX_LENGTH" by (simp_all add: cfg_sizes NUL_def newline_def)
  from config_file_read [OF wf linux_tmp_ok this rf ch, of "\<lparr>cycle = cycle_init, tmps = 0, disk = Map.empty\<rparr>"]
  show ?thesis
    by (rule ex_forward) (use tgx_conf_assigned in \<open>simp add: or_else_def cycle_init_def TGX_LOCK_FILE_def\<close>)
qed

lemma analyze_port:
  assumes "tgx_analyze_configfile env k v c = Inr (r, c')" "0 \<le> r" "0 \<le> port (cycle c) \<and> port (cycle c) \<le> 65535"
  shows "0 \<le> port (cycle c') \<and> port (cycle c') \<le> 65535"
  using assms atoi_nonneg [of v]
  by (auto simp: tgx_analyze_configfile_def set_port_def default_page_def Let_def bind_ub_eq_Inr put_str_Inr
      atoi_ub_def int_ub_Inr split: if_splits option.splits)

lemma scan_line_port:
  assumes "scan_line env s = Inr (True, s')" "0 \<le> port (cycle (conf s)) \<and> port (cycle (conf s)) \<le> 65535"
  shows "0 \<le> port (cycle (conf s')) \<and> port (cycle (conf s')) \<le> 65535"
  using assms analyze_port
  by (auto simp: scan_line_def Let_def bind_ub_eq_Inr split: if_splits option.splits prod.splits) fastforce+

lemma scan_loop_port:
  "scan_loop env es s = Inr (0, s') \<Longrightarrow> 0 \<le> port (cycle (conf s)) \<and> port (cycle (conf s)) \<le> 65535 \<Longrightarrow>
   0 \<le> port (cycle (conf s')) \<and> port (cycle (conf s')) \<le> 65535"
proof (induction es arbitrary: s)
  case (Cons e es)
  show ?case
  proof (cases e)
    case (RChar c)
    with Cons.prems(1) obtain b n where b: "poke (buf s) (int (read_pos s)) c = Inr b" "strstr_at b [newline] = Inr n"
      by (auto simp: Let_def bind_ub_eq_Inr)
    let ?s = "s\<lparr>buf := b, read_pos := read_pos s + 1\<rparr>"
    show ?thesis
    proof (cases "n = None")
      case True
      with b RChar Cons.prems have "scan_loop env es ?s = Inr (0, s')" by (simp add: Let_def)
      then show ?thesis by (rule Cons.IH) (use Cons.prems in simp)
    next
      case False
      with b RChar Cons.prems obtain s1 where s1: "scan_line env ?s = Inr (True, s1)" "scan_loop env es s1 = Inr (0, s')"
        by (auto simp: Let_def bind_ub_eq_Inr split: if_splits)
      have "0 \<le> port (cycle (conf s1)) \<and> port (cycle (conf s1)) \<le> 65535"
        by (rule scan_line_port [OF s1(1)]) (use Cons.prems in simp)
      with s1(2) show ?thesis by (rule Cons.IH)
    qed
  qed (use Cons in auto)
qed simp




subsection \<open>Where the scanner goes wrong\<close>

text \<open>
  Every setting but \<open>err_page 404\<close> resets the error page to a fresh temporary file, so the configured
  page survives only when it is the last setting of the file.
\<close>

lemma err_page_reset:
  assumes "tgx_analyze_configfile env k v c = Inr (0, c')" "\<not> key_is ''err_page 404'' k"
  shows "\<exists>t. tmpnam env (tmps c) = Some t \<and> e_404 (cycle c') = t"
  using assms
  by (auto simp: tgx_analyze_configfile_def strncmp_key [of _ "''err_page 404''", simplified] default_page_def set_port_def
      Let_def bind_ub_eq_Inr put_str_Inr split: if_splits option.splits)

text \<open>A key of blanks only sends the backward loop of \<open>tgx_trim\<close> over the start of the array.\<close>

lemma blank_key_fault:
  assumes "list_all isblank b" "2 \<le> length b"
  shows "tgx_trim (b @ CHR ''='' # r) (Some 0) (int (length b)) = Inl OutOfBounds"
proof -
  have s: "skip_blanks (b @ CHR ''='' # r) 0 = Inr (int (length b))"
    using skip_blanks_run [OF assms(1), of "CHR ''=''" "[]" r] by simp
  have "skip_blanks_back (b' @ q) (int (length b') - 1) = Inl OutOfBounds" if "list_all isblank b'" for b' q
    using that
  proof (induction b' arbitrary: q rule: rev_induct)
    case Nil
    then show ?case by (subst skip_blanks_back.simps) (simp add: peek_def)
  next
    case (snoc x xs)
    then show ?case using snoc.IH [of "x # q"]
      by (subst skip_blanks_back.simps) (simp add: peek_def nth_append)
  qed
  from this [OF assms(1)] s assms(2) show ?thesis by (simp add: tgx_trim_def)
qed

text \<open>A line longer than the arrays of the key and the value is copied over their ends.\<close>

lemma long_line_fault:
  assumes "cstr (buf s) = Inr line" "TGX_SCAN_CONFIG_FILE_MAX_WLENGTH < length line"
    "length (value_arr s) = TGX_SCAN_CONFIG_FILE_MAX_WLENGTH"
  shows "scan_line env s = Inl OutOfBounds"
  using assms by (simp add: scan_line_def memcpy_str_def)

end
