(* ===== verification/Startup.thy ===== *)
theory Startup
  imports Config
begin

unbundle bit_operations_syntax

section \<open>Starting the web server\<close>

text \<open>
  The first half of \<open>main\<close> (src/src/core/tgx.c): the options, the daemon, the lock file, the
  configuration, the socket, the server root, and the parent process that keeps a fixed number of
  worker processes alive. The answers of the operating system are arguments.
\<close>

subsection \<open>Options\<close>

definition TGX_BITSET :: "nat \<Rightarrow> u32" where "TGX_BITSET x = push_bit x 1"
definition TGX_DO_NOT_DAEMON :: u32 where "TGX_DO_NOT_DAEMON = TGX_BITSET 0"
definition TGX_DO_SHOW_HELP :: u32 where "TGX_DO_SHOW_HELP = TGX_BITSET 1"
definition TGX_DO_SHOW_VERSION :: u32 where "TGX_DO_SHOW_VERSION = TGX_BITSET 2"
definition TGX_DO_TEST_CONFIG_FILE :: u32 where "TGX_DO_TEST_CONFIG_FILE = TGX_BITSET 3"
definition TGX_USE_USER_PREFIX :: u32 where "TGX_USE_USER_PREFIX = TGX_BITSET 4"
definition TGX_CONFIG_FILE :: string where "TGX_CONFIG_FILE = ''./tgx.conf''"
definition MAX_CHILD_NUM :: nat where "MAX_CHILD_NUM = 4"

lemmas option_bits = TGX_DO_NOT_DAEMON_def TGX_DO_SHOW_HELP_def TGX_DO_SHOW_VERSION_def TGX_DO_TEST_CONFIG_FILE_def
  TGX_USE_USER_PREFIX_def TGX_BITSET_def

text \<open>What \<open>getopt_long\<close> recognises.\<close>

datatype option_arg = Opt_no_daemon | Opt_c string | Opt_p string | Opt_h | Opt_t | Opt_v | Opt_invalid

record options =
  opt :: u32
  tconf_path :: string
  prefix_arg :: string

definition options_init :: options where
  "options_init = \<lparr>opt = 0, tconf_path = TGX_CONFIG_FILE, prefix_arg = []\<rparr>"

text \<open>The loop over the options; \<open>None\<close> is the return of \<open>-1\<close> for one it does not know.\<close>

primrec parse_options :: "option_arg list \<Rightarrow> options \<Rightarrow> options option ub" where
  "parse_options [] s = Inr (Some s)"
| "parse_options (a # as) s = (case a of
      Opt_no_daemon \<Rightarrow> parse_options as (s\<lparr>opt := opt s OR TGX_DO_NOT_DAEMON\<rparr>)
    | Opt_c f \<Rightarrow> bind_ub (put_str 1024 f) (\<lambda>f. parse_options as (s\<lparr>tconf_path := f\<rparr>))
    | Opt_p d \<Rightarrow> bind_ub (put_str 1024 d) (\<lambda>d. parse_options as (s\<lparr>prefix_arg := d, opt := opt s OR TGX_USE_USER_PREFIX\<rparr>))
    | Opt_h \<Rightarrow> parse_options as (s\<lparr>opt := opt s OR TGX_DO_SHOW_HELP\<rparr>)
    | Opt_t \<Rightarrow> parse_options as (s\<lparr>opt := opt s OR TGX_DO_TEST_CONFIG_FILE\<rparr>)
    | Opt_v \<Rightarrow> parse_options as (s\<lparr>opt := opt s OR TGX_DO_SHOW_VERSION\<rparr>)
    | Opt_invalid \<Rightarrow> Inr None)"

subsection \<open>The order of the steps\<close>

datatype lock_answer = Lock_free | Lock_held | Lock_error

record start_env =
  daemon_exit :: "int option"
  lock_state :: "string \<Rightarrow> lock_answer"
  config_files :: "string \<Rightarrow> rd_char list option"
  cfg_world :: cfg_env
  can_bind :: "int \<Rightarrow> bool"
  can_chdir :: "string \<Rightarrow> bool"

datatype start_result = Leaves int | Serves cfg

definition cfg_init :: cfg where
  "cfg_init = \<lparr>cycle = cycle_init, tmps = 0, disk = Map.empty\<rparr>"

text \<open>
  \<open>tgx_already_running\<close>: \<open>None\<close> when it lets the server go on. It ends the process with 1 when the
  file cannot be opened or locked for another reason than that somebody holds the lock.
\<close>

definition tgx_already_running :: "start_env \<Rightarrow> string \<Rightarrow> int option" where
  "tgx_already_running env f = (case lock_state env f of Lock_free \<Rightarrow> None | Lock_held \<Rightarrow> Some (- 1) | Lock_error \<Rightarrow> Some 1)"

text \<open>From the configuration to the change of the directory.\<close>

definition load_and_bind :: "start_env \<Rightarrow> options \<Rightarrow> start_result ub" where
  "load_and_bind env o' =
     bind_ub (tgx_scan_config_file (cfg_world env) (config_files env (tconf_path o')) cfg_init) (\<lambda>(r, c).
     if r < 0 then Inr (Leaves (- 1))
     else if \<not> can_bind env (port (cycle c)) then Inr (Leaves (- 1))
     else
       let c = (if opt o' AND TGX_USE_USER_PREFIX \<noteq> 0 then c\<lparr>cycle := (cycle c)\<lparr>srv_root := prefix_arg o'\<rparr>\<rparr> else c) in
       if \<not> can_chdir env (srv_root (cycle c)) then Inr (Leaves (- 1)) else Inr (Serves c))"

definition main_start :: "start_env \<Rightarrow> option_arg list \<Rightarrow> start_result ub" where
  "main_start env as = bind_ub (parse_options as options_init) (\<lambda>r. case r of
      None \<Rightarrow> Inr (Leaves (- 1))
    | Some o' \<Rightarrow>
        if opt o' AND TGX_DO_SHOW_HELP \<noteq> 0 then Inr (Leaves 0)
        else if opt o' AND TGX_DO_SHOW_VERSION \<noteq> 0 then Inr (Leaves 0)
        else (case (if opt o' AND TGX_DO_NOT_DAEMON = 0 then daemon_exit env else None) of
          Some e \<Rightarrow> Inr (Leaves e)
        | None \<Rightarrow> (case tgx_already_running env (lock_file cycle_init) of
            Some e \<Rightarrow> Inr (Leaves e)
          | None \<Rightarrow> load_and_bind env o')))"

subsection \<open>The parent process\<close>

text \<open>
  The loop that forks workers: a count of forks that were tried and not waited for, and the children
  that were not reaped. \<open>wait\<close> returns when a child ended; without children it returns at once.
\<close>

datatype fork_answer = Fork_fails | In_parent | In_child

record supervisor =
  numChild :: nat
  live :: nat

definition sv_fork :: "fork_answer \<Rightarrow> supervisor \<Rightarrow> supervisor option" where
  "sv_fork a s = (if numChild s < MAX_CHILD_NUM
     then (case a of In_child \<Rightarrow> None | In_parent \<Rightarrow> Some (s\<lparr>live := live s + 1\<rparr>) | Fork_fails \<Rightarrow> Some s) else Some s)"

definition sv_wait :: "supervisor \<Rightarrow> supervisor" where
  "sv_wait s = (if numChild s \<ge> MAX_CHILD_NUM then s\<lparr>live := live s - 1, numChild := numChild s - 1\<rparr> else s)"

text \<open>The state before each call of \<open>wait\<close> and the state after all rounds, \<open>None\<close> in a child.\<close>

primrec supervise :: "fork_answer list \<Rightarrow> supervisor \<Rightarrow> supervisor list \<times> supervisor option" where
  "supervise [] s = ([], Some s)"
| "supervise (a # as) s = (case sv_fork a s of
      None \<Rightarrow> ([], None)
    | Some s \<Rightarrow>
        let s = s\<lparr>numChild := numChild s + 1\<rparr>; (ws, r) = supervise as (sv_wait s) in
        (if numChild s \<ge> MAX_CHILD_NUM then s # ws else ws, r))"

subsection \<open>Properties\<close>

definition no_test :: "options \<Rightarrow> options" where
  "no_test s = s\<lparr>opt := opt s AND NOT TGX_DO_TEST_CONFIG_FILE\<rparr>"

lemma no_test_updates:
  "no_test (s\<lparr>tconf_path := x\<rparr>) = (no_test s)\<lparr>tconf_path := x\<rparr>"
  "no_test (s\<lparr>opt := opt s OR TGX_DO_TEST_CONFIG_FILE\<rparr>) = no_test s"
  "b \<in> {TGX_DO_NOT_DAEMON, TGX_USE_USER_PREFIX, TGX_DO_SHOW_HELP, TGX_DO_SHOW_VERSION} \<Longrightarrow>
     no_test (s\<lparr>opt := opt s OR b\<rparr>) = (no_test s)\<lparr>opt := opt (no_test s) OR b\<rparr>"
  "no_test (s\<lparr>prefix_arg := x, opt := opt s OR TGX_USE_USER_PREFIX\<rparr>) =
     (no_test s)\<lparr>prefix_arg := x, opt := opt (no_test s) OR TGX_USE_USER_PREFIX\<rparr>"
proof -
  have f: "(x OR b) AND NOT c = (x AND NOT c) OR (b AND NOT c)" for x b c :: u32 by (simp add: bit_eq_iff bit_simps) blast
  have b: "TGX_DO_NOT_DAEMON AND NOT TGX_DO_TEST_CONFIG_FILE = TGX_DO_NOT_DAEMON"
    "TGX_USE_USER_PREFIX AND NOT TGX_DO_TEST_CONFIG_FILE = TGX_USE_USER_PREFIX"
    "TGX_DO_SHOW_HELP AND NOT TGX_DO_TEST_CONFIG_FILE = TGX_DO_SHOW_HELP"
    "TGX_DO_SHOW_VERSION AND NOT TGX_DO_TEST_CONFIG_FILE = TGX_DO_SHOW_VERSION"
    "TGX_DO_TEST_CONFIG_FILE AND NOT TGX_DO_TEST_CONFIG_FILE = 0"
    by (simp_all add: option_bits)
  show "no_test (s\<lparr>tconf_path := x\<rparr>) = (no_test s)\<lparr>tconf_path := x\<rparr>"
    "no_test (s\<lparr>opt := opt s OR TGX_DO_TEST_CONFIG_FILE\<rparr>) = no_test s"
    "no_test (s\<lparr>prefix_arg := x, opt := opt s OR TGX_USE_USER_PREFIX\<rparr>) =
       (no_test s)\<lparr>prefix_arg := x, opt := opt (no_test s) OR TGX_USE_USER_PREFIX\<rparr>"
    by (cases s; simp add: no_test_def f b)+
  show "no_test (s\<lparr>opt := opt s OR b\<rparr>) = (no_test s)\<lparr>opt := opt (no_test s) OR b\<rparr>"
    if "b \<in> {TGX_DO_NOT_DAEMON, TGX_USE_USER_PREFIX, TGX_DO_SHOW_HELP, TGX_DO_SHOW_VERSION}"
    using that b by (auto simp: no_test_def f)
qed

lemma parse_options_test:
  "parse_options (filter (\<lambda>a. a \<noteq> Opt_t) as) (no_test s) = bind_ub (parse_options as s) (\<lambda>r. Inr (map_option no_test r))"
proof (induction as arbitrary: s)
  case (Cons a as)
  have u: "(no_test s)\<lparr>opt := opt (no_test s) OR b\<rparr> = no_test (s\<lparr>opt := opt s OR b\<rparr>)"
    if "b \<in> {TGX_DO_NOT_DAEMON, TGX_USE_USER_PREFIX, TGX_DO_SHOW_HELP, TGX_DO_SHOW_VERSION}" for b
    using no_test_updates(3) [OF that, of s] by simp
  show ?case
  proof (cases a)
    case (Opt_c x)
    then show ?thesis using Cons.IH [of "s\<lparr>tconf_path := x\<rparr>"] by (cases "length x < 1024") (simp_all add: no_test_updates(1))
  next
    case (Opt_p x)
    then show ?thesis using Cons.IH [of "s\<lparr>prefix_arg := x, opt := opt s OR TGX_USE_USER_PREFIX\<rparr>"]
      by (cases "length x < 1024") (simp_all add: no_test_updates(4))
  next
    case Opt_t
    then show ?thesis using Cons.IH [of "s\<lparr>opt := opt s OR TGX_DO_TEST_CONFIG_FILE\<rparr>"] by (simp add: no_test_updates(2))
  next
    case Opt_no_daemon
    then show ?thesis using Cons.IH [of "s\<lparr>opt := opt s OR TGX_DO_NOT_DAEMON\<rparr>"] u [of TGX_DO_NOT_DAEMON] by simp
  next
    case Opt_h
    then show ?thesis using Cons.IH [of "s\<lparr>opt := opt s OR TGX_DO_SHOW_HELP\<rparr>"] u [of TGX_DO_SHOW_HELP] by simp
  next
    case Opt_v
    then show ?thesis using Cons.IH [of "s\<lparr>opt := opt s OR TGX_DO_SHOW_VERSION\<rparr>"] u [of TGX_DO_SHOW_VERSION] by simp
  qed simp
qed simp

lemma no_test_bits:
  "opt (no_test s) AND TGX_DO_SHOW_HELP = opt s AND TGX_DO_SHOW_HELP"
  "opt (no_test s) AND TGX_DO_SHOW_VERSION = opt s AND TGX_DO_SHOW_VERSION"
  "opt (no_test s) AND TGX_DO_NOT_DAEMON = opt s AND TGX_DO_NOT_DAEMON"
  "opt (no_test s) AND TGX_USE_USER_PREFIX = opt s AND TGX_USE_USER_PREFIX"
proof -
  have a: "(x AND NOT c) AND b = x AND (b AND NOT c)" for x b c :: u32 by (simp add: ac_simps)
  have p: "opt (no_test s) = opt s AND NOT TGX_DO_TEST_CONFIG_FILE" by (simp add: no_test_def)
  show "opt (no_test s) AND TGX_DO_SHOW_HELP = opt s AND TGX_DO_SHOW_HELP"
    "opt (no_test s) AND TGX_DO_SHOW_VERSION = opt s AND TGX_DO_SHOW_VERSION"
    "opt (no_test s) AND TGX_DO_NOT_DAEMON = opt s AND TGX_DO_NOT_DAEMON"
    "opt (no_test s) AND TGX_USE_USER_PREFIX = opt s AND TGX_USE_USER_PREFIX"
    unfolding p a by (simp_all add: option_bits)
qed

text \<open>
  The option \<open>-t\<close>, which the help text describes as "test configuration and exit", has no
  effect at all: the server starts as without it.
\<close>

theorem test_option_ignored: "main_start env (filter (\<lambda>a. a \<noteq> Opt_t) as) = main_start env as"
proof -
  have i: "no_test options_init = options_init" by (simp add: no_test_def options_init_def)
  have lb: "load_and_bind env (no_test s) = load_and_bind env s" for s
  proof -
    have "tconf_path (no_test s) = tconf_path s" "prefix_arg (no_test s) = prefix_arg s" by (simp_all add: no_test_def)
    then show ?thesis
      by (cases "tgx_scan_config_file (cfg_world env) (config_files env (tconf_path s)) cfg_init")
        (auto simp: load_and_bind_def no_test_bits Let_def split: prod.splits)
  qed
  have "parse_options (filter (\<lambda>a. a \<noteq> Opt_t) as) options_init = bind_ub (parse_options as options_init) (\<lambda>r. Inr (map_option no_test r))"
    using parse_options_test [of as options_init] by (simp only: i)
  then show ?thesis
  proof (cases "parse_options as options_init")
    case (Inr r)
    with \<open>parse_options (filter _ as) options_init = _\<close> show ?thesis
      by (cases r) (simp_all add: main_start_def no_test_bits lb split: option.splits)
  qed (simp add: main_start_def)
qed


text \<open>What the options select: the last configuration file and the last prefix, if any was given.\<close>

primrec chosen_conf :: "option_arg list \<Rightarrow> string \<Rightarrow> string" where
  "chosen_conf [] f = f"
| "chosen_conf (a # as) f = chosen_conf as (case a of Opt_c g \<Rightarrow> g | _ \<Rightarrow> f)"

primrec chosen_prefix :: "option_arg list \<Rightarrow> string option \<Rightarrow> string option" where
  "chosen_prefix [] d = d"
| "chosen_prefix (a # as) d = chosen_prefix as (case a of Opt_p e \<Rightarrow> Some e | _ \<Rightarrow> d)"

definition plain_option :: "option_arg \<Rightarrow> bool" where
  "plain_option a \<longleftrightarrow> (case a of Opt_c f \<Rightarrow> length f < 1024 | Opt_p d \<Rightarrow> length d < 1024 | Opt_no_daemon \<Rightarrow> True | Opt_t \<Rightarrow> True | _ \<Rightarrow> False)"

definition options_ok :: "options \<Rightarrow> string \<Rightarrow> string option \<Rightarrow> bool" where
  "options_ok s f d \<longleftrightarrow> tconf_path s = f \<and> opt s AND TGX_DO_SHOW_HELP = 0 \<and> opt s AND TGX_DO_SHOW_VERSION = 0 \<and>
     (case d of None \<Rightarrow> opt s AND TGX_USE_USER_PREFIX = 0 | Some e \<Rightarrow> opt s AND TGX_USE_USER_PREFIX \<noteq> 0 \<and> prefix_arg s = e)"

lemma or_bits:
  "(x OR b) AND c = (x AND c) OR (b AND c)" for x b c :: u32
  by (simp add: bit_eq_iff bit_simps) blast

lemma bit_products:
  "TGX_DO_NOT_DAEMON AND TGX_DO_SHOW_HELP = 0" "TGX_DO_NOT_DAEMON AND TGX_DO_SHOW_VERSION = 0" "TGX_DO_NOT_DAEMON AND TGX_USE_USER_PREFIX = 0"
  "TGX_DO_TEST_CONFIG_FILE AND TGX_DO_SHOW_HELP = 0" "TGX_DO_TEST_CONFIG_FILE AND TGX_DO_SHOW_VERSION = 0" "TGX_DO_TEST_CONFIG_FILE AND TGX_USE_USER_PREFIX = 0"
  "TGX_USE_USER_PREFIX AND TGX_DO_SHOW_HELP = 0" "TGX_USE_USER_PREFIX AND TGX_DO_SHOW_VERSION = 0" "TGX_USE_USER_PREFIX AND TGX_USE_USER_PREFIX = TGX_USE_USER_PREFIX"
  by (simp_all add: option_bits)

lemma prefix_bit: "TGX_USE_USER_PREFIX \<noteq> 0"
  by (simp add: option_bits)

lemma parse_options_ok:
  assumes "list_all plain_option as" "options_ok s f d"
  shows "\<exists>s'. parse_options as s = Inr (Some s') \<and> options_ok s' (chosen_conf as f) (chosen_prefix as d)"
  using assms
proof (induction as arbitrary: s f d)
  case (Cons a as)
  show ?case
  proof (cases a)
    case Opt_no_daemon
    have "options_ok (s\<lparr>opt := opt s OR TGX_DO_NOT_DAEMON\<rparr>) f d"
      using Cons.prems(2) by (cases d) (simp_all add: options_ok_def or_bits bit_products)
    with Cons.IH [of "s\<lparr>opt := opt s OR TGX_DO_NOT_DAEMON\<rparr>" f d] Cons.prems Opt_no_daemon show ?thesis by simp
  next
    case (Opt_c x)
    have "options_ok (s\<lparr>tconf_path := x\<rparr>) x d" using Cons.prems(2) by (cases d) (simp_all add: options_ok_def)
    with Cons.IH [of "s\<lparr>tconf_path := x\<rparr>" x d] Cons.prems Opt_c show ?thesis by (simp add: plain_option_def)
  next
    case (Opt_p x)
    have "options_ok (s\<lparr>prefix_arg := x, opt := opt s OR TGX_USE_USER_PREFIX\<rparr>) f (Some x)"
      using Cons.prems(2) prefix_bit by (simp add: options_ok_def or_bits bit_products)
    with Cons.IH [of "s\<lparr>prefix_arg := x, opt := opt s OR TGX_USE_USER_PREFIX\<rparr>" f "Some x"] Cons.prems Opt_p show ?thesis
      by (simp add: plain_option_def)
  next
    case Opt_t
    have "options_ok (s\<lparr>opt := opt s OR TGX_DO_TEST_CONFIG_FILE\<rparr>) f d"
      using Cons.prems(2) by (cases d) (simp_all add: options_ok_def or_bits bit_products)
    with Cons.IH [of "s\<lparr>opt := opt s OR TGX_DO_TEST_CONFIG_FILE\<rparr>" f d] Cons.prems Opt_t show ?thesis by simp
  qed (use Cons.prems in \<open>simp_all add: plain_option_def\<close>)
qed simp

lemma options_init_ok: "options_ok options_init TGX_CONFIG_FILE None"
  by (simp add: options_ok_def options_init_def)


lemma main_start_plain:
  assumes "list_all plain_option as" "daemon_exit env = None"
  shows "\<exists>s. options_ok s (chosen_conf as TGX_CONFIG_FILE) (chosen_prefix as None) \<and>
    main_start env as = (case tgx_already_running env TGX_LOCK_FILE of Some e \<Rightarrow> Inr (Leaves e) | None \<Rightarrow> load_and_bind env s)"
proof -
  obtain s where s: "parse_options as options_init = Inr (Some s)" "options_ok s (chosen_conf as TGX_CONFIG_FILE) (chosen_prefix as None)"
    using parse_options_ok [OF assms(1) options_init_ok] by blast
  then show ?thesis using assms(2)
    by (intro exI [of _ s]) (simp add: main_start_def options_ok_def cycle_init_def)
qed

lemma main_start_serves:
  assumes opts: "list_all plain_option as" "daemon_exit env = None" "lock_state env TGX_LOCK_FILE = Lock_free"
    and fl: "config_files env (chosen_conf as TGX_CONFIG_FILE) = Some es" "RFail \<notin> set es" "chars es = concat (map print_line ls) @ rest"
      "plain rest" "length rest < TGX_SCAN_CONFIG_FILE_MAX_LENGTH"
    and wf: "\<forall>l \<in> set ls. wf_line l" "\<forall>kv \<in> set (settings ls). valid_setting kv" "tmp_ok (cfg_world env)"
    and p: "p = or_else (map_option atoi (assigned ''port'' (settings ls))) TGX_PORT" "can_bind env p"
    and d: "d = or_else (chosen_prefix as None) (or_else (assigned ''root'' (settings ls)) TGX_ROOT)" "can_chdir env d"
  shows "\<exists>c. main_start env as = Inr (Serves c) \<and> port (cycle c) = p \<and> srv_root (cycle c) = d"
proof -
  obtain s where s: "options_ok s (chosen_conf as TGX_CONFIG_FILE) (chosen_prefix as None)" "main_start env as = load_and_bind env s"
    using main_start_plain [OF opts(1,2)] opts(3) by (auto simp: tgx_already_running_def)
  obtain c where c: "analyze_all (cfg_world env) (settings ls) cfg_init = Inr (0, c)" "port (cycle c) = p"
      "srv_root (cycle c) = or_else (assigned ''root'' (settings ls)) TGX_ROOT"
    using analyze_all_valid [OF wf(2,3), of cfg_init] p(1) by (auto simp: cfg_init_def cycle_init_def)
  have "tgx_scan_config_file (cfg_world env) (config_files env (tconf_path s)) cfg_init = Inr (0, c)"
    using scan_file [OF wf(1) fl(4,5,2,3), of "cfg_world env" cfg_init] c(1) fl(1) s(1) by (simp add: options_ok_def)
  then show ?thesis
    using s c(2,3) p(2) d
    by (cases "chosen_prefix as None") (auto simp: load_and_bind_def Let_def options_ok_def or_else_def)
qed

text \<open>
  The server starts: with options it knows, a free lock file and a well-formed
  configuration, it comes to serve with the port of the configuration and with the directory of the
  last \<open>-p\<close> option, or of the configuration, or the default, if the operating system lets it bind
  that port and enter that directory.
\<close>

theorem startup_serves:
  assumes opts: "list_all plain_option as" "daemon_exit env = None" "lock_state env TGX_LOCK_FILE = Lock_free"
    and fl: "config_files env (chosen_conf as TGX_CONFIG_FILE) = Some es" "RFail \<notin> set es" "chars es = concat (map print_line ls) @ rest"
      "plain rest" "length rest < TGX_SCAN_CONFIG_FILE_MAX_LENGTH"
    and wf: "\<forall>l \<in> set ls. wf_line l" "\<forall>kv \<in> set (settings ls). valid_setting kv" "tmp_ok (cfg_world env)"
    and p: "p = or_else (map_option atoi (assigned ''port'' (settings ls))) TGX_PORT" "can_bind env p"
    and d: "d = or_else (chosen_prefix as None) (or_else (assigned ''root'' (settings ls)) TGX_ROOT)" "can_chdir env d"
  shows "\<exists>c. main_start env as = Inr (Serves c) \<and> port (cycle c) = p \<and> srv_root (cycle c) = d"
  using assms by (rule main_start_serves)

definition shipped_start :: start_env where
  "shipped_start = \<lparr>daemon_exit = None, lock_state = (\<lambda>_. Lock_free), config_files = (\<lambda>_. Some (map RChar (concat (map print_line tgx_conf)))),
     cfg_world = linux, can_bind = (\<lambda>p. 1024 \<le> p), can_chdir = (\<lambda>d. d = ''/srv'')\<rparr>"

lemma shipped_parts:
  defines "es \<equiv> map RChar (concat (map print_line tgx_conf))"
  shows "daemon_exit shipped_start = None" "lock_state shipped_start TGX_LOCK_FILE = Lock_free"
    "config_files shipped_start f = Some es" "RFail \<notin> set es" "chars es = concat (map print_line tgx_conf) @ []"
    "plain []" "length ([] :: string) < TGX_SCAN_CONFIG_FILE_MAX_LENGTH"
    "\<forall>l \<in> set tgx_conf. wf_line l" "\<forall>kv \<in> set (settings tgx_conf). valid_setting kv" "tmp_ok (cfg_world shipped_start)"
    "9090 = or_else (map_option atoi (assigned ''port'' (settings tgx_conf))) TGX_PORT"
    "can_bind shipped_start 9090" "can_chdir shipped_start ''/srv''"
proof -
  have "chars (map RChar t) = t" for t by (induction t) auto
  then show "chars es = concat (map print_line tgx_conf) @ []" by (simp only: append_Nil2 es_def)
  show "RFail \<notin> set es" by (auto simp: es_def)
  show "\<forall>l \<in> set tgx_conf. wf_line l" "\<forall>kv \<in> set (settings tgx_conf). valid_setting kv"
    using tgx_conf_parts(1) tgx_conf_assigned(6) by (simp_all add: list_all_iff)
  show "9090 = or_else (map_option atoi (assigned ''port'' (settings tgx_conf))) TGX_PORT"
    using tgx_conf_assigned by (simp add: or_else_def)
qed (simp_all add: shipped_start_def linux_tmp_ok es_def cfg_sizes)

theorem startup_serves_witness:
  "\<exists>c. main_start shipped_start [Opt_no_daemon, Opt_p ''/srv''] = Inr (Serves c) \<and> port (cycle c) = 9090 \<and> srv_root (cycle c) = ''/srv''"
proof -
  have a: "list_all plain_option [Opt_no_daemon, Opt_p ''/srv'']" by (simp add: plain_option_def)
  have d: "''/srv'' = or_else (chosen_prefix [Opt_no_daemon, Opt_p ''/srv''] None) (or_else (assigned ''root'' (settings tgx_conf)) TGX_ROOT)"
    by (simp add: or_else_def)
  show ?thesis by (rule startup_serves [OF a shipped_parts(1-12) d shipped_parts(13)])
qed

text \<open>The lock file is tested before the configuration is read: a configured one changes nothing.\<close>

lemma default_lock_decides:
  assumes "list_all plain_option as" "daemon_exit env = None" "lock_state env TGX_LOCK_FILE = Lock_held"
  shows "main_start env as = Inr (Leaves (- 1))"
  using main_start_plain [OF assms(1,2)] assms(3) by (auto simp: tgx_already_running_def)

subsection \<open>Workers\<close>

definition fails :: "fork_answer list \<Rightarrow> nat" where
  "fails as = length (filter (\<lambda>a. a = Fork_fails) as)"

lemma supervise_counts:
  assumes "In_child \<notin> set as" "numChild s < MAX_CHILD_NUM" "numChild s = live s + k" "k + fails as < MAX_CHILD_NUM"
  shows "\<exists>ws s'. supervise as s = (ws, Some s') \<and> numChild s' < MAX_CHILD_NUM \<and> numChild s' = live s' + k + fails as \<and>
    length ws = length as - (MAX_CHILD_NUM - 1 - numChild s) \<and>
    (\<forall>w \<in> set ws. numChild w = MAX_CHILD_NUM \<and> MAX_CHILD_NUM - k - fails as \<le> live w \<and> live w \<le> MAX_CHILD_NUM)"
  using assms
proof (induction as arbitrary: s k)
  case Nil
  then show ?case by (auto simp: fails_def)
next
  case (Cons a as)
  let ?f = "if a = Fork_fails then 1 else 0 :: nat"
  let ?s = "s\<lparr>live := live s + (1 - ?f), numChild := numChild s + 1\<rparr>"
  have fa: "fails (a # as) = ?f + fails as" by (simp add: fails_def)
  have fk: "sv_fork a s = Some (s\<lparr>live := live s + (1 - ?f)\<rparr>)"
    using Cons.prems by (cases a) (auto simp: sv_fork_def)
  have w: "numChild (sv_wait ?s) < MAX_CHILD_NUM" "numChild (sv_wait ?s) = live (sv_wait ?s) + (k + ?f)"
    using Cons.prems fa by (auto simp: sv_wait_def)
  obtain ws s' where ih: "supervise as (sv_wait ?s) = (ws, Some s')" "numChild s' < MAX_CHILD_NUM"
      "numChild s' = live s' + (k + ?f) + fails as" "length ws = length as - (MAX_CHILD_NUM - 1 - numChild (sv_wait ?s))"
      "\<forall>w \<in> set ws. numChild w = MAX_CHILD_NUM \<and> MAX_CHILD_NUM - (k + ?f) - fails as \<le> live w \<and> live w \<le> MAX_CHILD_NUM"
    using Cons.IH [OF _ w(1,2)] Cons.prems fa by auto
  have run: "supervise (a # as) s = (if numChild ?s \<ge> MAX_CHILD_NUM then ?s # ws else ws, Some s')"
    using fk ih(1) by (simp add: Let_def)
  show ?case
  proof (cases "numChild ?s \<ge> MAX_CHILD_NUM")
    case True
    then have n: "numChild s = MAX_CHILD_NUM - 1" "numChild (sv_wait ?s) = MAX_CHILD_NUM - 1"
      using Cons.prems(2) by (auto simp: sv_wait_def)
    have lw: "length ws = length as" using ih(4) n(2) by simp
    show ?thesis using run True ih(2,3,5) lw Cons.prems n(1) fa by (auto simp: MAX_CHILD_NUM_def)
  next
    case False
    then have n: "numChild (sv_wait ?s) = numChild s + 1" by (simp add: sv_wait_def)
    have lw: "length ws = length as - (MAX_CHILD_NUM - 1 - (numChild s + 1))" using ih(4) n by simp
    show ?thesis using run False ih(2,3,5) lw Cons.prems fa by auto
  qed
qed

text \<open>
  C25: The parent keeps its workers: it forks until four run, then waits, and for every worker
  that ended it forks a new one, so that whenever it waits four children are there; each fork that
  fails, up to three of them, costs at most one worker, for good.
\<close>

theorem supervisor_refills:
  assumes "In_child \<notin> set as" "fails as < MAX_CHILD_NUM"
  shows "\<exists>ws s. supervise as \<lparr>numChild = 0, live = 0\<rparr> = (ws, Some s) \<and> length ws = length as - 3 \<and>
    (\<forall>w \<in> set ws. MAX_CHILD_NUM - fails as \<le> live w \<and> live w \<le> MAX_CHILD_NUM) \<and>
    (4 \<le> length as \<longrightarrow> live s = 3 - fails as)"
proof -
  obtain ws s where s: "supervise as \<lparr>numChild = 0, live = 0\<rparr> = (ws, Some s)" "numChild s < MAX_CHILD_NUM"
      "numChild s = live s + fails as" "length ws = length as - 3"
      "\<forall>w \<in> set ws. MAX_CHILD_NUM - fails as \<le> live w \<and> live w \<le> MAX_CHILD_NUM"
    using supervise_counts [OF assms(1), of "\<lparr>numChild = 0, live = 0\<rparr>" 0] assms(2) by (auto simp: MAX_CHILD_NUM_def)
  have num: "numChild s' = 3" if "supervise bs t = (vs, Some s')" "numChild t \<le> 3" "3 \<le> length bs + numChild t" for bs t vs s'
    using that
  proof (induction bs arbitrary: t vs)
    case (Cons b bs)
    then show ?case
      by (auto simp: sv_fork_def sv_wait_def MAX_CHILD_NUM_def Let_def split: option.splits fork_answer.splits prod.splits if_splits)
  qed simp
  have "4 \<le> length as \<longrightarrow> live s = 3 - fails as" using num [OF s(1)] s(3) by auto
  with s show ?thesis by blast
qed


theorem supervisor_refills_witness:
  "\<exists>ws s. supervise [In_parent, In_parent, Fork_fails, In_parent, In_parent, In_parent] \<lparr>numChild = 0, live = 0\<rparr> = (ws, Some s) \<and>
     length ws = 3 \<and> (\<forall>w \<in> set ws. 3 \<le> live w) \<and> live s = 2"
proof -
  have f: "fails [In_parent, In_parent, Fork_fails, In_parent, In_parent, In_parent] = 1" by (simp add: fails_def)
  show ?thesis
    using supervisor_refills [of "[In_parent, In_parent, Fork_fails, In_parent, In_parent, In_parent]"] f
    by (auto simp: MAX_CHILD_NUM_def)
qed

end
