(* ===== verification/Descriptors.thy ===== *)
theory Descriptors
  imports Startup OpenFiles
begin

section \<open>The descriptors of the web server\<close>

text \<open>
  The functions of src/src/core/tgx.c that open and close files while the server starts:
  \<open>tgx_daemonize\<close>, \<open>tgx_lockfile\<close>, \<open>tgx_already_running\<close>, \<open>tgx_socket_init\<close>, \<open>tgx_set_nonblocking\<close>,
  \<open>tgx_open_log_file\<close>, and the handler of signals. The table of open files is that of theory OpenFiles.
\<close>

subsection \<open>The functions\<close>

text \<open>The results of the system calls: \<open>getrlimit\<close> with no limit or one, the forks, the lock, the socket.\<close>

record fd_env =
  dm_limit :: "nat option option"
  dm_fork1 :: fork_answer
  dm_fork2 :: fork_answer
  dm_errno :: int
  lk_open :: bool
  lk_answer :: lock_answer
  my_pid :: nat
  sk_socket :: bool
  sk_bind :: "u16 \<Rightarrow> bool"
  sk_listen :: bool

primrec close_loop :: "nat \<Rightarrow> nat \<Rightarrow> proc \<Rightarrow> proc" where
  "close_loop i 0 p = p"
| "close_loop i (Suc k) p = close_loop (Suc i) k (sys_close (int i) p)"

text \<open>
  \<open>tgx_daemonize\<close>: without the limit the loop reads a variable that was never set, and with one above
  the range of \<open>int\<close> its counter overflows.
\<close>

definition tgx_daemonize :: "fd_env \<Rightarrow> proc \<Rightarrow> proc after ub" where
  "tgx_daemonize env p = (case dm_fork1 env of
      Fork_fails \<Rightarrow> Inr (Ends (dm_errno env))
    | In_parent \<Rightarrow> Inr (Ends 0)
    | In_child \<Rightarrow> (case dm_fork2 env of
        Fork_fails \<Rightarrow> Inr (Ends (dm_errno env))
      | In_parent \<Rightarrow> Inr (Ends 0)
      | In_child \<Rightarrow> (case dm_limit env of
          None \<Rightarrow> Inl Uninitialised
        | Some l \<Rightarrow>
            let rlim_max = (case l of None \<Rightarrow> 1024 | Some n \<Rightarrow> n) in
            if 2 ^ 31 < rlim_max then Inl IntOverflow else Inr (Goes_on (close_loop 0 rlim_max p)))))"

text \<open>\<open>tgx_lockfile\<close> returns 0 or \<open>-1\<close>; whether the lock is held by somebody is in \<open>errno\<close>.\<close>

definition tgx_lockfile :: "fd_env \<Rightarrow> int \<Rightarrow> proc \<Rightarrow> int" where
  "tgx_lockfile env fd p = (if fds p (nat fd) \<noteq> None \<and> lk_answer env = Lock_free then 0 else - 1)"

text \<open>
  \<open>tgx_already_running\<close> with its descriptor: it keeps the file open while the lock is needed and
  writes the number of the process, with the terminating zero, from a buffer of 16 characters.
\<close>

definition already_running_fds :: "fd_env \<Rightarrow> string \<Rightarrow> proc \<Rightarrow> (int \<times> proc) after ub" where
  "already_running_fds env path p =
     (let (fd, p) = (if lk_open env then sys_open (Lock_file path) p else (- 1, p)) in
      if fd < 0 then Inr (Ends 1)
      else if tgx_lockfile env fd p < 0 then
        (if lk_answer env = Lock_held then Inr (Goes_on (1, sys_close fd p)) else Inr (Ends 1))
      else bind_ub (put_str 16 (decimal (my_pid env))) (\<lambda>buf. Inr (Goes_on (0, p\<lparr>lock_text := buf @ [NUL]\<rparr>))))"

text \<open>\<open>tgx_socket_init\<close>; a socket that cannot be bound or listened on stays open.\<close>

definition tgx_socket_init :: "fd_env \<Rightarrow> int \<Rightarrow> proc \<Rightarrow> int \<times> int option \<times> proc" where
  "tgx_socket_init env prt p =
     (let (fd, p) = (if sk_socket env then sys_open Unbound p else (- 1, p)) in
      if fd < 0 then (- 1, None, p)
      else
        let sin_port = word_of_int prt in
        if \<not> sk_bind env sin_port then (- 1, None, p)
        else if \<not> sk_listen env then (- 1, None, p)
        else (0, Some fd, p\<lparr>fds := (fds p)(nat fd \<mapsto> Listening sin_port)\<rparr>))"

definition tgx_set_nonblocking :: "bool \<Rightarrow> int \<Rightarrow> proc \<Rightarrow> int \<times> proc" where
  "tgx_set_nonblocking setfl_ok fd p =
     (if fd < 0 \<or> fds p (nat fd) = None then (- 1, p)
      else if \<not> setfl_ok then (- 1, p)
      else (0, p\<lparr>nonblocking := (nonblocking p)(nat fd := True)\<rparr>))"

definition tgx_open_log_file :: "bool \<Rightarrow> string \<Rightarrow> proc \<Rightarrow> int \<times> proc" where
  "tgx_open_log_file can_open name p =
     (let p = sys_close 2 p; (tmpfd, p) = (if can_open then sys_open (Log_file name) p else (- 1, p)) in
      let p = (if tmpfd \<noteq> - 1 \<and> tmpfd \<noteq> 2 then sys_close tmpfd (sys_dup2 tmpfd 2 p) else p) in
      (if tmpfd \<noteq> - 1 then 0 else - 1, p))"

text \<open>The new value of \<open>running\<close>.\<close>

definition tgx_sig_handler :: "signo \<Rightarrow> bool \<Rightarrow> bool" where
  "tgx_sig_handler s running = (case s of SIGINT \<Rightarrow> False | SIGPIPE \<Rightarrow> running | SIGHUP \<Rightarrow> running | _ \<Rightarrow> running)"

text \<open>
  The order of \<open>main\<close>: the daemon, the lock file, the configuration, which \<open>tgx_scan_config_file\<close> opens and
  never closes, and the socket.
\<close>

definition main_files :: "fd_env \<Rightarrow> bool \<Rightarrow> string \<Rightarrow> bool \<Rightarrow> int \<Rightarrow> proc \<Rightarrow> (int \<times> proc) after ub" where
  "main_files env daemon cpath conf_exists prt p =
     bind_ub (if daemon then tgx_daemonize env p else Inr (Goes_on p)) (\<lambda>r. case r of
       Ends e \<Rightarrow> Inr (Ends e)
     | Goes_on p \<Rightarrow> bind_ub (already_running_fds env TGX_LOCK_FILE p) (\<lambda>r. case r of
         Ends e \<Rightarrow> Inr (Ends e)
       | Goes_on (running, p) \<Rightarrow>
           if running \<noteq> 0 then Inr (Ends (- 1))
           else
             let (fd, p) = (if conf_exists then sys_open (Config_file cpath) p else (- 1, p)) in
             if fd < 0 then Inr (Ends (- 1))
             else
               let (r, lfd, p) = tgx_socket_init env prt p in
               (case lfd of None \<Rightarrow> Inr (Ends (- 1)) | Some lfd \<Rightarrow> if r < 0 then Inr (Ends (- 1)) else Inr (Goes_on (lfd, p)))))"

subsection \<open>Properties of the table\<close>

lemma close_loop_eq: "close_loop i k p = p\<lparr>fds := (\<lambda>j. if i \<le> j \<and> j < i + k then None else fds p j)\<rparr>"
proof (induction k arbitrary: i p)
  case 0
  have "(\<lambda>j. if i \<le> j \<and> j < i + 0 then None else fds p j) = fds p" by (auto simp: fun_eq_iff)
  then show ?case by simp
next
  case (Suc k)
  have "close_loop i (Suc k) p = close_loop (Suc i) k (p\<lparr>fds := (fds p)(i := None)\<rparr>)" by (simp add: sys_close_def)
  also have "\<dots> = p\<lparr>fds := (\<lambda>j. if i \<le> j \<and> j < i + Suc k then None else fds p j)\<rparr>"
    unfolding Suc.IH by (auto simp: fun_eq_iff intro!: arg_cong [of _ _ "\<lambda>f. p\<lparr>fds := f\<rparr>"])
  finally show ?case .
qed

text \<open>The answers with which the server starts.\<close>

definition files_ok :: "fd_env \<Rightarrow> int \<Rightarrow> bool" where
  "files_ok env prt \<longleftrightarrow> lk_open env \<and> lk_answer env = Lock_free \<and> my_pid env < 10 ^ 15 \<and> sk_socket env \<and>
     sk_bind env (word_of_int prt) \<and> sk_listen env"

lemma files_in_order:
  assumes "dense k p" "k + 3 \<le> fd_limit p" "files_ok env prt"
  shows "\<exists>p'. main_files env False cpath True prt p = Inr (Goes_on (int k + 2, p')) \<and> dense (k + 3) p' \<and>
    fds p' = (fds p)(k \<mapsto> Lock_file TGX_LOCK_FILE, k + 1 \<mapsto> Config_file cpath, k + 2 \<mapsto> Listening (word_of_int prt)) \<and>
    lock_text p' = decimal (my_pid env) @ [NUL]"
proof -
  let ?p1 = "p\<lparr>fds := (fds p)(k \<mapsto> Lock_file TGX_LOCK_FILE), nonblocking := (nonblocking p)(k := False)\<rparr>"
  let ?p2 = "?p1\<lparr>lock_text := decimal (my_pid env) @ [NUL]\<rparr>"
  let ?p3 = "?p2\<lparr>fds := (fds ?p2)(Suc k \<mapsto> Config_file cpath), nonblocking := (nonblocking ?p2)(Suc k := False)\<rparr>"
  let ?p4 = "?p3\<lparr>fds := (fds ?p3)(Suc (Suc k) \<mapsto> Unbound), nonblocking := (nonblocking ?p3)(Suc (Suc k) := False)\<rparr>"
  have o1: "sys_open (Lock_file TGX_LOCK_FILE) p = (int k, ?p1)" "dense (Suc k) ?p2"
    using dense_open [OF assms(1)] assms(2) by (simp_all add: dense_def)
  have o2: "sys_open (Config_file cpath) ?p2 = (int (Suc k), ?p3)" "dense (Suc (Suc k)) ?p3"
    using dense_open [OF o1(2)] assms(2) by (simp_all add: dense_def)
  have o3: "sys_open Unbound ?p3 = (int (Suc (Suc k)), ?p4)" "dense (Suc (Suc (Suc k))) ?p4"
    using dense_open [OF o2(2)] assms(2) by (simp_all add: dense_def)
  have pid: "put_str 16 (decimal (my_pid env)) = Inr (decimal (my_pid env))"
    using decimal_length [of "my_pid env" 15] assms(3) by (simp add: files_ok_def)
  have ar: "already_running_fds env TGX_LOCK_FILE p = Inr (Goes_on (0, ?p2))"
    using o1(1) assms(3) pid by (simp add: already_running_fds_def files_ok_def tgx_lockfile_def Let_def)
  have si: "tgx_socket_init env prt ?p3 = (0, Some (int (Suc (Suc k))), ?p4\<lparr>fds := (fds ?p4)(Suc (Suc k) \<mapsto> Listening (word_of_int prt))\<rparr>)"
    using o3(1) assms(3) by (simp add: tgx_socket_init_def files_ok_def Let_def nat_add_distrib)
  let ?p5 = "?p4\<lparr>fds := (fds ?p4)(Suc (Suc k) \<mapsto> Listening (word_of_int prt))\<rparr>"
  have "dense (k + 3) ?p5" using assms(1) by (auto simp: dense_def)
  then show ?thesis using ar o2(1) si by (intro exI [of _ ?p5]) (simp add: main_files_def Let_def)
qed

lemma daemon_empties:
  assumes "dm_fork1 env = In_child" "dm_fork2 env = In_child" "dm_limit env = Some (Some n)" "n \<le> 2 ^ 31" "\<forall>i \<ge> n. fds p i = None"
  shows "tgx_daemonize env p = Inr (Goes_on (p\<lparr>fds := (\<lambda>_. None)\<rparr>))"
proof -
  have "(\<lambda>j. if 0 \<le> j \<and> j < 0 + n then None else fds p j) = (\<lambda>_. None)" using assms(5) by (auto simp: fun_eq_iff)
  then show ?thesis using assms(1-4) close_loop_eq [of 0 n p] by (simp add: tgx_daemonize_def Let_def)
qed

lemma daemon_first:
  assumes "tgx_daemonize env p = Inr (Goes_on p1)"
  shows "main_files env True cpath ce prt p = main_files env False cpath ce prt p1"
  using assms by (simp add: main_files_def)

lemma daemon_files:
  assumes "files_ok env prt" "3 \<le> fd_limit p"
    and "dm_fork1 env = In_child" "dm_fork2 env = In_child" "dm_limit env = Some (Some n)" "n \<le> 2 ^ 31" "\<forall>i \<ge> n. fds p i = None"
  shows "\<exists>p'. main_files env True cpath True prt p = Inr (Goes_on (2, p')) \<and>
    fds p' = [0 \<mapsto> Lock_file TGX_LOCK_FILE, 1 \<mapsto> Config_file cpath, 2 \<mapsto> Listening (word_of_int prt)]"
proof -
  let ?p = "p\<lparr>fds := (\<lambda>_. None)\<rparr>"
  have m: "main_files env True cpath True prt p = main_files env False cpath True prt ?p"
    using daemon_first [OF daemon_empties [OF assms(3-7)]] .
  have "dense 0 ?p" by (simp add: dense_def)
  from files_in_order [OF this _ assms(1), of cpath] assms(2) m show ?thesis by (auto simp: numeral_2_eq_2)
qed

text \<open>
  The numbers the server's files get. Started in the foreground, with the three standard
  files open, the lock file is 3, the configuration file 4 and the listening socket 5. As a
  daemon, which closes everything first, they are 0, 1 and 2: what the server prints goes to the
  configuration file, opened for reading, and its standard error is the listening socket.
\<close>

theorem start_descriptors:
  assumes "files_ok env prt" "6 \<le> fd_limit p"
  shows "(fds p = [0 \<mapsto> Terminal, 1 \<mapsto> Terminal, 2 \<mapsto> Terminal] \<longrightarrow>
      (\<exists>p'. main_files env False cpath True prt p = Inr (Goes_on (5, p')) \<and>
        fds p' = [0 \<mapsto> Terminal, 1 \<mapsto> Terminal, 2 \<mapsto> Terminal, 3 \<mapsto> Lock_file TGX_LOCK_FILE, 4 \<mapsto> Config_file cpath,
          5 \<mapsto> Listening (word_of_int prt)])) \<and>
    (dm_fork1 env = In_child \<and> dm_fork2 env = In_child \<and> dm_limit env = Some (Some n) \<and> n \<le> 2 ^ 31 \<and> (\<forall>i \<ge> n. fds p i = None) \<longrightarrow>
      (\<exists>p'. main_files env True cpath True prt p = Inr (Goes_on (2, p')) \<and>
        fds p' = [0 \<mapsto> Lock_file TGX_LOCK_FILE, 1 \<mapsto> Config_file cpath, 2 \<mapsto> Listening (word_of_int prt)]))"
proof (intro conjI impI)
  assume f: "fds p = [0 \<mapsto> Terminal, 1 \<mapsto> Terminal, 2 \<mapsto> Terminal]"
  then have "dense 3 p" by (auto simp: dense_def)
  from files_in_order [OF this _ assms(1), of cpath] assms(2) show "\<exists>p'. main_files env False cpath True prt p = Inr (Goes_on (5, p')) \<and>
      fds p' = [0 \<mapsto> Terminal, 1 \<mapsto> Terminal, 2 \<mapsto> Terminal, 3 \<mapsto> Lock_file TGX_LOCK_FILE, 4 \<mapsto> Config_file cpath, 5 \<mapsto> Listening (word_of_int prt)]"
    unfolding f by auto
next
  assume d: "dm_fork1 env = In_child \<and> dm_fork2 env = In_child \<and> dm_limit env = Some (Some n) \<and> n \<le> 2 ^ 31 \<and> (\<forall>i \<ge> n. fds p i = None)"
  then show "\<exists>p'. main_files env True cpath True prt p = Inr (Goes_on (2, p')) \<and>
      fds p' = [0 \<mapsto> Lock_file TGX_LOCK_FILE, 1 \<mapsto> Config_file cpath, 2 \<mapsto> Listening (word_of_int prt)]"
    using daemon_files [OF assms(1)] assms(2) by simp
qed

definition usual :: fd_env where
  "usual = \<lparr>dm_limit = Some (Some 4096), dm_fork1 = In_child, dm_fork2 = In_child, dm_errno = 0, lk_open = True, lk_answer = Lock_free,
     my_pid = 4711, sk_socket = True, sk_bind = (\<lambda>_. True), sk_listen = True\<rparr>"

theorem start_descriptors_witness:
  "\<exists>p'. main_files usual True ''tgx.conf'' True 9000 shell = Inr (Goes_on (2, p')) \<and> fds p' 2 = Some (Listening 9000)"
proof -
  have ok: "files_ok usual 9000" "6 \<le> fd_limit shell" by (simp_all add: files_ok_def usual_def shell_def)
  have "dm_fork1 usual = In_child \<and> dm_fork2 usual = In_child \<and> dm_limit usual = Some (Some 4096) \<and> 4096 \<le> (2 :: nat) ^ 31 \<and>
      (\<forall>i \<ge> 4096. fds shell i = None)" by (simp add: usual_def shell_def)
  from mp [OF conjunct2 [OF start_descriptors [OF ok, of "''tgx.conf''" 4096]] this] show ?thesis by auto
qed

subsection \<open>The single calls\<close>

text \<open>
  The function with its descriptor decides as the abstract one of \<open>Startup\<close> does, where a file that cannot be opened is an error.
\<close>

lemma already_running_refines:
  assumes "my_pid env < 10 ^ 15"
    and "lock_state senv f = (if lk_open env \<and> 0 \<le> fst (sys_open (Lock_file f) p) then lk_answer env else Lock_error)"
  shows "\<exists>r. already_running_fds env f p = Inr r \<and>
    tgx_already_running senv f = (case r of Ends e \<Rightarrow> Some e | Goes_on (b, _) \<Rightarrow> if b \<noteq> 0 then Some (- 1) else None)"
proof -
  have pid: "put_str 16 (decimal (my_pid env)) = Inr (decimal (my_pid env))"
    using decimal_length [of "my_pid env" 15] assms(1) by simp
  show ?thesis
  proof (rule sys_open_cases [of "Lock_file f" p])
    assume "sys_open (Lock_file f) p = (- 1, p)"
    then show ?thesis using assms(2) by (simp add: already_running_fds_def tgx_already_running_def Let_def)
  next
    fix i assume "fds p i = None"
      "sys_open (Lock_file f) p = (int i, p\<lparr>fds := (fds p)(i \<mapsto> Lock_file f), nonblocking := (nonblocking p)(i := False)\<rparr>)"
    then show ?thesis using assms(2) pid
      by (cases "lk_answer env") (auto simp: already_running_fds_def tgx_already_running_def tgx_lockfile_def Let_def)
  qed
qed

text \<open>After \<open>tgx_open_log_file\<close> returned 0 the standard error is the log file, and no other number changed.\<close>

lemma log_file_is_stderr:
  assumes "tgx_open_log_file ok name p = (0, p')"
  shows "fds p' 2 = Some (Log_file name) \<and> (\<forall>i. i \<noteq> 2 \<longrightarrow> fds p' i = fds p i)"
proof (rule sys_open_cases [of "Log_file name" "sys_close 2 p"])
  assume "sys_open (Log_file name) (sys_close 2 p) = (- 1, sys_close 2 p)"
  then show ?thesis using assms by (simp add: tgx_open_log_file_def Let_def split: if_splits)
next
  fix i assume "fds (sys_close 2 p) i = None" "sys_open (Log_file name) (sys_close 2 p) = (int i,
      (sys_close 2 p)\<lparr>fds := (fds (sys_close 2 p))(i \<mapsto> Log_file name), nonblocking := (nonblocking (sys_close 2 p))(i := False)\<rparr>)"
  then show ?thesis using assms
    by (auto simp: tgx_open_log_file_def sys_close_def sys_dup2_def Let_def split: if_splits)
qed

text \<open>A socket that was created but cannot be bound stays open.\<close>

lemma socket_init_leaks:
  assumes "sk_socket env" "\<not> sk_bind env (word_of_int prt)" "dense k p" "k < fd_limit p"
  shows "\<exists>p'. tgx_socket_init env prt p = (- 1, None, p') \<and> dense (Suc k) p'"
  using assms(1,2) dense_open(1) [OF assms(3,4), of Unbound] dense_open(2) [OF assms(3,4), where f = Unbound] by (simp add: tgx_socket_init_def Let_def)

text \<open>Of the signals whose handler is set only the interrupt ends the server; it goes on after a request to terminate.\<close>

lemma only_interrupt_stops: "\<not> tgx_sig_handler s True \<longleftrightarrow> s = SIGINT"
  by (cases s) (simp_all add: tgx_sig_handler_def)

end
